(* ===== verification/Prelude.thy ===== *)
theory Prelude
  imports Main "HOL-Library.Word" "HOL-Library.Char_ord" "HOL-Library.List_Lexorder"
begin

text \<open>
  What every component of the development shares.

  A C \<open>char\<close> is one byte and is modelled by HOL's type \<^typ>\<open>char\<close> (eight bits); a
  \<open>std::string\<close> or a byte array is a \<^typ>\<open>string\<close>. The order of \<^typ>\<open>char\<close> and of
  \<^typ>\<open>string\<close> is the unsigned byte order and the lexicographic one, as in
  \<open>std::char_traits<char>::compare\<close>. The type \<open>fault\<close> names the ways a C++ operation can go
  wrong, so that a model function returns \<open>Inl\<close> of a fault where the code has undefined
  behaviour, leaves an exception uncaught or ends the process. The rest: memory blocks written in place, 32-bit wrap-around,
  and the decimal conversions of the C library (\<open>printf "%d"\<close>, \<open>atoi\<close>, \<open>strtol\<close>).
\<close>

section \<open>Faults\<close>

datatype fault =
    Null_deref
  | Out_of_bounds
  | Use_after_free
  | Int_overflow
  | Div_by_zero
  | Uncaught
  | Overlapping_copy
  | Exit int

type_synonym 'a outcome = "fault + 'a"

abbreviation Fault :: "fault \<Rightarrow> 'a outcome" where
  "Fault f \<equiv> Inl f"

abbreviation Done :: "'a \<Rightarrow> 'a outcome" where
  "Done x \<equiv> Inr x"

named_theorems codec "round-trip equations of encoders and decoders"
named_theorems keeps "operations that keep a component's invariant"

section \<open>Integers\<close>

text \<open>A C \<open>int\<close> is a mathematical integer in this range; \<open>wrap32\<close> is the two's complement
  reading of a result that left it.\<close>

abbreviation INT_MAX :: int where "INT_MAX \<equiv> 2147483647"
abbreviation INT_MIN :: int where "INT_MIN \<equiv> -2147483648"

definition wrap32 :: "int \<Rightarrow> int" where
  "wrap32 x = (x + 2147483648) mod 4294967296 - 2147483648"

lemma wrap32_id [simp]: "INT_MIN \<le> x \<Longrightarrow> x \<le> INT_MAX \<Longrightarrow> wrap32 x = x"
  by (simp add: wrap32_def)

lemma wrap32_bounds: "INT_MIN \<le> wrap32 x" "wrap32 x \<le> INT_MAX"
  unfolding wrap32_def by (simp_all add: pos_mod_bound [of 4294967296, simplified])

definition clamp64 :: "int \<Rightarrow> int" where
  "clamp64 x = max (- 9223372036854775808) (min 9223372036854775807 x)"

lemma clamp64_id [simp]:
  "- 9223372036854775808 \<le> x \<Longrightarrow> x \<le> 9223372036854775807 \<Longrightarrow> clamp64 x = x"
  by (simp add: clamp64_def)

section \<open>Memory blocks\<close>

text \<open>\<open>overwrite i bs m\<close> is \<open>memcpy(m + i, bs, len)\<close> on a block that is large enough.\<close>

definition overwrite :: "nat \<Rightarrow> 'a list \<Rightarrow> 'a list \<Rightarrow> 'a list" where
  "overwrite i bs m = take i m @ bs @ drop (i + length bs) m"

definition span :: "nat \<Rightarrow> nat \<Rightarrow> 'a list \<Rightarrow> 'a list" where
  "span i n m = take n (drop i m)"

lemma drop_eq_Cons_nth:
  assumes "drop e s = c # t"
  shows "e < length s" "s ! e = c" "drop (Suc e) s = t"
proof -
  show e: "e < length s" using assms by (rule contrapos_pp) simp
  from Cons_nth_drop_Suc [OF e] assms show "s ! e = c" "drop (Suc e) s = t" by simp_all
qed

lemma length_overwrite [simp]:
  "i + length bs \<le> length m \<Longrightarrow> length (overwrite i bs m) = length m"
  by (simp add: overwrite_def)

lemma length_span [simp]: "i + n \<le> length m \<Longrightarrow> length (span i n m) = n"
  by (simp add: span_def)

lemma span_0 [simp]: "span i 0 m = []"
  by (simp add: span_def)

lemma span_overwrite_same [simp]:
  "i + length bs \<le> length m \<Longrightarrow> n = length bs \<Longrightarrow> span i n (overwrite i bs m) = bs"
  by (simp add: overwrite_def span_def)

lemma span_overwrite_before:
  "i + n \<le> j \<Longrightarrow> j + length bs \<le> length m \<Longrightarrow> span i n (overwrite j bs m) = span i n m"
  by (simp add: overwrite_def span_def drop_take)

lemma span_overwrite_after:
  "j + length bs \<le> i \<Longrightarrow> j + length bs \<le> length m \<Longrightarrow>
   span i n (overwrite j bs m) = span i n m"
  by (simp add: overwrite_def span_def)

lemma span_append_span: "span i n m @ span (i + n) k m = span i (n + k) m"
  by (simp add: span_def take_add add.commute [of i n])

lemma span_overwrite_extend:
  "i + n + length bs \<le> length m \<Longrightarrow>
   span i (n + length bs) (overwrite (i + n) bs m) = span i n m @ bs"
  by (simp add: span_append_span [symmetric] span_overwrite_before)

lemma nth_overwrite_outside:
  "k < i \<or> i + length bs \<le> k \<Longrightarrow> i + length bs \<le> length m \<Longrightarrow> k < length m \<Longrightarrow>
   overwrite i bs m ! k = m ! k"
  by (auto simp: overwrite_def nth_append)

lemma span_grow [simp]: "i + n \<le> length m \<Longrightarrow> span i n (m @ x) = span i n m"
  by (simp add: span_def)

lemma span_span: "a + b \<le> n \<Longrightarrow> span a b (span i n m) = span (i + a) b m"
  by (simp add: span_def drop_take min_def add.commute [of a i])

section \<open>Characters and numbers of the C library\<close>

definition code_of :: "char \<Rightarrow> nat" where
  "code_of c = of_char c"

text \<open>The value of a plain \<open>char\<close> (signed on the platform of the build files).\<close>

definition schar :: "char \<Rightarrow> int" where
  "schar c = (if code_of c < 128 then int (code_of c) else int (code_of c) - 256)"

definition byte_of :: "int \<Rightarrow> char" where
  "byte_of i = char_of (nat (i mod 256))"

lemma code_of_less [simp]: "code_of c < 256"
  by (simp add: code_of_def)

lemma code_of_char_of [simp]: "code_of (char_of (n :: nat)) = n mod 256"
  by (simp add: code_of_def)

lemma char_of_code_of [simp]: "char_of (code_of c) = c"
  by (simp add: code_of_def)

lemma code_of_inject: "code_of c = code_of d \<longleftrightarrow> c = d"
  by (simp add: code_of_def)

lemma byte_of_schar [simp]: "byte_of (schar c) = c"
proof -
  have "int (code_of c) < 256" using code_of_less [of c] by simp
  then have "schar c mod 256 = int (code_of c)"
    by (simp add: schar_def)
  then show ?thesis by (simp add: byte_of_def)
qed

lemma schar_bounds: "- 128 \<le> schar c" "schar c \<le> 127"
proof -
  have "code_of c < 256" by simp
  then show "- 128 \<le> schar c" and "schar c \<le> 127"
    by (simp_all only: schar_def split: if_split) linarith+
qed

definition isspace :: "char \<Rightarrow> bool" where
  "isspace c \<longleftrightarrow> c = CHR '' '' \<or> (9 \<le> code_of c \<and> code_of c \<le> 13)"

definition is_digit :: "char \<Rightarrow> bool" where
  "is_digit c \<longleftrightarrow> 48 \<le> code_of c \<and> code_of c \<le> 57"

lemma digit_not_space: "is_digit c \<Longrightarrow> \<not> isspace c"
  by (auto simp: is_digit_def isspace_def code_of_def)

lemma digit_not_sign: "is_digit c \<Longrightarrow> c \<noteq> CHR ''-'' \<and> c \<noteq> CHR ''+''"
  by (auto simp: is_digit_def code_of_def)

definition digit :: "nat \<Rightarrow> char" where
  "digit n = char_of (48 + n)"

definition digit_val :: "char \<Rightarrow> nat" where
  "digit_val c = code_of c - 48"

lemma digit_val_digit [simp]: "n < 10 \<Longrightarrow> digit_val (digit n) = n"
  by (simp add: digit_def digit_val_def)

lemma is_digit_digit [simp]: "n < 10 \<Longrightarrow> is_digit (digit n)"
  by (simp add: digit_def is_digit_def)

fun show_nat :: "nat \<Rightarrow> string" where
  "show_nat n = (if n < 10 then [digit n] else show_nat (n div 10) @ [digit (n mod 10)])"

declare show_nat.simps [simp del]

text \<open>\<open>printf "%d"\<close> (and \<open>PRId64\<close>, \<open>PRIu64\<close>) of an integer.\<close>

definition show_int :: "int \<Rightarrow> string" where
  "show_int i = (if i < 0 then CHR ''-'' # show_nat (nat (- i)) else show_nat (nat i))"

definition digits_val :: "string \<Rightarrow> nat" where
  "digits_val ds = foldl (\<lambda>a c. 10 * a + digit_val c) 0 ds"

lemma digits_val_snoc [simp]: "digits_val (ds @ [c]) = 10 * digits_val ds + digit_val c"
  by (simp add: digits_val_def)

lemma digits_val_show_nat [codec, simp]: "digits_val (show_nat n) = n"
proof (induction n rule: show_nat.induct)
  case (1 n)
  show ?case
  proof (cases "n < 10")
    case True
    then show ?thesis
      by (subst show_nat.simps) (simp add: digits_val_def)
  next
    case False
    with 1 show ?thesis
      by (subst show_nat.simps) simp
  qed
qed

lemma show_nat_digits: "\<forall>c \<in> set (show_nat n). is_digit c"
proof (induction n rule: show_nat.induct)
  case (1 n)
  then show ?case by (subst show_nat.simps) auto
qed

lemma show_nat_nonempty [simp]: "show_nat n \<noteq> []"
  by (subst show_nat.simps) simp

lemma show_nat_hd: "is_digit (hd (show_nat n))"
  using show_nat_digits [of n] by (simp add: hd_in_set)

lemma show_nat_length_le: "n < 10 ^ k \<Longrightarrow> 0 < k \<Longrightarrow> length (show_nat n) \<le> k"
proof (induction k arbitrary: n)
  case 0
  then show ?case by simp
next
  case (Suc k)
  show ?case
  proof (cases "n < 10")
    case True
    then show ?thesis by (subst show_nat.simps) simp
  next
    case False
    with Suc.prems have "n div 10 < 10 ^ k" "0 < k"
      by (auto simp: less_mult_imp_div_less mult.commute intro: Nat.gr0I)
    with Suc.IH have "length (show_nat (n div 10)) \<le> k" by blast
    with False show ?thesis by (subst show_nat.simps) simp
  qed
qed

lemma show_nat_length_ge: "10 ^ k \<le> n \<Longrightarrow> Suc k \<le> length (show_nat n)"
proof (induction k arbitrary: n)
  case 0
  then show ?case by (simp add: Suc_leI)
next
  case (Suc k)
  have "1 \<le> (10 :: nat) ^ k" by simp
  with Suc.prems have "\<not> n < 10" unfolding power_Suc by linarith
  moreover from Suc.prems have "10 ^ k \<le> n div 10"
    by (simp add: less_eq_div_iff_mult_less_eq mult.commute)
  ultimately have "\<not> n < 10" "10 ^ k \<le> n div 10" by blast+
  with Suc.IH have "Suc k \<le> length (show_nat (n div 10))" by blast
  with \<open>\<not> n < 10\<close> show ?case by (subst show_nat.simps) simp
qed

text \<open>\<open>strtol\<close>, \<open>strtoll\<close> and \<open>strtoull\<close> in base ten: the mathematical value that was read and
  the number of characters consumed (none when there is no digit).\<close>

definition scan_int :: "string \<Rightarrow> int \<times> nat" where
  "scan_int s =
     (let ws = takeWhile isspace s; s1 = dropWhile isspace s;
          neg = (s1 \<noteq> [] \<and> hd s1 = CHR ''-'');
          s2 = (if s1 \<noteq> [] \<and> (hd s1 = CHR ''-'' \<or> hd s1 = CHR ''+'') then tl s1 else s1);
          ds = takeWhile is_digit s2
      in if ds = [] then (0, 0)
         else ((if neg then - int (digits_val ds) else int (digits_val ds)),
               length ws + (length s1 - length s2) + length ds))"

text \<open>The C string in a character array: it ends before the first NUL.\<close>

definition c_str :: "string \<Rightarrow> string" where
  "c_str s = takeWhile (\<lambda>c. c \<noteq> CHR 0x00) s"

text \<open>glibc: \<open>atoi(s)\<close> is \<open>(int)strtol(s, NULL, 10)\<close> on a 64-bit \<open>long\<close>.\<close>

definition atoi :: "string \<Rightarrow> int" where
  "atoi s = wrap32 (clamp64 (fst (scan_int (c_str s))))"

text \<open>\<open>std::stoi\<close>: without a digit and outside \<open>int\<close> it throws (and nothing in the repository catches
  that).\<close>

definition stoi :: "string \<Rightarrow> int outcome" where
  "stoi s =
     (let (v, n) = scan_int (c_str s) in
      if n = 0 \<or> v < INT_MIN \<or> INT_MAX < v then Fault Uncaught else Done v)"

lemma takeWhile_digits [simp]: "takeWhile is_digit (show_nat n) = show_nat n"
  by (rule takeWhile_eq_all_conv [THEN iffD2]) (rule show_nat_digits)

lemma dropWhile_space_digit: "s \<noteq> [] \<Longrightarrow> is_digit (hd s) \<Longrightarrow> dropWhile isspace s = s"
  by (cases s) (auto dest: digit_not_space)

lemma takeWhile_space_digit: "s \<noteq> [] \<Longrightarrow> is_digit (hd s) \<Longrightarrow> takeWhile isspace s = []"
  by (cases s) (auto dest: digit_not_space)

lemma scan_show_nat: "scan_int (show_nat n) = (int n, length (show_nat n))"
  using show_nat_hd [of n] digit_not_sign [of "hd (show_nat n)"]
  by (simp add: scan_int_def dropWhile_space_digit takeWhile_space_digit Let_def)

lemma scan_show_int [codec]: "scan_int (show_int i) = (i, length (show_int i))"
proof (cases "i < 0")
  case True
  have "\<not> isspace (CHR ''-'')" by (simp add: isspace_def code_of_def)
  with True show ?thesis by (simp add: show_int_def scan_int_def Let_def)
next
  case False
  then show ?thesis by (simp add: show_int_def scan_show_nat)
qed

lemma digit_not_nul: "is_digit c \<Longrightarrow> c \<noteq> CHR 0x00"
  by (auto simp: is_digit_def code_of_def)

lemma c_str_id: "CHR 0x00 \<notin> set s \<Longrightarrow> c_str s = s"
  by (auto simp: c_str_def intro: takeWhile_eq_all_conv [THEN iffD2])

lemma show_int_no_nul: "CHR 0x00 \<notin> set (show_int i)"
proof -
  have "CHR 0x00 \<notin> set (show_nat n)" for n
    using show_nat_digits [of n] digit_not_nul by blast
  then show ?thesis by (auto simp: show_int_def)
qed

lemma c_str_show_int [simp]: "c_str (show_int i) = show_int i"
  by (rule c_str_id) (rule show_int_no_nul)

lemma stoi_show_int [codec, simp]: "INT_MIN \<le> i \<Longrightarrow> i \<le> INT_MAX \<Longrightarrow> stoi (show_int i) = Done i"
proof -
  assume "INT_MIN \<le> i" "i \<le> INT_MAX"
  moreover have "show_int i \<noteq> []" by (simp add: show_int_def)
  ultimately show ?thesis by (simp add: stoi_def scan_show_int)
qed

lemma atoi_show_int [codec, simp]: "INT_MIN \<le> i \<Longrightarrow> i \<le> INT_MAX \<Longrightarrow> atoi (show_int i) = i"
  by (simp add: atoi_def scan_show_int)

end
