(* ===== verification/KvStore.thy ===== *)
theory KvStore
  imports Prelude "HOL-Library.AList"
begin

text \<open>
  The key-value library, \<open>kvstorelib/\<close>: the wire messages (\<open>messages.h\<close>), the store interface
  (\<open>kvstore.h\<close>), its implementation over libcuckoo (\<open>cuckoo_kvstore.cpp\<close>) and the packet
  handler with its global store pointer (\<open>kvstorelib.cpp\<close>).

  libcuckoo's \<open>cuckoohash_map\<close> is not part of the repository: it is the record \<open>cuckoo\<close> of its
  operations, an argument of every definition that uses it, and the locale \<open>cuckoohash_map\<close> states
  what its documentation promises. \<open>alist_cuckoo\<close> is a concrete map that keeps those promises.
\<close>

section \<open>Wire messages (messages.h)\<close>

datatype Operation = GET | PUT | DELETE | UPDATE

datatype StatusCode = OK | ERROR | NOT_FOUND | KEY_IN_USE

fun operation_code :: "Operation \<Rightarrow> int" where
  "operation_code GET = 0"
| "operation_code PUT = 1"
| "operation_code DELETE = 2"
| "operation_code UPDATE = 3"

fun status_byte :: "StatusCode \<Rightarrow> char" where
  "status_byte OK = CHR 0x00"
| "status_byte ERROR = CHR 0x01"
| "status_byte NOT_FOUND = CHR 0x02"
| "status_byte KEY_IN_USE = CHR 0x03"

text \<open>The case labels of the \<open>switch\<close> on the (signed) operation byte.\<close>

definition operation_of :: "char \<Rightarrow> Operation option" where
  "operation_of c =
     (if schar c = 0 then Some GET
      else if schar c = 1 then Some PUT
      else if schar c = 2 then Some DELETE
      else if schar c = 3 then Some UPDATE
      else None)"

record send_message =
  operation :: char
  keepalive :: char
  key :: string
  msg_value :: string

abbreviation MESSAGE_SIZE :: nat where "MESSAGE_SIZE \<equiv> 50"

text \<open>The struct laid over a buffer: one byte, one byte, 16 bytes, 32 bytes, no padding.\<close>

definition decode_send :: "string \<Rightarrow> send_message" where
  "decode_send buf =
     \<lparr>operation = buf ! 0, keepalive = buf ! 1, key = span 2 16 buf, msg_value = span 18 32 buf\<rparr>"

definition encode_send :: "send_message \<Rightarrow> string" where
  "encode_send m = [operation m, keepalive m] @ key m @ msg_value m"

definition wf_send :: "send_message \<Rightarrow> bool" where
  "wf_send m \<longleftrightarrow> length (key m) = 16 \<and> length (msg_value m) = 32"

lemma length_encode_send [simp]: "wf_send m \<Longrightarrow> length (encode_send m) = MESSAGE_SIZE"
  by (simp add: encode_send_def wf_send_def)

lemma wf_decode_send [simp]: "MESSAGE_SIZE \<le> length buf \<Longrightarrow> wf_send (decode_send buf)"
  by (simp add: decode_send_def wf_send_def)

lemma decode_encode_send [codec, simp]: "wf_send m \<Longrightarrow> decode_send (encode_send m @ rest) = m"
  by (simp add: decode_send_def encode_send_def wf_send_def span_def numeral_2_eq_2)

lemma encode_decode_send [codec]:
  assumes "MESSAGE_SIZE \<le> length buf"
  shows "encode_send (decode_send buf) = take MESSAGE_SIZE buf"
proof -
  have "[buf ! 0, buf ! 1] = span 0 2 buf"
    using assms by (cases buf; cases "tl buf") (auto simp: span_def numeral_2_eq_2)
  moreover have "span 0 2 buf @ span 2 48 buf = span 0 50 buf"
    using span_append_span [of 0 2 buf 48] unfolding add_0 by simp
  moreover have "span 2 16 buf @ span 18 32 buf = span 2 48 buf"
    using span_append_span [of 2 16 buf 32] by simp
  ultimately show ?thesis
    by (simp add: encode_send_def decode_send_def span_def)
qed

section \<open>The store interface (kvstore.h) and libcuckoo\<close>

text \<open>\<open>operator ==\<close> on keys is \<open>memcmp\<close> over the sixteen bytes of the struct.\<close>

definition Key_eq :: "string \<Rightarrow> string \<Rightarrow> bool" where
  "Key_eq lhs rhs \<longleftrightarrow> take 16 lhs = take 16 rhs"

lemma Key_eq_keys: "length a = 16 \<Longrightarrow> length b = 16 \<Longrightarrow> Key_eq a b \<longleftrightarrow> a = b"
  by (simp add: Key_eq_def)

record 'h cuckoo =
  ck_new :: 'h
  ck_insert :: "'h \<Rightarrow> string \<Rightarrow> string \<Rightarrow> bool \<times> 'h"
  ck_find :: "'h \<Rightarrow> string \<Rightarrow> string option"
  ck_erase :: "'h \<Rightarrow> string \<Rightarrow> bool \<times> 'h"
  ck_update :: "'h \<Rightarrow> string \<Rightarrow> string \<Rightarrow> bool \<times> 'h"
  ck_contains :: "'h \<Rightarrow> string \<Rightarrow> bool"
  ck_size :: "'h \<Rightarrow> nat"

text \<open>The methods of \<open>CuckooKVStore\<close>: each passes its arguments to the hash table.\<close>

definition CuckooKVStore_insert :: "'h cuckoo \<Rightarrow> 'h \<Rightarrow> string \<Rightarrow> string \<Rightarrow> bool \<times> 'h" where
  "CuckooKVStore_insert ck hashtable k v = ck_insert ck hashtable k v"

text \<open>\<open>find\<close> writes through its output pointer only when the key is there.\<close>

definition CuckooKVStore_find :: "'h cuckoo \<Rightarrow> 'h \<Rightarrow> string \<Rightarrow> string \<Rightarrow> bool \<times> string" where
  "CuckooKVStore_find ck hashtable k out_value =
     (case ck_find ck hashtable k of Some v \<Rightarrow> (True, v) | None \<Rightarrow> (False, out_value))"

definition CuckooKVStore_erase :: "'h cuckoo \<Rightarrow> 'h \<Rightarrow> string \<Rightarrow> bool \<times> 'h" where
  "CuckooKVStore_erase ck hashtable k = ck_erase ck hashtable k"

definition CuckooKVStore_contains :: "'h cuckoo \<Rightarrow> 'h \<Rightarrow> string \<Rightarrow> bool" where
  "CuckooKVStore_contains ck hashtable k = ck_contains ck hashtable k"

definition CuckooKVStore_update :: "'h cuckoo \<Rightarrow> 'h \<Rightarrow> string \<Rightarrow> string \<Rightarrow> bool \<times> 'h" where
  "CuckooKVStore_update ck hashtable k v = ck_update ck hashtable k v"

definition CuckooKVStore_size :: "'h cuckoo \<Rightarrow> 'h \<Rightarrow> nat" where
  "CuckooKVStore_size ck hashtable = ck_size ck hashtable"

lemmas CuckooKVStore_defs =
  CuckooKVStore_insert_def CuckooKVStore_find_def CuckooKVStore_erase_def
  CuckooKVStore_contains_def CuckooKVStore_update_def CuckooKVStore_size_def

text \<open>What a client of the abstract class \<open>KVStore\<close> relies on: a finite map from keys to values.
  \<open>insert\<close> does not replace, \<open>update\<close> does not add.\<close>

locale kv_store =
  fixes ins :: "'h \<Rightarrow> string \<Rightarrow> string \<Rightarrow> bool \<times> 'h"
    and fnd :: "'h \<Rightarrow> string \<Rightarrow> string \<Rightarrow> bool \<times> string"
    and ers :: "'h \<Rightarrow> string \<Rightarrow> bool \<times> 'h"
    and upd :: "'h \<Rightarrow> string \<Rightarrow> string \<Rightarrow> bool \<times> 'h"
    and cnt :: "'h \<Rightarrow> string \<Rightarrow> bool"
    and siz :: "'h \<Rightarrow> nat"
    and contents :: "'h \<Rightarrow> string \<Rightarrow> string option"
    and valid :: "'h \<Rightarrow> bool"
  assumes ins_law: "valid h \<Longrightarrow>
      fst (ins h k v) = (contents h k = None) \<and>
      contents (snd (ins h k v)) = (if contents h k = None then (contents h)(k \<mapsto> v) else contents h) \<and>
      valid (snd (ins h k v))"
    and fnd_law: "valid h \<Longrightarrow>
      fnd h k out = (case contents h k of Some v \<Rightarrow> (True, v) | None \<Rightarrow> (False, out))"
    and ers_law: "valid h \<Longrightarrow>
      fst (ers h k) = (contents h k \<noteq> None) \<and> contents (snd (ers h k)) = (contents h)(k := None) \<and>
      valid (snd (ers h k))"
    and upd_law: "valid h \<Longrightarrow>
      fst (upd h k v) = (contents h k \<noteq> None) \<and>
      contents (snd (upd h k v)) = (if contents h k = None then contents h else (contents h)(k \<mapsto> v)) \<and>
      valid (snd (upd h k v))"
    and cnt_law: "valid h \<Longrightarrow> cnt h k = (contents h k \<noteq> None)"
    and siz_law: "valid h \<Longrightarrow> finite (dom (contents h)) \<and> siz h = card (dom (contents h))"
begin

lemma find_after_insert:
  "valid h \<Longrightarrow> contents h k = None \<Longrightarrow> fnd (snd (ins h k v)) k out = (True, v)"
  using ins_law [of h k v] by (simp add: fnd_law)

lemma find_after_erase: "valid h \<Longrightarrow> fnd (snd (ers h k)) k out = (False, out)"
  using ers_law [of h k] by (simp add: fnd_law)

lemma find_other_key:
  "valid h \<Longrightarrow> k \<noteq> k' \<Longrightarrow> fnd (snd (upd h k v)) k' out = fnd h k' out"
  using upd_law [of h k v] by (auto simp: fnd_law)

lemma size_after_insert:
  "valid h \<Longrightarrow> siz (snd (ins h k v)) = siz h + (if fst (ins h k v) then 1 else 0)"
  using ins_law [of h k v] siz_law [of h] siz_law [of "snd (ins h k v)"]
  by (auto simp: domIff)

end

text \<open>The promises of \<open>cuckoohash_map\<close>'s documentation, in the shape of its own operations.\<close>

locale cuckoohash_map =
  fixes ck :: "'h cuckoo"
    and contents :: "'h \<Rightarrow> string \<Rightarrow> string option"
    and valid :: "'h \<Rightarrow> bool"
  assumes new_doc: "valid (ck_new ck) \<and> contents (ck_new ck) = Map.empty"
    and insert_doc: "valid h \<Longrightarrow> ck_insert ck h k v = (b, h') \<Longrightarrow>
      valid h' \<and> b = (contents h k = None) \<and>
      contents h' = (if contents h k = None then (contents h)(k \<mapsto> v) else contents h)"
    and find_doc: "valid h \<Longrightarrow> ck_find ck h k = contents h k"
    and erase_doc: "valid h \<Longrightarrow> ck_erase ck h k = (b, h') \<Longrightarrow>
      valid h' \<and> b = (contents h k \<noteq> None) \<and> contents h' = (contents h)(k := None)"
    and update_doc: "valid h \<Longrightarrow> ck_update ck h k v = (b, h') \<Longrightarrow>
      valid h' \<and> b = (contents h k \<noteq> None) \<and>
      contents h' = (if contents h k = None then contents h else (contents h)(k \<mapsto> v))"
    and contains_doc: "valid h \<Longrightarrow> ck_contains ck h k = (contents h k \<noteq> None)"
    and size_doc: "valid h \<Longrightarrow> finite (dom (contents h)) \<and> ck_size ck h = card (dom (contents h))"

text \<open>\<open>CuckooKVStore\<close> implements \<open>KVStore\<close> whenever the hash table keeps its promises.\<close>

sublocale cuckoohash_map \<subseteq> kv: kv_store
    "CuckooKVStore_insert ck" "CuckooKVStore_find ck" "CuckooKVStore_erase ck"
    "CuckooKVStore_update ck" "CuckooKVStore_contains ck" "CuckooKVStore_size ck" contents valid
proof unfold_locales
  fix h k v out
  assume h: "valid h"
  show "fst (CuckooKVStore_insert ck h k v) = (contents h k = None) \<and>
      contents (snd (CuckooKVStore_insert ck h k v)) =
        (if contents h k = None then (contents h)(k \<mapsto> v) else contents h) \<and>
      valid (snd (CuckooKVStore_insert ck h k v))"
    using insert_doc [OF h, of k v] by (cases "ck_insert ck h k v") (simp add: CuckooKVStore_defs)
  show "CuckooKVStore_find ck h k out =
      (case contents h k of None \<Rightarrow> (False, out) | Some v \<Rightarrow> (True, v))"
    by (simp add: CuckooKVStore_defs find_doc [OF h])
  show "fst (CuckooKVStore_erase ck h k) = (contents h k \<noteq> None) \<and>
      contents (snd (CuckooKVStore_erase ck h k)) = (contents h)(k := None) \<and>
      valid (snd (CuckooKVStore_erase ck h k))"
    using erase_doc [OF h, of k] by (cases "ck_erase ck h k") (simp add: CuckooKVStore_defs)
  show "fst (CuckooKVStore_update ck h k v) = (contents h k \<noteq> None) \<and>
      contents (snd (CuckooKVStore_update ck h k v)) =
        (if contents h k = None then contents h else (contents h)(k \<mapsto> v)) \<and>
      valid (snd (CuckooKVStore_update ck h k v))"
    using update_doc [OF h, of k v] by (cases "ck_update ck h k v") (simp add: CuckooKVStore_defs)
  show "CuckooKVStore_contains ck h k = (contents h k \<noteq> None)"
    by (simp add: CuckooKVStore_defs contains_doc [OF h])
  show "finite (dom (contents h)) \<and> CuckooKVStore_size ck h = card (dom (contents h))"
    by (simp add: CuckooKVStore_defs size_doc [OF h])
qed

text \<open>A map that keeps the promises: an association list without duplicate keys.\<close>

definition alist_cuckoo :: "(string \<times> string) list cuckoo" where
  "alist_cuckoo =
     \<lparr>ck_new = [],
      ck_insert = (\<lambda>l k v. if map_of l k = None then (True, (k, v) # l) else (False, l)),
      ck_find = map_of,
      ck_erase = (\<lambda>l k. (map_of l k \<noteq> None, AList.delete k l)),
      ck_update = (\<lambda>l k v. if map_of l k = None then (False, l) else (True, AList.update k v l)),
      ck_contains = (\<lambda>l k. map_of l k \<noteq> None),
      ck_size = length\<rparr>"

definition alist_distinct :: "(string \<times> string) list \<Rightarrow> bool" where
  "alist_distinct l \<longleftrightarrow> distinct (map fst l)"

interpretation ref: cuckoohash_map alist_cuckoo map_of alist_distinct
proof unfold_locales
  fix h :: "(string \<times> string) list"
  assume "alist_distinct h"
  then show "finite (dom (map_of h)) \<and> ck_size alist_cuckoo h = card (dom (map_of h))"
    by (simp add: alist_cuckoo_def alist_distinct_def finite_dom_map_of dom_map_of_conv_image_fst
        card_image distinct_map distinct_card [symmetric])
qed (auto simp: alist_cuckoo_def alist_distinct_def map_of_eq_None_iff AList.update_conv'
      AList.delete_conv' AList.distinct_update AList.distinct_delete
      split: if_splits)

section \<open>The packet handler (kvstorelib.cpp)\<close>

text \<open>The global \<open>ptr_KVStore\<close>: \<open>NULL\<close>, a live store, or a store that was deleted
  (\<open>kvstore_destroy\<close> does not reset the pointer).\<close>

datatype 'h store_ptr = Null | Live 'h | Dangling

fun kvstore_create :: "'h cuckoo \<Rightarrow> 'h store_ptr \<Rightarrow> int \<times> 'h store_ptr" where
  "kvstore_create ck Null = (0, Live (ck_new ck))"
| "kvstore_create ck p = (0, p)"

fun kvstore_destroy :: "'h store_ptr \<Rightarrow> (int \<times> 'h store_ptr) outcome" where
  "kvstore_destroy Null = Done (0, Null)"
| "kvstore_destroy (Live h) = Done (0, Dangling)"
| "kvstore_destroy Dangling = Fault Use_after_free"

text \<open>The virtual call of one operation on a live store: the result, the store and the message
  afterwards.\<close>

fun kv_dispatch ::
  "'h cuckoo \<Rightarrow> 'h \<Rightarrow> Operation \<Rightarrow> send_message \<Rightarrow> bool \<times> 'h \<times> send_message" where
  "kv_dispatch ck h GET m =
     (let (r, v) = CuckooKVStore_find ck h (key m) (msg_value m) in (r, h, m\<lparr>msg_value := v\<rparr>))"
| "kv_dispatch ck h PUT m =
     (let (r, h') = CuckooKVStore_insert ck h (key m) (msg_value m) in (r, h', m))"
| "kv_dispatch ck h DELETE m =
     (let (r, h') = CuckooKVStore_erase ck h (key m) in (r, h', m))"
| "kv_dispatch ck h UPDATE m =
     (let (r, h') = CuckooKVStore_update ck h (key m) (msg_value m) in (r, h', m))"

text \<open>\<open>kvstore_process_packet\<close> works in place: its reply is written over the request.\<close>

definition kvstore_process_packet ::
  "'h cuckoo \<Rightarrow> 'h store_ptr \<Rightarrow> string \<Rightarrow> (int \<times> 'h store_ptr \<times> string) outcome" where
  "kvstore_process_packet ck p pkt_buf =
     (if length pkt_buf < MESSAGE_SIZE then Fault Out_of_bounds
      else let send = decode_send pkt_buf in
        case operation_of (operation send) of
          None \<Rightarrow> Fault (Exit 1)
        | Some op \<Rightarrow>
           (case p of
              Null \<Rightarrow> Fault Null_deref
            | Dangling \<Rightarrow> Fault Use_after_free
            | Live h \<Rightarrow>
                (let (result, h', send') = kv_dispatch ck h op send;
                     reply = send'\<lparr>operation := status_byte (if result then OK else ERROR)\<rparr>
                 in Done (if result then 1 else 0, Live h',
                          encode_send reply @ drop MESSAGE_SIZE pkt_buf))))"

text \<open>A connection's requests, one packet after the other.\<close>

fun process_packets ::
  "'h cuckoo \<Rightarrow> 'h store_ptr \<Rightarrow> string list \<Rightarrow> ('h store_ptr \<times> string list) outcome" where
  "process_packets ck p [] = Done (p, [])"
| "process_packets ck p (b # bs) =
     (case kvstore_process_packet ck p b of
        Inl f \<Rightarrow> Inl f
      | Inr (_, p', r) \<Rightarrow>
          (case process_packets ck p' bs of
             Inl f \<Rightarrow> Inl f
           | Inr (p'', rs) \<Rightarrow> Inr (p'', r # rs)))"

section \<open>What the handler promises: a finite map\<close>

fun kv_spec ::
  "(string \<rightharpoonup> string) \<Rightarrow> Operation \<Rightarrow> string \<Rightarrow> string \<Rightarrow> bool \<times> (string \<rightharpoonup> string) \<times> string" where
  "kv_spec m GET k v = (case m k of Some w \<Rightarrow> (True, m, w) | None \<Rightarrow> (False, m, v))"
| "kv_spec m PUT k v = (if m k = None then (True, m(k \<mapsto> v), v) else (False, m, v))"
| "kv_spec m DELETE k v = (m k \<noteq> None, m(k := None), v)"
| "kv_spec m UPDATE k v = (if m k = None then (False, m, v) else (True, m(k \<mapsto> v), v))"

definition spec_reply :: "bool \<Rightarrow> string \<Rightarrow> send_message \<Rightarrow> send_message" where
  "spec_reply ok v m = m\<lparr>msg_value := v, operation := status_byte (if ok then OK else ERROR)\<rparr>"

definition valid_request :: "send_message \<Rightarrow> bool" where
  "valid_request q \<longleftrightarrow> wf_send q \<and> operation_of (operation q) \<noteq> None"

fun spec_run :: "(string \<rightharpoonup> string) \<Rightarrow> send_message list \<Rightarrow>
    (string \<rightharpoonup> string) \<times> send_message list" where
  "spec_run m [] = (m, [])"
| "spec_run m (q # qs) =
     (let (ok, m', v) = kv_spec m (the (operation_of (operation q))) (key q) (msg_value q);
          (m'', rs) = spec_run m' qs
      in (m'', spec_reply ok v q # rs))"

lemma spec_run_append:
  "spec_run m (xs @ ys) =
     (let (m1, r1) = spec_run m xs; (m2, r2) = spec_run m1 ys in (m2, r1 @ r2))"
  by (induction xs arbitrary: m) (auto split: prod.splits)

text \<open>The bytes of several messages.\<close>

abbreviation wire :: "send_message list \<Rightarrow> string" where
  "wire qs \<equiv> concat (map encode_send qs)"

text \<open>Values stay 32 bytes wide, so that a reply fills its 50-byte frame.\<close>

definition wide_values :: "(string \<rightharpoonup> string) \<Rightarrow> bool" where
  "wide_values m \<longleftrightarrow> (\<forall>v \<in> ran m. length v = 32)"

lemma wide_values_lookup: "wide_values m \<Longrightarrow> m k = Some v \<Longrightarrow> length v = 32"
  by (auto simp: wide_values_def ran_def)

lemma wide_values_spec [keeps]:
  "wide_values m \<Longrightarrow> length v = 32 \<Longrightarrow> wide_values (fst (snd (kv_spec m op k v)))"
  by (cases op) (auto simp: wide_values_def ran_def split: option.splits)

lemma length_spec_value:
  "wide_values m \<Longrightarrow> length v = 32 \<Longrightarrow> length (snd (snd (kv_spec m op k v))) = 32"
  by (cases op) (auto dest: wide_values_lookup split: option.splits)

context cuckoohash_map
begin

lemma dispatch_refines:
  assumes "valid h" and "kv_dispatch ck h op m = (r, h', m')"
  shows "valid h' \<and> (r, contents h', msg_value m') = kv_spec (contents h) op (key m) (msg_value m) \<and>
    m' = m\<lparr>msg_value := msg_value m'\<rparr>"
proof (cases op)
  case GET
  with assms kv.fnd_law [OF assms(1), of "key m" "msg_value m"] show ?thesis
    by (auto split: option.splits)
next
  case PUT
  with assms kv.ins_law [OF assms(1), of "key m" "msg_value m"] show ?thesis
    by (auto split: prod.splits)
next
  case DELETE
  with assms kv.ers_law [OF assms(1), of "key m"] show ?thesis
    by (auto split: prod.splits)
next
  case UPDATE
  with assms kv.upd_law [OF assms(1), of "key m" "msg_value m"] show ?thesis
    by (auto split: prod.splits)
qed

lemma packet_refines:
  assumes h: "valid h" and m: "wf_send m" and op: "operation_of (operation m) = Some op"
    and spec: "kv_spec (contents h) op (key m) (msg_value m) = (ok, m', v)"
  shows "\<exists>h'. kvstore_process_packet ck (Live h) (encode_send m) =
      Done (if ok then 1 else 0, Live h', encode_send (spec_reply ok v m)) \<and>
    valid h' \<and> contents h' = m'"
proof -
  obtain r h' q where d: "kv_dispatch ck h op m = (r, h', q)"
    by (cases "kv_dispatch ck h op m") auto
  from dispatch_refines [OF h d] spec
  have r: "valid h'" "r = ok" "contents h' = m'" "q = m\<lparr>msg_value := v\<rparr>" by auto
  have dec: "decode_send (encode_send m) = m"
    using decode_encode_send [OF m, of "[]"] by simp
  have "kvstore_process_packet ck (Live h) (encode_send m) =
      Done (if ok then 1 else 0, Live h', encode_send (spec_reply ok v m))"
    using m by (simp add: kvstore_process_packet_def Let_def dec op d r spec_reply_def)
  with r show ?thesis by blast
qed

lemma packets_refine:
  assumes "valid h" and "\<forall>q \<in> set qs. valid_request q"
  shows "\<exists>h'. process_packets ck (Live h) (map encode_send qs) =
      Done (Live h', map encode_send (snd (spec_run (contents h) qs))) \<and>
    valid h' \<and> contents h' = fst (spec_run (contents h) qs)"
  using assms
proof (induction qs arbitrary: h)
  case Nil
  then show ?case by auto
next
  case (Cons q qs)
  from Cons.prems obtain op where q: "wf_send q" "operation_of (operation q) = Some op"
    by (auto simp: valid_request_def)
  obtain ok m' v where spec: "kv_spec (contents h) op (key q) (msg_value q) = (ok, m', v)"
    by (cases "kv_spec (contents h) op (key q) (msg_value q)") auto
  from packet_refines [OF Cons.prems(1) q spec] obtain h1 where
    p: "kvstore_process_packet ck (Live h) (encode_send q) =
          Done (if ok then 1 else 0, Live h1, encode_send (spec_reply ok v q))"
    and h1: "valid h1" "contents h1 = m'" by blast
  from Cons.IH [OF h1(1)] Cons.prems(2) show ?case
    by (auto simp: p q spec h1(2) split: prod.splits)
qed

end

section \<open>Properties\<close>

text \<open>C7. For every hash table that keeps libcuckoo's documented promises, a run of well-formed
  requests through \<open>kvstore_process_packet\<close> behaves as a finite map: every reply frame is the
  request with the status byte of the abstract operation and, for a GET that hits, the stored
  value; a PUT never replaces, an UPDATE never adds; and the store ends as the abstract map.\<close>

theorem packets_implement_map:
  assumes "cuckoohash_map ck contents valid" and "valid h" and "\<forall>q \<in> set qs. valid_request q"
  shows "\<exists>h'. process_packets ck (Live h) (map encode_send qs) =
      Done (Live h', map encode_send (snd (spec_run (contents h) qs))) \<and>
    valid h' \<and> contents h' = fst (spec_run (contents h) qs)"
  by (rule cuckoohash_map.packets_refine [OF assms])

theorem packets_implement_map_witness:
  "\<exists>h'. process_packets alist_cuckoo (Live [])
       (map encode_send
         [\<lparr>operation = CHR 0x01, keepalive = CHR 0x01, key = replicate 16 CHR ''k'',
           msg_value = replicate 32 CHR ''v''\<rparr>,
          \<lparr>operation = CHR 0x00, keepalive = CHR 0x01, key = replicate 16 CHR ''k'',
           msg_value = replicate 32 CHR 0x00\<rparr>]) =
     Done (Live h', map encode_send
         [\<lparr>operation = CHR 0x00, keepalive = CHR 0x01, key = replicate 16 CHR ''k'',
           msg_value = replicate 32 CHR ''v''\<rparr>,
          \<lparr>operation = CHR 0x00, keepalive = CHR 0x01, key = replicate 16 CHR ''k'',
           msg_value = replicate 32 CHR ''v''\<rparr>]) \<and>
   map_of h' = [replicate 16 CHR ''k'' \<mapsto> replicate 32 CHR ''v'']"
  using packets_implement_map [OF ref.cuckoohash_map_axioms, of "[]"
    "[\<lparr>operation = CHR 0x01, keepalive = CHR 0x01, key = replicate 16 CHR ''k'',
       msg_value = replicate 32 CHR ''v''\<rparr>,
      \<lparr>operation = CHR 0x00, keepalive = CHR 0x01, key = replicate 16 CHR ''k'',
       msg_value = replicate 32 CHR 0x00\<rparr>]"]
  by (auto simp: valid_request_def wf_send_def operation_of_def schar_def code_of_def
      spec_reply_def alist_distinct_def)

text \<open>C8. A packet whose operation byte (read as a signed \<open>char\<close>) is not one of the four codes
  ends the whole server process, whatever the store pointer is, and no other packet does.\<close>

theorem bad_opcode_exits:
  assumes "MESSAGE_SIZE \<le> length pkt_buf"
  shows "kvstore_process_packet ck p pkt_buf = Fault (Exit 1) \<longleftrightarrow>
    schar (pkt_buf ! 0) < 0 \<or> 3 < schar (pkt_buf ! 0)"
  using assms
  by (auto simp: kvstore_process_packet_def Let_def decode_send_def operation_of_def
      split: store_ptr.splits prod.splits)

theorem bad_opcode_exits_witness:
  "kvstore_process_packet alist_cuckoo (Live []) (replicate 50 CHR ''A'') = Fault (Exit 1)"
  using bad_opcode_exits [of "replicate 50 CHR ''A''" alist_cuckoo "Live []"]
  by (simp add: schar_def code_of_def)

text \<open>The store's life cycle: \<open>kvstore_create\<close> makes an empty store once and leaves a live one
  alone, but \<open>kvstore_destroy\<close> leaves the global pointer dangling, so that a later
  \<open>kvstore_create\<close> does not make a new store: every valid request then uses freed memory and a
  second \<open>kvstore_destroy\<close> frees twice.\<close>

theorem create_after_destroy_dangles:
  assumes "kvstore_destroy (snd (kvstore_create ck Null)) = Done (r, p)"
    and "MESSAGE_SIZE \<le> length b" and "operation_of (b ! 0) = Some op"
  shows "kvstore_create ck p = (0, p) \<and> kvstore_destroy p = Fault Use_after_free \<and>
    kvstore_process_packet ck (snd (kvstore_create ck p)) b = Fault Use_after_free"
  using assms by (auto simp: kvstore_process_packet_def Let_def decode_send_def)

theorem create_after_destroy_dangles_witness:
  "kvstore_process_packet alist_cuckoo (snd (kvstore_create alist_cuckoo Dangling))
     (replicate 50 CHR 0x00) = Fault Use_after_free"
  using create_after_destroy_dangles [of alist_cuckoo 0 Dangling "replicate 50 CHR 0x00" GET]
  by (simp add: operation_of_def schar_def code_of_def)

end
