(* ===== verification/CStrings.thy ===== *)
theory CStrings
  imports Prelude
begin

text \<open>
  \<open>server-5204/util/strings.h\<close>: trimming, case conversion, escaping, number parsing with its
  \<open>errno\<close> protocol, substrings, bit counting and byte swapping. A \<open>char *\<close> argument is the
  contents of its array, read up to the first NUL (\<open>c_str\<close>); \<open>errno\<close> is passed explicitly.
\<close>

section \<open>Trimming and case\<close>

definition ltrim :: "string \<Rightarrow> string" where
  "ltrim str = dropWhile isspace (c_str str)"

definition is_empty_str :: "string \<Rightarrow> bool" where
  "is_empty_str str \<longleftrightarrow> ltrim str = []"

text \<open>The loop of \<open>rtrim\<close> walks back from the last character; \<open>n\<close> is how many are kept.\<close>

fun rtrim_end :: "string \<Rightarrow> nat \<Rightarrow> nat" where
  "rtrim_end s 0 = 0"
| "rtrim_end s (Suc n) = (if isspace (s ! n) then rtrim_end s n else Suc n)"

definition rtrim :: "string \<Rightarrow> string" where
  "rtrim str = take (rtrim_end (c_str str) (length (c_str str))) (c_str str)"

definition trim :: "string \<Rightarrow> string" where
  "trim str = rtrim (ltrim str)"

definition tolower :: "char \<Rightarrow> char" where
  "tolower c = (if 65 \<le> code_of c \<and> code_of c \<le> 90 then char_of (code_of c + 32) else c)"

definition toupper :: "char \<Rightarrow> char" where
  "toupper c = (if 97 \<le> code_of c \<and> code_of c \<le> 122 then char_of (code_of c - 32) else c)"

definition strtolower :: "string \<Rightarrow> string" where
  "strtolower str = map tolower str"

definition strtoupper :: "string \<Rightarrow> string" where
  "strtoupper str = map toupper str"

text \<open>\<open>real_dirname\<close>; \<open>cwd\<close> is the answer of \<open>getcwd\<close>.\<close>

definition real_dirname :: "string option \<Rightarrow> string \<Rightarrow> string" where
  "real_dirname cwd filepath =
     (let dir = (if filepath = [] \<or> hd filepath \<noteq> CHR ''/''
                 then (case cwd of None \<Rightarrow> [] | Some p \<Rightarrow> p) @ ''/'' else [])
      in if CHR ''/'' \<in> set filepath
         then dir @ rev (tl (dropWhile (\<lambda>c. c \<noteq> CHR ''/'') (rev filepath)))
         else dir)"

lemma rtrim_end_le: "rtrim_end s n \<le> n"
  by (induction n) auto

lemma rtrim_end_stop: "0 < rtrim_end s n \<Longrightarrow> \<not> isspace (s ! (rtrim_end s n - 1))"
  by (induction n) auto

lemma rtrim_end_spaces: "rtrim_end s n \<le> k \<Longrightarrow> k < n \<Longrightarrow> isspace (s ! k)"
  by (induction n) (auto split: if_splits simp: less_Suc_eq)

lemma c_str_c_str [simp]: "c_str (c_str s) = c_str s"
  by (simp add: c_str_def)

lemma set_c_str: "CHR 0x00 \<notin> set (c_str s)"
  by (auto simp: c_str_def dest: set_takeWhileD)

lemma c_str_dropWhile [simp]: "c_str (dropWhile P (c_str s)) = dropWhile P (c_str s)"
  using set_c_str [of s] by (intro c_str_id) (auto dest: set_dropWhileD)

section \<open>Escaping\<close>

definition hex_digit :: "nat \<Rightarrow> char" where
  "hex_digit n = ''0123456789abcdef'' ! n"

definition escape_char :: "char \<Rightarrow> string" where
  "escape_char c =
     (if c = CHR 0x0D then [CHR 0x5C, CHR ''r'']
      else if c = CHR 0x0A then [CHR 0x5C, CHR ''n'']
      else if c = CHR 0x09 then [CHR 0x5C, CHR ''t'']
      else if c = CHR 0x5C then [CHR 0x5C, CHR 0x5C]
      else if c = CHR '' '' then [c]
      else if schar c \<ge> 33 \<and> schar c \<le> 126 then [c]
      else [CHR 0x5C, CHR ''x'', hex_digit (code_of c div 16), hex_digit (code_of c mod 16)])"

fun str_escape :: "string \<Rightarrow> string" where
  "str_escape [] = []"
| "str_escape (c # s) = escape_char c @ str_escape s"

definition hex_int :: "char \<Rightarrow> int" where
  "hex_int c = (if is_digit c then schar c - 48 else schar c - 97 + 10)"

text \<open>What one escape letter stands for (the \<open>switch\<close> on \<open>c2\<close>, but for \<open>'x'\<close>).\<close>

definition unescape_letter :: "char \<Rightarrow> char" where
  "unescape_letter c2 =
     (if c2 = CHR ''a'' then CHR 0x07
      else if c2 = CHR ''b'' then CHR 0x08
      else if c2 = CHR ''f'' then CHR 0x0C
      else if c2 = CHR ''v'' then CHR 0x0B
      else if c2 = CHR ''r'' then CHR 0x0D
      else if c2 = CHR ''n'' then CHR 0x0A
      else if c2 = CHR ''t'' then CHR 0x09
      else c2)"

text \<open>A backslash at the end is dropped; \<open>\x\<close> with fewer than two characters after it is dropped
  and what follows is read as it is.\<close>

function str_unescape :: "string \<Rightarrow> string" where
  "str_unescape [] = []"
| "str_unescape (c # s) =
     (if c \<noteq> CHR 0x5C then c # str_unescape s
      else (case s of
              [] \<Rightarrow> []
            | c2 # s2 \<Rightarrow>
                if c2 = CHR ''x'' then
                  (case s2 of
                     c3 # c4 # s4 \<Rightarrow> byte_of (hex_int c3 * 16 + hex_int c4) # str_unescape s4
                   | _ \<Rightarrow> str_unescape s2)
                else unescape_letter c2 # str_unescape s2))"
  by pat_completeness auto
termination by (relation "measure length") auto

lemma hex_int_hex_digit [codec, simp]: "n < 16 \<Longrightarrow> hex_int (hex_digit n) = int n"
proof -
  assume "n < 16"
  then have "n \<in> {0..<16}" by simp
  moreover have "\<forall>n \<in> {0..<16}. hex_int (hex_digit n) = int n"
    by (simp add: hex_int_def hex_digit_def schar_def is_digit_def code_of_def
        atLeastLessThan_nat_numeral)
  ultimately show ?thesis by blast
qed

lemma code_of_div16 [simp]: "code_of c div 16 < 16"
proof -
  have "code_of c < 16 * 16" using code_of_less [of c] by simp
  then show ?thesis by (simp add: less_mult_imp_div_less)
qed

lemma byte_of_hex [simp]: "byte_of (int (code_of c div 16) * 16 + int (code_of c mod 16)) = c"
proof -
  have "int (code_of c div 16) * 16 + int (code_of c mod 16) = int (code_of c)"
    by (metis of_nat_add of_nat_mult of_nat_numeral div_mult_mod_eq)
  then show ?thesis by (simp add: byte_of_def)
qed

lemma unescape_escape_char: "str_unescape (escape_char c @ s) = c # str_unescape s"
  by (auto simp: escape_char_def unescape_letter_def)

lemma unescape_escape [codec, simp]: "str_unescape (str_escape s) = s"
  by (induction s) (simp_all add: unescape_escape_char)

text \<open>Everything the escaper writes is a printable ASCII character.\<close>

definition printable :: "char \<Rightarrow> bool" where
  "printable c \<longleftrightarrow> 32 \<le> code_of c \<and> code_of c \<le> 126"

lemma printable_hex_digit: "n < 16 \<Longrightarrow> printable (hex_digit n)"
proof -
  assume "n < 16"
  moreover have "\<forall>n \<in> {0..<16}. printable (hex_digit n)"
    by (simp add: hex_digit_def printable_def code_of_def atLeastLessThan_nat_numeral)
  ultimately show ?thesis by simp
qed

lemma printable_escape_char: "\<forall>d \<in> set (escape_char c). printable d"
proof -
  have "printable c" if c: "schar c \<ge> 33" "schar c \<le> 126"
  proof (cases "code_of c < 128")
    case True
    then have "schar c = int (code_of c)" by (simp add: schar_def)
    with c show ?thesis by (simp add: printable_def)
  next
    case False
    have "code_of c < 256" by simp
    with False have "schar c < 0" by (simp add: schar_def)
    with c show ?thesis by simp
  qed
  moreover have "\<forall>d \<in> set [CHR 0x5C, CHR ''r'', CHR ''n'', CHR ''t'', CHR ''x'', CHR '' '']. printable d"
    by (simp add: printable_def code_of_def)
  ultimately show ?thesis
    by (simp add: escape_char_def printable_hex_digit)
qed

lemma printable_escape: "\<forall>d \<in> set (str_escape s). printable d"
  by (induction s) (auto dest: printable_escape_char [rule_format])

lemma newline_notin_escape: "CHR 0x0A \<notin> set (str_escape s)"
  using printable_escape [of s] by (auto simp: printable_def code_of_def)

text \<open>Debugging output: the escaped bytes between angle brackets, printed with \<open>%s\<close>. An escaped text
  holds no NUL, so that nothing of it is lost.\<close>

definition hexmem :: "string \<Rightarrow> string" where
  "hexmem p = str_escape p"

definition dump :: "string \<Rightarrow> string option \<Rightarrow> string" where
  "dump p msg =
     (case msg of None \<Rightarrow> ''dump <'' | Some m \<Rightarrow> c_str m @ '' <'') @ c_str (hexmem p) @ ''>'' @ [CHR 0x0A]"

lemma dump_complete: "dump p None = ''dump <'' @ str_escape p @ ''>'' @ [CHR 0x0A]"
proof -
  have "CHR 0x00 \<notin> set (str_escape p)"
    using printable_escape [of p] by (auto simp: printable_def code_of_def)
  then have "c_str (str_escape p) = str_escape p"
    by (auto simp: c_str_def takeWhile_eq_all_conv)
  then show ?thesis by (simp add: dump_def hexmem_def)
qed

section \<open>Numbers\<close>

abbreviation EINVAL :: int where "EINVAL \<equiv> 22"
abbreviation ERANGE :: int where "ERANGE \<equiv> 34"

definition str_int :: "int \<Rightarrow> string" where
  "str_int v = show_int v"

text \<open>The common end of the three parsers: did \<open>strtoxx\<close> read the whole string?\<close>

definition settle_errno :: "string \<Rightarrow> nat \<Rightarrow> int \<Rightarrow> int" where
  "settle_errno str used errno =
     (if used = length str then 0 else if errno = 0 then EINVAL else errno)"

definition str_to_int64 :: "string \<Rightarrow> int \<Rightarrow> int \<times> int" where
  "str_to_int64 str errno =
     (let (v, used) = scan_int (c_str str);
          errno1 = (if clamp64 v = v then errno else ERANGE)
      in (clamp64 v, settle_errno str used errno1))"

text \<open>\<open>(int)strtol(...)\<close> keeps the low 32 bits.\<close>

definition str_to_int :: "string \<Rightarrow> int \<Rightarrow> int \<times> int" where
  "str_to_int str errno =
     (let (v, used) = scan_int (c_str str);
          errno1 = (if clamp64 v = v then errno else ERANGE)
      in (wrap32 (clamp64 v), settle_errno str used errno1))"

text \<open>\<open>strtoull\<close> negates modulo \<open>2^64\<close>.\<close>

definition str_to_uint64 :: "string \<Rightarrow> int \<Rightarrow> int \<times> int" where
  "str_to_uint64 str errno =
     (let (v, used) = scan_int (c_str str);
          fits = (\<bar>v\<bar> \<le> 18446744073709551615);
          errno1 = (if fits then errno else ERANGE)
      in (if fits then v mod 18446744073709551616 else 18446744073709551615,
          settle_errno str used errno1))"

section \<open>Substrings\<close>

text \<open>\<open>std::string::substr\<close> clips the count at the end of the string.\<close>

definition substr :: "string \<Rightarrow> int \<Rightarrow> int \<Rightarrow> string" where
  "substr str start0 size0 =
     (let len = int (length str);
          start = (if start0 < 0 then len + start0 else start0);
          size = (if size0 < 0 then (len + size0) - start else size0)
      in if start < 0 \<or> start \<ge> len \<or> size < 0 then []
         else take (nat size) (drop (nat start) str))"

definition str_slice :: "string \<Rightarrow> int \<Rightarrow> int \<Rightarrow> string" where
  "str_slice str start0 end0 =
     (let len = int (length str);
          start = (if start0 < 0 then len + start0 else start0);
          size = (if end0 < 0 then (len + end0 + 1) - start else end0 - start + 1)
      in if start < 0 \<or> start \<ge> len \<or> size < 0 then []
         else take (nat size) (drop (nat start) str))"

section \<open>Bits and bytes\<close>

fun bits_in :: "nat \<Rightarrow> nat" where
  "bits_in c = (if c = 0 then 0 else c mod 2 + bits_in (c div 2))"

declare bits_in.simps [simp del]

definition bitcount :: "string \<Rightarrow> nat" where
  "bitcount p = sum_list (map (\<lambda>c. bits_in (code_of c)) p)"

unbundle bit_operations_syntax

definition big_endian16 :: "16 word \<Rightarrow> 16 word" where
  "big_endian16 v = drop_bit 8 v OR push_bit 8 v"

definition big_endian32 :: "32 word \<Rightarrow> 32 word" where
  "big_endian32 v =
     drop_bit 24 v OR (drop_bit 8 v AND 0xff00) OR (push_bit 8 v AND 0xff0000) OR push_bit 24 v"

definition big_endian64 :: "64 word \<Rightarrow> 64 word" where
  "big_endian64 v =
     (let h = ucast (drop_bit 32 v) :: 32 word;
          l = ucast (v AND 0xffffffff) :: 32 word
      in ucast (big_endian32 h) OR push_bit 32 (ucast (big_endian32 l)))"

lemma finite_bits: "finite {k. bit (n :: nat) k}"
proof (rule finite_subset)
  show "{k. bit n k} \<subseteq> {..< n}"
  proof
    fix k
    assume "k \<in> {k. bit n k}"
    then have "2 ^ k \<le> n" by (auto simp: bit_iff_odd intro: ccontr)
    then show "k \<in> {..< n}" using less_exp [of k] order.strict_trans2 by (metis lessThan_iff)
  qed
qed simp

lemma bits_in_card: "bits_in n = card {k. bit n k}"
proof (induction n rule: bits_in.induct)
  case (1 n)
  show ?case
  proof (cases "n = 0")
    case True
    then show ?thesis by (simp add: bits_in.simps)
  next
    case False
    have split: "{k. bit n k} = (if odd n then {0} else {}) \<union> Suc ` {k. bit (n div 2) k}"
      by (auto simp: bit_0 bit_Suc image_iff) (metis bit_0 bit_Suc not0_implies_Suc)+
    have fin: "finite {k. bit (n div 2) k}"
      by (rule finite_bits)
    have "card {k. bit n k} = n mod 2 + card {k. bit (n div 2) k}"
      unfolding split using fin
      by (subst card_Un_disjoint) (auto simp: card_image odd_iff_mod_2_eq_one even_iff_mod_2_eq_zero)
    with 1 False show ?thesis by (subst bits_in.simps) simp
  qed
qed

section \<open>Big-endian swaps as byte reversal\<close>

definition byte_of_word :: "nat \<Rightarrow> 'a::len word \<Rightarrow> 'a word" where
  "byte_of_word k v = drop_bit (8 * k) v AND 255"

lemma bit_255: "bit (255 :: 'a::len word) n \<longleftrightarrow> n < 8 \<and> n < LENGTH('a)"
  using bit_mask_iff [where 'a = "'a word", of 8 n]
  by (auto simp: mask_eq_exp_minus_1 bit_simps)

lemma bit_ff00: "bit (0xff00 :: 32 word) n \<longleftrightarrow> 8 \<le> n \<and> n < 16"
proof -
  have e: "(0xff00 :: 32 word) = push_bit 8 255" by (simp add: push_bit_eq_mult)
  show ?thesis unfolding e bit_push_bit_iff bit_255 by auto
qed

lemma bit_ff0000: "bit (0xff0000 :: 32 word) n \<longleftrightarrow> 16 \<le> n \<and> n < 24"
proof -
  have e: "(0xff0000 :: 32 word) = push_bit 16 255" by (simp add: push_bit_eq_mult)
  show ?thesis unfolding e bit_push_bit_iff bit_255 by auto
qed

lemma bit_ffffffff: "bit (0xffffffff :: 64 word) n \<longleftrightarrow> n < 32"
  using bit_mask_iff [where 'a = "64 word", of 32 n]
  by (auto simp: mask_eq_exp_minus_1)

lemma bit_beyond: "LENGTH('a) \<le> n \<Longrightarrow> \<not> bit (v :: 'a::len word) n"
  using bit_imp_le_length [of v n] by auto

text \<open>Bit \<open>n\<close> of the swapped word comes from the mirrored byte.\<close>

definition mirror :: "nat \<Rightarrow> nat \<Rightarrow> nat" where
  "mirror bytes n = 8 * (bytes - 1 - n div 8) + n mod 8"

lemma bit_big_endian16:
  assumes "n < 16"
  shows "bit (big_endian16 v) n \<longleftrightarrow> bit v (mirror 2 n)"
proof -
  have e: "bit (big_endian16 v) n \<longleftrightarrow> bit v (8 + n) \<or> 8 \<le> n \<and> bit v (n - 8)"
    using assms by (auto simp: big_endian16_def bit_or_iff bit_drop_bit_eq bit_push_bit_iff)
  consider "n < 8" | "8 \<le> n" "n < 16" using assms by linarith
  then show ?thesis
  proof cases
    case 1
    then show ?thesis unfolding e mirror_def by simp
  next
    case 2
    then have "n div 8 = 1" "n mod 8 = n - 8" by (auto simp: mod_if)
    with 2 show ?thesis unfolding e mirror_def by (simp add: bit_beyond)
  qed
qed

lemma bit_big_endian32:
  assumes "n < 32"
  shows "bit (big_endian32 v) n \<longleftrightarrow> bit v (mirror 4 n)"
proof -
  have e: "bit (big_endian32 v) n \<longleftrightarrow>
      bit v (24 + n) \<or> bit v (8 + n) \<and> 8 \<le> n \<and> n < 16 \<or>
      bit v (n - 8) \<and> 16 \<le> n \<and> n < 24 \<or> 24 \<le> n \<and> bit v (n - 24)"
    unfolding big_endian32_def bit_or_iff bit_and_iff bit_drop_bit_eq bit_push_bit_iff
      bit_ff00 bit_ff0000 comp_def
    using assms by auto
  consider "n < 8" | "8 \<le> n" "n < 16" | "16 \<le> n" "n < 24" | "24 \<le> n" "n < 32"
    using assms by linarith
  then show ?thesis
  proof cases
    case 1
    then show ?thesis unfolding e mirror_def by simp
  next
    case 2
    then have "n div 8 = 1" "n mod 8 = n - 8" by (auto simp: mod_if)
    with 2 show ?thesis unfolding e mirror_def by (simp add: bit_beyond)
  next
    case 3
    then have "n div 8 = 2" "n mod 8 = n - 16" by (auto simp: mod_if)
    with 3 show ?thesis unfolding e mirror_def by (simp add: bit_beyond)
  next
    case 4
    then have "n div 8 = 3" "n mod 8 = n - 24" by (auto simp: mod_if)
    with 4 show ?thesis unfolding e mirror_def by (simp add: bit_beyond)
  qed
qed

lemma bit_big_endian64:
  assumes "n < 64"
  shows "bit (big_endian64 v) n \<longleftrightarrow> bit v (mirror 8 n)"
proof (cases "n < 32")
  case True
  have q: "n div 8 \<le> 3" "n mod 8 < 8" using True by auto
  have "mirror 8 n = 32 + mirror 4 n" "mirror 4 n < 32"
    using q unfolding mirror_def by linarith+
  with True show ?thesis
    by (simp add: big_endian64_def Let_def bit_or_iff bit_ucast_iff bit_push_bit_iff
        bit_big_endian32 bit_drop_bit_eq)
next
  case False
  then obtain m where m: "n = 32 + m" using le_Suc_ex by (metis not_less)
  have q: "m div 8 \<le> 3" "m mod 8 < 8" using assms m by auto
  have "(32 + m) div 8 = 4 + m div 8" "(32 + m) mod 8 = m mod 8" by presburger+
  then have "mirror 8 n = mirror 4 (n - 32)" "mirror 4 (n - 32) < 32"
    using q m unfolding mirror_def by simp_all
  moreover have "bit (ucast (v AND 0xffffffff) :: 32 word) (mirror 4 (n - 32)) \<longleftrightarrow>
      bit v (mirror 4 (n - 32))"
    unfolding bit_ucast_iff bit_and_iff bit_ffffffff using calculation(2) by simp
  ultimately show ?thesis
    using False assms m
    by (simp add: big_endian64_def Let_def bit_or_iff bit_ucast_iff bit_push_bit_iff
        bit_big_endian32 bit_beyond)
qed

lemma mirror_mirror: "n < 8 * bytes \<Longrightarrow> mirror bytes (mirror bytes n) = n \<and> mirror bytes n < 8 * bytes"
proof -
  assume n: "n < 8 * bytes"
  then have d: "n div 8 < bytes" by (simp add: less_mult_imp_div_less mult.commute)
  have "mirror bytes n div 8 = bytes - 1 - n div 8" "mirror bytes n mod 8 = n mod 8"
    by (simp_all add: mirror_def)
  moreover have "bytes - 1 - (bytes - 1 - n div 8) = n div 8" using d by simp
  ultimately have "mirror bytes (mirror bytes n) = n"
    unfolding mirror_def [of bytes "mirror bytes n"] by simp
  moreover have "mirror bytes n < 8 * bytes"
    using d unfolding mirror_def by (auto intro: order.strict_trans2 [of _ "8 * (bytes - 1 - n div 8) + 8"])
  ultimately show ?thesis by blast
qed

lemma big_endian_involution:
  "big_endian16 (big_endian16 a) = a" "big_endian32 (big_endian32 b) = b"
  "big_endian64 (big_endian64 c) = c"
  using mirror_mirror [of _ 2] mirror_mirror [of _ 4] mirror_mirror [of _ 8]
  by (auto intro!: bit_word_eqI simp: bit_big_endian16 bit_big_endian32 bit_big_endian64)

lemma rtrim_split: "c_str s = rtrim s @ drop (rtrim_end (c_str s) (length (c_str s))) (c_str s)"
  by (simp add: rtrim_def)

lemma rtrim_spaces:
  "\<forall>c \<in> set (drop (rtrim_end s (length s)) s). isspace c"
proof
  fix c
  assume "c \<in> set (drop (rtrim_end s (length s)) s)"
  then obtain i where i: "i < length s - rtrim_end s (length s)"
    "c = s ! (rtrim_end s (length s) + i)" by (auto simp: in_set_conv_nth)
  then have "rtrim_end s (length s) + i < length s" by simp
  then show "isspace c" unfolding i(2) by (intro rtrim_end_spaces) auto
qed

lemma rtrim_last: "rtrim s \<noteq> [] \<Longrightarrow> \<not> isspace (last (rtrim s))"
  using rtrim_end_le [of "c_str s" "length (c_str s)"] rtrim_end_stop [of "c_str s" "length (c_str s)"]
  by (auto simp: rtrim_def last_conv_nth min_def)

lemma ltrim_first: "ltrim s \<noteq> [] \<Longrightarrow> \<not> isspace (hd (ltrim s))"
  by (simp add: ltrim_def hd_dropWhile)

lemma c_str_ltrim [simp]: "c_str (ltrim s) = ltrim s"
  by (simp add: ltrim_def)

lemma settle_whole [simp]: "settle_errno s (length s) e = 0"
  by (simp add: settle_errno_def)

section \<open>Properties\<close>

text \<open>C10. Escaping a byte string and unescaping it gives the string back, for all 256 byte values,
  and the escaped form holds printable ASCII only (so no newline, which the line format needs).\<close>

theorem escape_round_trip:
  "str_unescape (str_escape s) = s \<and> (\<forall>d \<in> set (str_escape s). printable d)"
  using printable_escape by simp

theorem escape_round_trip_witness:
  "str_unescape (str_escape [CHR 0x0A, CHR 0xFF]) = [CHR 0x0A, CHR 0xFF] \<and>
   printable (CHR 0x5C)"
proof -
  have "CHR 0x5C \<in> set (str_escape [CHR 0x0A, CHR 0xFF])" by (simp add: escape_char_def)
  then show ?thesis using escape_round_trip [of "[CHR 0x0A, CHR 0xFF]"] by blast
qed

text \<open>\<open>trim\<close> removes exactly the white space at both ends of the C string.\<close>

theorem trim_strips_both_ends:
  "\<exists>pre post. c_str s = pre @ trim s @ post \<and> (\<forall>c \<in> set pre \<union> set post. isspace c) \<and>
     (trim s \<noteq> [] \<longrightarrow> \<not> isspace (hd (trim s)) \<and> \<not> isspace (last (trim s)))"
proof -
  let ?post = "drop (rtrim_end (ltrim s) (length (ltrim s))) (ltrim s)"
  have l: "c_str s = takeWhile isspace (c_str s) @ ltrim s"
    by (simp add: ltrim_def)
  have r: "ltrim s = trim s @ ?post"
    using rtrim_split [of "ltrim s"] by (simp add: trim_def)
  have "trim s \<noteq> [] \<Longrightarrow> hd (trim s) = hd (ltrim s) \<and> ltrim s \<noteq> []"
    by (subst r, subst (2) r) auto
  then have ends: "trim s \<noteq> [] \<longrightarrow> \<not> isspace (hd (trim s)) \<and> \<not> isspace (last (trim s))"
    using ltrim_first [of s] rtrim_last [of "ltrim s"] by (auto simp: trim_def)
  have "\<forall>c \<in> set (takeWhile isspace (c_str s)) \<union> set ?post. isspace c"
    using rtrim_spaces [of "ltrim s"] by (auto dest: set_takeWhileD)
  moreover have "c_str s = takeWhile isspace (c_str s) @ trim s @ ?post"
    using l r by simp
  ultimately show ?thesis using ends by blast
qed

theorem trim_strips_both_ends_witness:
  "trim '' a b '' = ''a b'' \<and> \<not> isspace (hd (trim '' a b ''))"
proof -
  have t: "trim '' a b '' = ''a b''" by code_simp
  then show ?thesis using trim_strips_both_ends [of "'' a b ''"] by auto
qed

text \<open>\<open>str_to_int64\<close> reads back every integer that \<open>str\<close> prints, and clears \<open>errno\<close>; but it
  clears \<open>errno\<close> as well for integers that do not fit (the value is then clamped) and for the empty
  string (value 0), although the comment in the code says that errors set it.\<close>

theorem str_to_int64_reads_back:
  "str_to_int64 (str_int v) errno = (clamp64 v, 0) \<and>
   (- 9223372036854775808 \<le> v \<and> v \<le> 9223372036854775807 \<longrightarrow>
      str_to_int64 (str_int v) errno = (v, 0)) \<and>
   str_to_int64 [] errno = (0, 0)"
  by (simp add: str_to_int64_def str_int_def scan_show_int)
    (simp add: settle_errno_def scan_int_def c_str_def)

theorem str_to_int64_reads_back_witness:
  "str_to_int64 (str_int 9223372036854775808) 5 = (9223372036854775807, 0)"
  using str_to_int64_reads_back [of 9223372036854775808 5] by (simp add: clamp64_def)

text \<open>\<open>bitcount\<close> is the number of one bits of the byte string.\<close>

theorem bitcount_counts_ones:
  "bitcount p = sum_list (map (\<lambda>c. card {k. bit (code_of c) k}) p)"
  by (simp add: bitcount_def bits_in_card)

text \<open>The three \<open>big_endian\<close> swaps reverse the order of the bytes (bit \<open>n\<close> of the result is the
  bit at the same place of the mirrored byte) and undo themselves.\<close>

theorem big_endian_reverses_bytes:
  "(\<forall>n < 16. bit (big_endian16 a) n = bit a (mirror 2 n)) \<and>
   (\<forall>n < 32. bit (big_endian32 b) n = bit b (mirror 4 n)) \<and>
   (\<forall>n < 64. bit (big_endian64 c) n = bit c (mirror 8 n)) \<and>
   big_endian16 (big_endian16 a) = a \<and> big_endian32 (big_endian32 b) = b \<and>
   big_endian64 (big_endian64 c) = c"
  by (simp add: bit_big_endian16 bit_big_endian32 bit_big_endian64 big_endian_involution)

theorem big_endian_reverses_bytes_witness: "big_endian32 0x01020304 = 0x04030201"
  using big_endian_reverses_bytes [of 0 "0x01020304" 0]
  by (simp add: big_endian32_def)

end
