(* ===== verification/ByteBuffer.thy ===== *)
theory ByteBuffer
  imports CStrings
begin

text \<open>
  \<open>server-5204/util/bytes.h\<close> and \<open>bytes.cpp\<close>: the byte-range comparison of \<open>Bytes\<close>, the growing
  byte queue \<open>Buffer\<close> and the cursor \<open>Decoder\<close>.

  A \<open>Buffer\<close> is a heap block \<open>buf\<close> of \<open>total_size\<close> bytes; \<open>data_off\<close> is kept as its offset in the block.
  The heap is the record \<open>heap\<close>: whether a request for \<open>n\<close> bytes succeeds, and the indeterminate
  bytes of a new block. (The fields \<open>owner\<close> and \<open>peer\<close> are set to \<open>NULL\<close> and never read.)
\<close>

section \<open>Bytes\<close>

text \<open>The sign of \<open>memcmp(a, b, n)\<close>.\<close>

fun memcmp :: "string \<Rightarrow> string \<Rightarrow> nat \<Rightarrow> int" where
  "memcmp (a # as) (b # bs) (Suc n) =
     (if code_of a < code_of b then -1 else if code_of b < code_of a then 1 else memcmp as bs n)"
| "memcmp _ _ _ = 0"

definition Bytes_compare :: "string \<Rightarrow> string \<Rightarrow> int" where
  "Bytes_compare a b =
     (let min_len = (if length a < length b then length a else length b);
          r = memcmp a b min_len
      in if r = 0 then
           (if length a < length b then -1 else if length a > length b then 1 else r)
         else r)"

definition Bytes_eq :: "string \<Rightarrow> string \<Rightarrow> bool" where
  "Bytes_eq x y \<longleftrightarrow> length x = length y \<and> memcmp x y (length x) = 0"

lemma code_of_less_iff [simp]: "code_of a < code_of b \<longleftrightarrow> a < b"
  by (simp add: code_of_def less_char_def)

lemma Bytes_compare_Cons:
  "Bytes_compare (a # as) (b # bs) =
     (if a < b then -1 else if b < a then 1 else Bytes_compare as bs)"
  by (simp add: Bytes_compare_def Let_def)

lemma Bytes_compare_Nil: "Bytes_compare [] b = (if b = [] then 0 else -1)"
  "Bytes_compare a [] = (if a = [] then 0 else 1)"
  by (simp_all add: Bytes_compare_def)

lemma Bytes_compare_sign:
  "(Bytes_compare a b < 0 \<longleftrightarrow> a < b) \<and> (Bytes_compare a b = 0 \<longleftrightarrow> a = b) \<and>
   (0 < Bytes_compare a b \<longleftrightarrow> b < a)"
proof (induction a arbitrary: b)
  case Nil
  then show ?case by (cases b) (simp_all add: Bytes_compare_Nil)
next
  case (Cons x xs)
  show ?case
  proof (cases b)
    case Nil
    then show ?thesis by (simp add: Bytes_compare_Nil)
  next
    case (Cons y ys)
    with Cons.IH [of ys] show ?thesis
      by (cases x y rule: linorder_cases) (auto simp: Bytes_compare_Cons)
  qed
qed

lemma Bytes_eq_iff: "Bytes_eq x y \<longleftrightarrow> x = y"
  using Bytes_compare_sign [of x y] by (auto simp: Bytes_eq_def Bytes_compare_def Let_def split: if_splits)

text \<open>The other relational operators.\<close>

definition Bytes_ne :: "string \<Rightarrow> string \<Rightarrow> bool" where
  "Bytes_ne x y \<longleftrightarrow> \<not> Bytes_eq x y"

definition Bytes_gt :: "string \<Rightarrow> string \<Rightarrow> bool" where
  "Bytes_gt x y \<longleftrightarrow> 0 < Bytes_compare x y"

definition Bytes_ge :: "string \<Rightarrow> string \<Rightarrow> bool" where
  "Bytes_ge x y \<longleftrightarrow> 0 \<le> Bytes_compare x y"

definition Bytes_lt :: "string \<Rightarrow> string \<Rightarrow> bool" where
  "Bytes_lt x y \<longleftrightarrow> Bytes_compare x y < 0"

definition Bytes_le :: "string \<Rightarrow> string \<Rightarrow> bool" where
  "Bytes_le x y \<longleftrightarrow> Bytes_compare x y \<le> 0"

text \<open>The conversions, over the bytes, with \<open>errno\<close>.\<close>

definition Bytes_Int :: "string \<Rightarrow> int \<Rightarrow> int \<times> int" where
  "Bytes_Int x errno = str_to_int x errno"

definition Bytes_Int64 :: "string \<Rightarrow> int \<Rightarrow> int \<times> int" where
  "Bytes_Int64 x errno = str_to_int64 x errno"

definition Bytes_Uint64 :: "string \<Rightarrow> int \<Rightarrow> int \<times> int" where
  "Bytes_Uint64 x errno = str_to_uint64 x errno"

text \<open>The operators are those of the lexicographic order, so a \<open>std::map\<close> can use them.\<close>

lemma Bytes_operators:
  "Bytes_ne x y \<longleftrightarrow> x \<noteq> y" "Bytes_gt x y \<longleftrightarrow> y < x" "Bytes_ge x y \<longleftrightarrow> y \<le> x"
  "Bytes_lt x y \<longleftrightarrow> x < y" "Bytes_le x y \<longleftrightarrow> x \<le> y"
  using Bytes_compare_sign [of x y] Bytes_eq_iff [of x y]
  by (auto simp: Bytes_ne_def Bytes_gt_def Bytes_ge_def Bytes_lt_def Bytes_le_def)

section \<open>Buffer\<close>

record heap =
  can_alloc :: "int \<Rightarrow> bool"
  junk :: "nat \<Rightarrow> char"

definition fresh :: "heap \<Rightarrow> nat \<Rightarrow> string" where
  "fresh H n = map (junk H) [0..<n]"

record Buffer =
  buf :: string
  data_off :: int
  data_size :: int
  total_size :: int
  origin_total :: int

text \<open>\<open>Buffer(int total)\<close>; the result of \<open>malloc\<close> is not checked by the code and taken to succeed.\<close>

definition Buffer_new :: "heap \<Rightarrow> int \<Rightarrow> Buffer" where
  "Buffer_new H n =
     \<lparr>buf = fresh H (nat n), data_off = 0, data_size = 0, total_size = n, origin_total = n\<rparr>"

definition Buffer_wrap :: "string \<Rightarrow> Buffer" where
  "Buffer_wrap ptr =
     \<lparr>buf = ptr, data_off = 0, data_size = int (length ptr), total_size = int (length ptr),
      origin_total = int (length ptr)\<rparr>"

definition slot :: "Buffer \<Rightarrow> int" where
  "slot b = data_off b + data_size b"

definition space :: "Buffer \<Rightarrow> int" where
  "space b = total_size b - data_off b - data_size b"

definition empty :: "Buffer \<Rightarrow> bool" where
  "empty b \<longleftrightarrow> data_size b = 0"

definition incr :: "int \<Rightarrow> Buffer \<Rightarrow> Buffer" where
  "incr num b = b\<lparr>data_size := data_size b + num\<rparr>"

definition decr :: "int \<Rightarrow> Buffer \<Rightarrow> Buffer" where
  "decr num b = b\<lparr>data_size := data_size b - num, data_off := data_off b + num\<rparr>"

text \<open>The queued bytes.\<close>

definition queued :: "Buffer \<Rightarrow> string" where
  "queued b = span (nat (data_off b)) (nat (data_size b)) (buf b)"

definition wf_buffer :: "Buffer \<Rightarrow> bool" where
  "wf_buffer b \<longleftrightarrow> 0 \<le> data_off b \<and> 0 \<le> data_size b \<and> data_off b + data_size b \<le> total_size b \<and>
     int (length (buf b)) = total_size b \<and> total_size b \<le> INT_MAX"

text \<open>\<open>memcpy\<close> needs both ranges inside the block and disjoint.\<close>

definition nice :: "Buffer \<Rightarrow> Buffer outcome" where
  "nice b =
     (if data_off b > total_size b div 2 then
        (if data_size b < 0 \<or> data_off b + data_size b > int (length (buf b)) then Fault Out_of_bounds
         else if data_off b < data_size b then Fault Overlapping_copy
         else Done (b\<lparr>buf := overwrite 0 (queued b) (buf b), data_off := 0\<rparr>))
      else Done b)"

definition grow_size :: "int \<Rightarrow> int" where
  "grow_size n =
     (if n < 8 * 1024 then 8 * 1024
      else if n < 512 * 1024 then 8 * n
      else 2 * n)"

text \<open>\<open>realloc\<close> keeps the old bytes and adds indeterminate ones. \<open>2 * total_size\<close> overflows an
  \<open>int\<close> for blocks of a gigabyte or more.\<close>

definition grow :: "heap \<Rightarrow> Buffer \<Rightarrow> (int \<times> Buffer) outcome" where
  "grow H b =
     (let n = grow_size (total_size b) in
      if n > INT_MAX then Fault Int_overflow
      else if \<not> can_alloc H n then Done (-1, b)
      else Done (n, b\<lparr>buf := buf b @ fresh H (nat n - length (buf b)), total_size := n\<rparr>))"

lemma grow_size_greater: "0 \<le> n \<Longrightarrow> n < grow_size n"
  by (simp add: grow_size_def)

lemma grow_size_ge: "8192 \<le> grow_size n"
  by (simp add: grow_size_def)

text \<open>The loop \<open>while(need > space()) if(grow() == -1) return -1;\<close> of the append operations.\<close>

function grow_until :: "heap \<Rightarrow> int \<Rightarrow> Buffer \<Rightarrow> (bool \<times> Buffer) outcome" where
  "grow_until H need b =
     (if need > space b then
        (case grow H b of
           Inl f \<Rightarrow> Inl f
         | Inr (r, b') \<Rightarrow> if r = -1 then Done (False, b') else grow_until H need b')
      else Done (True, b))"
  by pat_completeness auto
termination
proof (relation "measure (\<lambda>(H, need, b). nat (INT_MAX - total_size b))", simp, goal_cases)
  case (1 H need b rb r b')
  then show ?case
    using grow_size_ge [of "total_size b"]
    by (auto simp: grow_def Let_def grow_size_def split: if_splits)
qed

declare grow_until.simps [simp del]

text \<open>Bytes stored at \<open>slot()\<close>; a store past the block is a fault.\<close>

definition write_slot :: "string \<Rightarrow> Buffer \<Rightarrow> Buffer outcome" where
  "write_slot bs b =
     (if slot b < 0 \<or> slot b + int (length bs) > int (length (buf b)) then Fault Out_of_bounds
      else Done (b\<lparr>buf := overwrite (nat (slot b)) bs (buf b),
                   data_size := data_size b + int (length bs)\<rparr>))"

definition append_bytes :: "heap \<Rightarrow> string \<Rightarrow> Buffer \<Rightarrow> (int \<times> Buffer) outcome" where
  "append_bytes H bs b =
     (case grow_until H (int (length bs)) b of
        Inl f \<Rightarrow> Inl f
      | Inr (False, b') \<Rightarrow> Done (-1, b')
      | Inr (True, b') \<Rightarrow>
          (case write_slot bs b' of Inl f \<Rightarrow> Inl f | Inr b'' \<Rightarrow> Done (int (length bs), b'')))"

definition append_char :: "heap \<Rightarrow> char \<Rightarrow> Buffer \<Rightarrow> (int \<times> Buffer) outcome" where
  "append_char H c b =
     (case grow_until H 1 b of
        Inl f \<Rightarrow> Inl f
      | Inr (False, b') \<Rightarrow> Done (-1, b')
      | Inr (True, b') \<Rightarrow> (case write_slot [c] b' of Inl f \<Rightarrow> Inl f | Inr b'' \<Rightarrow> Done (1, b'')))"

definition append_cstr :: "heap \<Rightarrow> string \<Rightarrow> Buffer \<Rightarrow> (int \<times> Buffer) outcome" where
  "append_cstr H p b = append_bytes H (c_str p) b"

abbreviation NL :: char where "NL \<equiv> CHR 0x0A"
abbreviation CR :: char where "CR \<equiv> CHR 0x0D"

text \<open>A record on the wire: the decimal length, a newline, the bytes, a newline.\<close>

definition record_bytes :: "string \<Rightarrow> string" where
  "record_bytes s = show_int (int (length s)) @ [NL] @ s @ [NL]"

definition append_record :: "heap \<Rightarrow> string \<Rightarrow> Buffer \<Rightarrow> (int \<times> Buffer) outcome" where
  "append_record H s b =
     (if 16 + int (length s) + 1 > INT_MAX then Fault Int_overflow
      else
        (case grow_until H (16 + int (length s) + 1) b of
           Inl f \<Rightarrow> Inl f
         | Inr (False, b') \<Rightarrow> Done (-1, b')
         | Inr (True, b') \<Rightarrow>
             (let len = show_int (int (length s)) @ [NL] in
              case write_slot (len @ s @ [NL]) b' of
                Inl f \<Rightarrow> Inl f
              | Inr b'' \<Rightarrow> Done (int (length len) + int (length s) + 1, b''))))"

text \<open>\<open>memchr(s, c, n)\<close> as an offset.\<close>

definition memchr :: "char \<Rightarrow> string \<Rightarrow> nat option" where
  "memchr c s = (let i = length (takeWhile (\<lambda>x. x \<noteq> c) s) in if i < length s then Some i else None)"

text \<open>A \<open>Bytes\<close> made by a parser points into the buffer's block: offset and size.\<close>

datatype Bytes = Bytes (by_off: int) (by_len: int)

definition bytes_in :: "Buffer \<Rightarrow> Bytes \<Rightarrow> string" where
  "bytes_in b s = span (nat (by_off s)) (nat (by_len s)) (buf b)"

text \<open>One byte of the block at an offset from \<open>data_off\<close>.\<close>

definition byte_at :: "Buffer \<Rightarrow> int \<Rightarrow> char outcome" where
  "byte_at b i =
     (if 0 \<le> data_off b + i \<and> data_off b + i < int (length (buf b))
      then Done (buf b ! nat (data_off b + i)) else Fault Out_of_bounds)"

text \<open>\<open>read_record\<close>: the return value, the \<open>Bytes\<close> stored through the pointer when there is one,
  and the buffer. The sum \<open>head_len + body_len + 1\<close> is computed in \<open>int\<close>.\<close>

definition read_record :: "Buffer \<Rightarrow> (int \<times> Bytes option \<times> Buffer) outcome" where
  "read_record b =
     (case memchr NL (queued b) of
        None \<Rightarrow> Done (0, None, b)
      | Some i \<Rightarrow>
          (let head_len = int i + 1; head_str = take i (queued b) in
           if \<not> is_digit (queued b ! 0) then Done (-1, None, b)
           else if head_len + 1 > 20 then Done (-1, None, b)
           else
             (let body_len = atoi head_str; body = data_off b + head_len in
              if body_len < 0 then Done (-1, None, b)
              else if head_len + body_len + 1 > INT_MAX then Fault Int_overflow
              else if data_size b \<ge> head_len + body_len + 1 then
                (case byte_at b (head_len + body_len) of
                   Inl f \<Rightarrow> Inl f
                 | Inr p0 \<Rightarrow>
                     if p0 = NL then
                       Done (1, Some (Bytes body body_len),
                             b\<lparr>data_size := data_size b - (head_len + body_len + 1)\<rparr>)
                     else if p0 = CR then
                       (if data_size b \<ge> head_len + body_len + 2 then
                          (case byte_at b (head_len + body_len + 1) of
                             Inl f \<Rightarrow> Inl f
                           | Inr p1 \<Rightarrow>
                               if p1 = NL then
                                 Done (1, Some (Bytes body body_len),
                                       b\<lparr>data_size := data_size b - (head_len + body_len + 2)\<rparr>)
                               else Done (-1, None, b))
                        else Done (0, None, b))
                     else Done (-1, None, b))
              else Done (0, None, b))))"

section \<open>The invariant and the behaviour of every operation\<close>

lemma length_fresh [simp]: "length (fresh H n) = n"
  by (simp add: fresh_def)

lemma wf_Buffer_new [keeps]: "0 \<le> n \<Longrightarrow> n \<le> INT_MAX \<Longrightarrow> wf_buffer (Buffer_new H n)"
  by (simp add: wf_buffer_def Buffer_new_def)

lemma queued_Buffer_new [simp]: "queued (Buffer_new H n) = []"
  by (simp add: queued_def Buffer_new_def)

lemma wf_Buffer_wrap [keeps]: "int (length p) \<le> INT_MAX \<Longrightarrow> wf_buffer (Buffer_wrap p)"
  by (simp add: wf_buffer_def Buffer_wrap_def)

lemma queued_Buffer_wrap [simp]: "queued (Buffer_wrap p) = p"
  by (simp add: queued_def Buffer_wrap_def span_def)

lemma wf_in_block:
  "wf_buffer b \<Longrightarrow> nat (data_off b) + nat (data_size b) \<le> length (buf b)"
  unfolding wf_buffer_def by linarith

lemma length_queued_nat: "wf_buffer b \<Longrightarrow> length (queued b) = nat (data_size b)"
  by (simp add: queued_def wf_in_block)

lemma length_queued: "wf_buffer b \<Longrightarrow> int (length (queued b)) = data_size b"
  by (simp add: length_queued_nat wf_buffer_def)

lemma wf_decr [keeps]: "wf_buffer b \<Longrightarrow> 0 \<le> n \<Longrightarrow> n \<le> data_size b \<Longrightarrow> wf_buffer (decr n b)"
  by (auto simp: wf_buffer_def decr_def)

lemma queued_decr:
  "wf_buffer b \<Longrightarrow> 0 \<le> n \<Longrightarrow> n \<le> data_size b \<Longrightarrow> queued (decr n b) = drop (nat n) (queued b)"
  by (simp add: queued_def decr_def span_def drop_take nat_diff_distrib nat_add_distrib
      wf_buffer_def add.commute [of "nat n"])

lemma nice_ok:
  assumes "wf_buffer b"
  obtains b' where "nice b = Done b'" "wf_buffer b'" "queued b' = queued b" "data_size b' = data_size b"
    "total_size b' = total_size b" "data_off b' \<le> data_off b"
proof (cases "data_off b > total_size b div 2")
  case True
  with assms have le: "data_size b \<le> data_off b" by (auto simp: wf_buffer_def)
  note len = length_queued_nat [OF assms]
  have fits: "0 + length (queued b) \<le> length (buf b)"
    using wf_in_block [OF assms] by (simp add: len)
  let ?b = "b\<lparr>buf := overwrite 0 (queued b) (buf b), data_off := 0\<rparr>"
  have "nice b = Done ?b"
    using True assms le by (auto simp: nice_def wf_buffer_def)
  moreover have "queued ?b = queued b"
    using span_overwrite_same [OF fits] by (simp add: queued_def [of ?b] len)
  moreover have "wf_buffer ?b"
    using assms fits by (auto simp: wf_buffer_def)
  ultimately show ?thesis using that [of ?b] assms by (simp add: wf_buffer_def)
next
  case False
  then have "nice b = Done b" by (simp add: nice_def)
  with assms show ?thesis by (intro that [of b]) auto
qed

lemma grow_ok:
  assumes "wf_buffer b" and "total_size b < 1073741824"
  obtains r b' where "grow H b = Done (r, b')" "wf_buffer b'" "queued b' = queued b"
    "data_off b' = data_off b" "data_size b' = data_size b"
    "r = -1 \<and> b' = b \<and> \<not> can_alloc H (grow_size (total_size b)) \<or> r = total_size b' \<and> total_size b < r"
proof -
  have n: "grow_size (total_size b) \<le> INT_MAX" "total_size b < grow_size (total_size b)" "0 \<le> total_size b"
    using assms by (auto simp: grow_size_def wf_buffer_def)
  show ?thesis
  proof (cases "can_alloc H (grow_size (total_size b))")
    case True
    let ?n = "grow_size (total_size b)"
    let ?b = "b\<lparr>buf := buf b @ fresh H (nat ?n - length (buf b)), total_size := ?n\<rparr>"
    have "grow H b = Done (?n, ?b)" using True n by (simp add: grow_def Let_def)
    moreover have "wf_buffer ?b" using assms n by (auto simp: wf_buffer_def)
    moreover have "queued ?b = queued b"
      using assms by (auto simp: queued_def wf_buffer_def intro!: span_grow)
    ultimately show ?thesis using that [of ?n ?b] n by simp
  next
    case False
    then show ?thesis using that [of "-1" b] n assms by (simp add: grow_def)
  qed
qed

lemma grow_until_ok:
  assumes "wf_buffer b" and "slot b + need \<le> 1073741824"
  shows "\<exists>ok b'. grow_until H need b = Done (ok, b') \<and> wf_buffer b' \<and> queued b' = queued b \<and>
    data_off b' = data_off b \<and> data_size b' = data_size b \<and> (ok \<longrightarrow> need \<le> space b') \<and>
    ((\<forall>n. can_alloc H n) \<longrightarrow> ok)"
  using assms
proof (induction H need b rule: grow_until.induct)
  case (1 H need b)
  show ?case
  proof (cases "need > space b")
    case False
    with "1.prems" show ?thesis by (subst grow_until.simps) (auto intro!: exI [of _ True])
  next
    case True
    with "1.prems" have "total_size b < 1073741824" by (simp add: space_def slot_def)
    from grow_ok [OF "1.prems"(1) this, of H] obtain r b' where
      g: "grow H b = Done (r, b')" "wf_buffer b'" "queued b' = queued b"
        "data_off b' = data_off b" "data_size b' = data_size b" and
      r: "r = -1 \<and> b' = b \<and> \<not> can_alloc H (grow_size (total_size b)) \<or> r = total_size b' \<and> total_size b < r"
      by blast
    show ?thesis
    proof (cases "r = -1")
      case True
      with r g have "\<not> can_alloc H (grow_size (total_size b))"
        using "1.prems"(1) by (auto simp: wf_buffer_def)
      with True g \<open>need > space b\<close> show ?thesis by (subst grow_until.simps) auto
    next
      case False
      with "1.IH" [OF True g(1) _ False g(2)] "1.prems" g have
        "\<exists>ok b''. grow_until H need b' = Done (ok, b'') \<and> wf_buffer b'' \<and> queued b'' = queued b' \<and>
          data_off b'' = data_off b' \<and> data_size b'' = data_size b' \<and> (ok \<longrightarrow> need \<le> space b'') \<and>
          ((\<forall>n. can_alloc H n) \<longrightarrow> ok)"
        by (simp add: slot_def)
      with True False g show ?thesis by (subst grow_until.simps) simp
    qed
  qed
qed

lemma write_slot_ok:
  assumes "wf_buffer b" and "int (length bs) \<le> space b"
  obtains b' where "write_slot bs b = Done b'" "wf_buffer b'" "queued b' = queued b @ bs"
    "slot b' = slot b + int (length bs)"
proof -
  let ?b = "b\<lparr>buf := overwrite (nat (slot b)) bs (buf b), data_size := data_size b + int (length bs)\<rparr>"
  have s: "nat (slot b) = nat (data_off b) + nat (data_size b)"
    and fits: "nat (data_off b) + nat (data_size b) + length bs \<le> length (buf b)"
    using assms by (auto simp: slot_def space_def wf_buffer_def)
  have "write_slot bs b = Done ?b"
    using assms by (auto simp: write_slot_def slot_def space_def wf_buffer_def)
  moreover have "wf_buffer ?b"
    using assms fits by (auto simp: wf_buffer_def space_def s)
  moreover have "queued ?b = queued b @ bs"
    using assms span_overwrite_extend [OF fits]
    by (simp add: queued_def s wf_buffer_def nat_add_distrib)
  ultimately show ?thesis using that [of ?b] by (simp add: slot_def)
qed

text \<open>One append: reserve, then store.\<close>

lemma reserve_and_store:
  assumes "wf_buffer b" and "slot b + need \<le> 1073741824" and "int (length bs) \<le> need"
  shows "\<exists>ok b'. grow_until H need b = Done (ok, b') \<and>
    (\<not> ok \<longrightarrow> wf_buffer b' \<and> queued b' = queued b \<and> slot b' = slot b \<and> \<not> (\<forall>n. can_alloc H n)) \<and>
    (ok \<longrightarrow> (\<exists>b''. write_slot bs b' = Done b'' \<and> wf_buffer b'' \<and> queued b'' = queued b @ bs \<and>
      slot b'' = slot b + int (length bs)))"
proof -
  from grow_until_ok [OF assms(1,2), of H] obtain ok b' where
    g: "grow_until H need b = Done (ok, b')" "wf_buffer b'" "queued b' = queued b"
      "data_off b' = data_off b" "data_size b' = data_size b" "ok \<longrightarrow> need \<le> space b'"
      "(\<forall>n. can_alloc H n) \<longrightarrow> ok" by blast
  show ?thesis
  proof (cases ok)
    case True
    with g(6) assms(3) have "int (length bs) \<le> space b'" by simp
    from write_slot_ok [OF g(2) this] obtain b'' where "write_slot bs b' = Done b''"
      "wf_buffer b''" "queued b'' = queued b' @ bs" "slot b'' = slot b' + int (length bs)" by blast
    with True g show ?thesis by (auto simp: slot_def)
  next
    case False
    with g show ?thesis by (auto simp: slot_def)
  qed
qed

text \<open>How many bytes a buffer can still take without its size leaving \<open>int\<close>.\<close>

definition can_take :: "Buffer \<Rightarrow> nat \<Rightarrow> bool" where
  "can_take b n \<longleftrightarrow> wf_buffer b \<and> slot b + int n \<le> 1073741824"

lemma show_int_length_le11: "n < 10 ^ 10 \<Longrightarrow> length (show_int (int n)) \<le> 10"
  by (simp add: show_int_def show_nat_length_le)

lemma length_record_bytes:
  "length s < 10 ^ 10 \<Longrightarrow> length (record_bytes s) \<le> length s + 17"
  using show_int_length_le11 [of "length s"] by (simp add: record_bytes_def)

lemma append_record_ok:
  assumes "can_take b (length s + 17 + n)"
  shows "\<exists>r b'. append_record H s b = Done (r, b') \<and> can_take b' n \<and>
    (r = -1 \<and> queued b' = queued b \<and> \<not> (\<forall>n. can_alloc H n) \<or>
     r = int (length (record_bytes s)) \<and> queued b' = queued b @ record_bytes s)"
proof -
  from assms have b: "wf_buffer b" "slot b + (16 + int (length s) + 1) \<le> 1073741824"
    "0 \<le> slot b" "length s < 10 ^ 10"
    by (auto simp: can_take_def slot_def wf_buffer_def)
  from length_record_bytes [OF b(4)]
  have len: "int (length (record_bytes s)) \<le> 16 + int (length s) + 1" by simp
  from reserve_and_store [OF b(1,2) len, of H] obtain ok b' where
    g: "grow_until H (16 + int (length s) + 1) b = Done (ok, b')"
    and no: "\<not> ok \<Longrightarrow> wf_buffer b' \<and> queued b' = queued b \<and> slot b' = slot b \<and>
        \<not> (\<forall>n. can_alloc H n)"
    and yes: "ok \<Longrightarrow> \<exists>b''. write_slot (record_bytes s) b' = Done b'' \<and> wf_buffer b'' \<and>
        queued b'' = queued b @ record_bytes s \<and> slot b'' = slot b + int (length (record_bytes s))"
    by blast
  have rb: "(show_int (int (length s)) @ [NL]) @ s @ [NL] = record_bytes s"
    by (simp add: record_bytes_def)
  have over: "\<not> 16 + int (length s) + 1 > INT_MAX" using b by simp
  show ?thesis
  proof (cases ok)
    case True
    with yes obtain b'' where w: "write_slot (record_bytes s) b' = Done b''" "wf_buffer b''"
      "queued b'' = queued b @ record_bytes s" "slot b'' = slot b + int (length (record_bytes s))"
      by blast
    then have "append_record H s b = Done (int (length (record_bytes s)), b'')"
      using True g over unfolding append_record_def Let_def rb
      by (simp add: record_bytes_def)
    with w assms len show ?thesis by (auto simp: can_take_def)
  next
    case False
    with g no over assms show ?thesis by (auto simp: append_record_def can_take_def)
  qed
qed

lemma append_char_ok:
  assumes "can_take b (Suc n)"
  shows "\<exists>r b'. append_char H c b = Done (r, b') \<and> can_take b' n \<and>
    (r = -1 \<and> queued b' = queued b \<and> \<not> (\<forall>n. can_alloc H n) \<or>
     r = 1 \<and> queued b' = queued b @ [c])"
proof -
  have len: "int (length [c]) \<le> 1" by simp
  from assms have b: "wf_buffer b" "slot b + 1 \<le> 1073741824" by (auto simp: can_take_def)
  from reserve_and_store [OF b len, of H] obtain ok b' where
    g: "grow_until H 1 b = Done (ok, b')"
    and no: "\<not> ok \<Longrightarrow> wf_buffer b' \<and> queued b' = queued b \<and> slot b' = slot b \<and>
        \<not> (\<forall>n. can_alloc H n)"
    and yes: "ok \<Longrightarrow> \<exists>b''. write_slot [c] b' = Done b'' \<and> wf_buffer b'' \<and>
        queued b'' = queued b @ [c] \<and> slot b'' = slot b + int (length [c])"
    by blast
  show ?thesis
    using g no yes assms by (cases ok) (auto simp: append_char_def can_take_def)
qed

lemma append_bytes_ok:
  assumes "can_take b (length bs + n)"
  shows "\<exists>r b'. append_bytes H bs b = Done (r, b') \<and> can_take b' n \<and>
    (r = -1 \<and> queued b' = queued b \<and> \<not> (\<forall>n. can_alloc H n) \<or>
     r = int (length bs) \<and> queued b' = queued b @ bs)"
proof -
  from assms have b: "wf_buffer b" "slot b + int (length bs) \<le> 1073741824"
    by (auto simp: can_take_def)
  from reserve_and_store [OF b order.refl, of H] obtain ok b' where
    g: "grow_until H (int (length bs)) b = Done (ok, b')"
    and no: "\<not> ok \<Longrightarrow> wf_buffer b' \<and> queued b' = queued b \<and> slot b' = slot b \<and>
        \<not> (\<forall>n. can_alloc H n)"
    and yes: "ok \<Longrightarrow> \<exists>b''. write_slot bs b' = Done b'' \<and> wf_buffer b'' \<and>
        queued b'' = queued b @ bs \<and> slot b'' = slot b + int (length bs)"
    by blast
  show ?thesis
    using g no yes assms by (cases ok) (auto simp: append_bytes_def can_take_def)
qed

lemma memchr_found [simp]: "c \<notin> set h \<Longrightarrow> memchr c (h @ c # rest) = Some (length h)"
proof -
  assume "c \<notin> set h"
  then have "takeWhile (\<lambda>x. x \<noteq> c) (h @ c # rest) = h"
    by (subst takeWhile_append2) auto
  then show ?thesis by (simp add: memchr_def)
qed

lemma memchr_Some: "memchr c s = Some i \<Longrightarrow> i < length s \<and> s ! i = c \<and> c \<notin> set (take i s)"
proof -
  assume a: "memchr c s = Some i"
  then have i: "i = length (takeWhile (\<lambda>x. x \<noteq> c) s)" "i < length s"
    by (auto simp: memchr_def Let_def split: if_splits)
  moreover from i have "s ! i = c" using nth_length_takeWhile [of "\<lambda>x. x \<noteq> c" s] by simp
  moreover from i have "take i s = takeWhile (\<lambda>x. x \<noteq> c) s"
    by (metis takeWhile_eq_take)
  ultimately show ?thesis using set_takeWhileD by fastforce
qed

lemma NL_not_digit: "\<not> is_digit NL"
  by (simp add: is_digit_def code_of_def)

lemma show_int_nonneg: "0 \<le> n \<Longrightarrow> show_int n = show_nat (nat n)"
  by (simp add: show_int_def)

lemma NL_notin_show_int [simp]: "0 \<le> n \<Longrightarrow> NL \<notin> set (show_int n)"
  using show_nat_digits [of "nat n"] NL_not_digit by (auto simp: show_int_nonneg)

lemma show_int_first_digit: "0 \<le> n \<Longrightarrow> is_digit ((show_int n @ x) ! 0)"
  using show_nat_hd [of "nat n"] by (simp add: show_int_nonneg nth_append hd_conv_nth)

lemma show_int_length10: "0 \<le> n \<Longrightarrow> n \<le> INT_MAX \<Longrightarrow> length (show_int n) \<le> 10"
  using show_int_length_le11 [of "nat n"] by simp

lemma byte_at_queued:
  assumes "wf_buffer b" and "0 \<le> i" and "i < data_size b"
  shows "byte_at b i = Done (queued b ! nat i)"
proof -
  from wf_in_block [OF assms(1)] assms have "nat i < nat (data_size b)" by simp
  then show ?thesis
    using assms wf_in_block [OF assms(1)]
    by (auto simp: byte_at_def queued_def span_def wf_buffer_def nat_add_distrib)
qed

text \<open>What \<open>read_record\<close> does after a header line that declares \<open>n\<close> bytes.\<close>

lemma read_record_header:
  assumes b: "wf_buffer b" and q: "queued b = show_int n @ NL # rest"
    and n: "0 \<le> n" "n \<le> INT_MAX"
  shows "read_record b =
    (let head_len = int (length (show_int n)) + 1 in
     if head_len + n + 1 > INT_MAX then Fault Int_overflow
     else if data_size b \<ge> head_len + n + 1 then
       (case byte_at b (head_len + n) of
          Inl f \<Rightarrow> Inl f
        | Inr p0 \<Rightarrow>
            if p0 = NL then
              Done (1, Some (Bytes (data_off b + head_len) n),
                    b\<lparr>data_size := data_size b - (head_len + n + 1)\<rparr>)
            else if p0 = CR then
              (if data_size b \<ge> head_len + n + 2 then
                 (case byte_at b (head_len + n + 1) of
                    Inl f \<Rightarrow> Inl f
                  | Inr p1 \<Rightarrow>
                      if p1 = NL then
                        Done (1, Some (Bytes (data_off b + head_len) n),
                              b\<lparr>data_size := data_size b - (head_len + n + 2)\<rparr>)
                      else Done (-1, None, b))
               else Done (0, None, b))
            else Done (-1, None, b))
     else Done (0, None, b))"
proof -
  have "memchr NL (queued b) = Some (length (show_int n))" using n by (simp add: q)
  moreover have "is_digit (queued b ! 0)" using show_int_first_digit [OF n(1)] by (simp add: q)
  moreover have "take (length (show_int n)) (queued b) = show_int n" by (simp add: q)
  moreover have "\<not> int (length (show_int n)) + 1 + 1 > 20" using show_int_length10 [OF n] by simp
  ultimately show ?thesis
    using n by (simp add: read_record_def Let_def)
qed

lemma read_record_one:
  assumes b: "wf_buffer b" and q: "queued b = record_bytes s @ rest"
  shows "\<exists>x b1. read_record b = Done (1, Some x, b1) \<and> bytes_in b1 x = s \<and>
    wf_buffer b1 \<and> data_off b1 = data_off b \<and> buf b1 = buf b \<and>
    queued b1 = take (length rest) (queued b) \<and>
    x = Bytes (data_off b + int (length (show_int (int (length s)))) + 1) (int (length s))"
proof -
  let ?n = "int (length s)" and ?d = "show_int (int (length s))"
  have q': "queued b = ?d @ NL # (s @ NL # rest)" using q by (simp add: record_bytes_def)
  have sz: "data_size b = int (length ?d) + 1 + ?n + 1 + int (length rest)"
    using length_queued [OF b] by (simp add: q')
  have n: "0 \<le> ?n" "?n \<le> INT_MAX" using sz b by (auto simp: wf_buffer_def)
  have "byte_at b (int (length ?d) + 1 + ?n) = Done NL"
    using byte_at_queued [OF b, of "int (length ?d) + 1 + ?n"] sz
    by (simp add: q' nth_append nat_add_distrib)
  moreover have "\<not> int (length ?d) + 1 + ?n + 1 > INT_MAX"
    using sz b by (auto simp: wf_buffer_def)
  ultimately have r: "read_record b =
      Done (1, Some (Bytes (data_off b + (int (length ?d) + 1)) ?n),
            b\<lparr>data_size := data_size b - (int (length ?d) + 1 + ?n + 1)\<rparr>)"
    using sz by (simp add: read_record_header [OF b q' n])
  have "span (length ?d + 1) (length s) (queued b) = s"
    by (simp add: q' span_def)
  moreover have "length ?d + 1 + length s \<le> nat (data_size b)" using sz by simp
  ultimately have s: "span (nat (data_off b) + (length ?d + 1)) (length s) (buf b) = s"
    unfolding queued_def by (simp add: span_span)
  have nat_off: "nat (data_off b + (int (length ?d) + 1)) = nat (data_off b) + (length ?d + 1)"
    using b by (simp add: wf_buffer_def nat_add_distrib)
  show ?thesis
    using r s sz b
    by (auto simp: bytes_in_def nat_off queued_def span_def wf_buffer_def add.assoc)
qed

section \<open>Decoder\<close>

record Decoder =
  blk :: string
  d_p :: int
  d_size :: int

definition Decoder_new :: "string \<Rightarrow> Decoder" where
  "Decoder_new bs = \<lparr>blk = bs, d_p = 0, d_size = int (length bs)\<rparr>"

definition advance :: "int \<Rightarrow> Decoder \<Rightarrow> Decoder" where
  "advance n d = d\<lparr>d_p := d_p d + n, d_size := d_size d - n\<rparr>"

text \<open>\<open>n\<close> bytes at the cursor, or a fault when they are not all in the block.\<close>

definition peek :: "int \<Rightarrow> Decoder \<Rightarrow> string outcome" where
  "peek n d =
     (if 0 \<le> d_p d \<and> 0 \<le> n \<and> d_p d + n \<le> int (length (blk d))
      then Done (span (nat (d_p d)) (nat n) (blk d)) else Fault Out_of_bounds)"

definition skip :: "int \<Rightarrow> Decoder \<Rightarrow> int \<times> Decoder" where
  "skip n d = (if d_size d < n then (-1, d) else (n, advance n d))"

definition le_nat :: "string \<Rightarrow> nat" where
  "le_nat bs = foldr (\<lambda>c a. code_of c + 256 * a) bs 0"

text \<open>\<open>size_t(size) < 8\<close>: a negative size converts to a huge one and passes the test.\<close>

definition read_uint64 :: "Decoder \<Rightarrow> (int \<times> int option \<times> Decoder) outcome" where
  "read_uint64 d =
     (if 0 \<le> d_size d \<and> d_size d < 8 then Done (-1, None, d)
      else (case peek 8 d of
              Inl f \<Rightarrow> Inl f
            | Inr bs \<Rightarrow> Done (8, Some (int (le_nat bs)), advance 8 d)))"

definition read_int64 :: "Decoder \<Rightarrow> (int \<times> int option \<times> Decoder) outcome" where
  "read_int64 d =
     (case read_uint64 d of
        Inl f \<Rightarrow> Inl f
      | Inr (r, v, d') \<Rightarrow>
          Done (r, map_option (\<lambda>u. if u < 2 ^ 63 then u else u - 2 ^ 64) v, d'))"

definition read_data :: "Decoder \<Rightarrow> (int \<times> string \<times> Decoder) outcome" where
  "read_data d =
     (case peek (d_size d) d of
        Inl f \<Rightarrow> Inl f
      | Inr bs \<Rightarrow> Done (d_size d, bs, advance (d_size d) d))"

text \<open>On a short body the length byte is already consumed when \<open>-1\<close> is returned.\<close>

definition read_8_data :: "Decoder \<Rightarrow> (int \<times> string option \<times> Decoder) outcome" where
  "read_8_data d =
     (if d_size d < 1 then Done (-1, None, d)
      else (case peek 1 d of
              Inl f \<Rightarrow> Inl f
            | Inr h \<Rightarrow>
                (let len = int (code_of (h ! 0)); d1 = advance 1 d in
                 if d_size d1 < len then Done (-1, None, d1)
                 else (case peek len d1 of
                         Inl f \<Rightarrow> Inl f
                       | Inr bs \<Rightarrow> Done (1 + len, Some bs, advance len d1)))))"

definition wf_decoder :: "Decoder \<Rightarrow> bool" where
  "wf_decoder d \<longleftrightarrow> 0 \<le> d_p d \<and> 0 \<le> d_size d \<and> d_p d + d_size d = int (length (blk d))"

definition remaining :: "Decoder \<Rightarrow> string" where
  "remaining d = drop (nat (d_p d)) (blk d)"

datatype decoder_call = Skip int | Read_int64 | Read_uint64 | Read_data | Read_8_data

fun decoder_step :: "decoder_call \<Rightarrow> Decoder \<Rightarrow> Decoder outcome" where
  "decoder_step (Skip n) d = Done (snd (skip n d))"
| "decoder_step Read_int64 d = map_sum id (\<lambda>(r, v, d'). d') (read_int64 d)"
| "decoder_step Read_uint64 d = map_sum id (\<lambda>(r, v, d'). d') (read_uint64 d)"
| "decoder_step Read_data d = map_sum id (\<lambda>(r, v, d'). d') (read_data d)"
| "decoder_step Read_8_data d = map_sum id (\<lambda>(r, v, d'). d') (read_8_data d)"

fun decoder_run :: "decoder_call list \<Rightarrow> Decoder \<Rightarrow> Decoder outcome" where
  "decoder_run [] d = Done d"
| "decoder_run (c # cs) d =
     (case decoder_step c d of Inl f \<Rightarrow> Inl f | Inr d' \<Rightarrow> decoder_run cs d')"

definition forward_call :: "decoder_call \<Rightarrow> bool" where
  "forward_call c \<longleftrightarrow> (\<forall>n. c = Skip n \<longrightarrow> 0 \<le> n)"

lemma wf_advance [keeps]: "wf_decoder d \<Longrightarrow> 0 \<le> n \<Longrightarrow> n \<le> d_size d \<Longrightarrow> wf_decoder (advance n d)"
  by (simp add: wf_decoder_def advance_def)

lemma peek_ok:
  "wf_decoder d \<Longrightarrow> 0 \<le> n \<Longrightarrow> n \<le> d_size d \<Longrightarrow> peek n d = Done (take (nat n) (remaining d))"
  by (simp add: peek_def wf_decoder_def remaining_def span_def)

lemma decoder_step_ok:
  assumes "wf_decoder d" and "forward_call c"
  shows "\<exists>d'. decoder_step c d = Done d' \<and> wf_decoder d' \<and> blk d' = blk d \<and> d_p d \<le> d_p d'"
proof (cases c)
  case (Skip n)
  with assms show ?thesis
    by (auto simp: skip_def forward_call_def wf_advance) (simp_all add: advance_def)
next
  case Read_8_data
  have d: "0 \<le> d_size d" using assms(1) by (simp add: wf_decoder_def)
  show ?thesis
  proof (cases "d_size d < 1")
    case True
    with Read_8_data assms show ?thesis by (simp add: read_8_data_def)
  next
    case False
    then have w: "wf_decoder (advance 1 d)" using assms(1) by (simp add: wf_advance)
    let ?len = "int (code_of (take (nat 1) (remaining d) ! 0))"
    have p1: "peek 1 d = Done (take (nat 1) (remaining d))"
      using False assms(1) by (intro peek_ok) auto
    show ?thesis
    proof (cases "d_size (advance 1 d) < ?len")
      case True
      with False Read_8_data p1 w show ?thesis
        by (auto simp: read_8_data_def Let_def) (simp_all add: advance_def)
    next
      case short: False
      then have "peek ?len (advance 1 d) = Done (take (nat ?len) (remaining (advance 1 d)))"
        by (intro peek_ok w) auto
      moreover have "wf_decoder (advance ?len (advance 1 d))"
        using short by (intro wf_advance w) auto
      ultimately show ?thesis
        using short False Read_8_data p1
        by (auto simp: read_8_data_def Let_def) (simp_all add: advance_def)
    qed
  qed
qed (use assms in \<open>auto simp: read_int64_def read_uint64_def read_data_def peek_ok wf_advance
      wf_decoder_def advance_def\<close>)

lemma decoder_run_ok:
  "wf_decoder d \<Longrightarrow> \<forall>c \<in> set cs. forward_call c \<Longrightarrow>
   \<exists>d'. decoder_run cs d = Done d' \<and> wf_decoder d' \<and> blk d' = blk d \<and> d_p d \<le> d_p d'"
proof (induction cs arbitrary: d)
  case Nil
  then show ?case by simp
next
  case (Cons c cs)
  then obtain d1 where d1: "decoder_step c d = Done d1" "wf_decoder d1" "blk d1 = blk d"
    "d_p d \<le> d_p d1" using decoder_step_ok [of d c] by auto
  from Cons.IH [OF d1(2)] Cons.prems(2) obtain d2 where
    "decoder_run cs d1 = Done d2" "wf_decoder d2" "blk d2 = blk d1" "d_p d1 \<le> d_p d2" by auto
  with d1 show ?case by auto
qed

section \<open>Properties\<close>

text \<open>\<open>Bytes::compare\<close> is the three-way lexicographic order on unsigned bytes, and
  \<open>operator ==\<close> on \<open>Bytes\<close> agrees with it.\<close>

theorem Bytes_compare_lexicographic:
  "(Bytes_compare a b < 0 \<longleftrightarrow> a < b) \<and> (0 < Bytes_compare a b \<longleftrightarrow> b < a) \<and>
   (Bytes_compare a b = 0 \<longleftrightarrow> Bytes_eq a b) \<and> (Bytes_eq a b \<longleftrightarrow> a = b)"
  using Bytes_compare_sign [of a b] Bytes_eq_iff [of a b] by blast

text \<open>C9. \<open>Buffer::nice\<close> on a well-formed buffer never copies between overlapping ranges or outside
  the block, keeps the queued bytes and the invariant, and, as its comment promises, leaves every
  byte of the second half of the block as it was.\<close>

theorem nice_compacts_safely:
  assumes "wf_buffer b"
  shows "\<exists>b'. nice b = Done b' \<and> wf_buffer b' \<and> queued b' = queued b \<and> space b \<le> space b' \<and>
    (\<forall>k. total_size b div 2 \<le> int k \<and> k < length (buf b) \<longrightarrow> buf b' ! k = buf b ! k)"
proof -
  from nice_ok [OF assms] obtain b' where b': "nice b = Done b'" "wf_buffer b'"
    "queued b' = queued b" "data_size b' = data_size b" "total_size b' = total_size b"
    "data_off b' \<le> data_off b" by blast
  have "buf b' ! k = buf b ! k" if k: "total_size b div 2 \<le> int k" "k < length (buf b)" for k
  proof (cases "data_off b > total_size b div 2")
    case True
    then have "data_size b \<le> int k" using assms k by (auto simp: wf_buffer_def)
    then have "length (queued b) \<le> k" using length_queued [OF assms] by linarith
    then have "overwrite 0 (queued b) (buf b) ! k = buf b ! k"
      using k by (intro nth_overwrite_outside) auto
    with b'(1) True show ?thesis by (auto simp: nice_def split: if_splits)
  next
    case False
    with b'(1) show ?thesis by (simp add: nice_def)
  qed
  with b' show ?thesis by (auto simp: space_def)
qed

theorem nice_compacts_safely_witness:
  "\<exists>b'. nice \<lparr>buf = ''abcdef'', data_off = 4, data_size = 2, total_size = 6, origin_total = 6\<rparr> =
     Done b' \<and> queued b' = ''ef''"
  using nice_compacts_safely
    [of "\<lparr>buf = ''abcdef'', data_off = 4, data_size = 2, total_size = 6, origin_total = 6\<rparr>"]
  by (auto simp: wf_buffer_def queued_def span_def)

text \<open>\<open>read_record\<close> returns the bytes of the record at the front, but it shortens the queue at the
  wrong end: \<open>data_\<close> does not move, so that, as long as enough bytes follow, the next call returns
  the same record again.\<close>

theorem read_record_repeats:
  assumes "wf_buffer b" and "queued b = record_bytes s @ rest"
    and "length (record_bytes s) \<le> length rest"
  shows "\<exists>x b1 b2. read_record b = Done (1, Some x, b1) \<and> bytes_in b1 x = s \<and>
    read_record b1 = Done (1, Some x, b2)"
proof -
  from read_record_one [OF assms(1,2)] obtain x b1 where
    1: "read_record b = Done (1, Some x, b1)" "bytes_in b1 x = s" "wf_buffer b1"
      "data_off b1 = data_off b" "queued b1 = take (length rest) (queued b)"
      "x = Bytes (data_off b + int (length (show_int (int (length s)))) + 1) (int (length s))"
    by blast
  from 1(5) assms(2,3) have
    "queued b1 = record_bytes s @ take (length rest - length (record_bytes s)) rest" by simp
  from read_record_one [OF 1(3) this] 1 show ?thesis by auto
qed

theorem read_record_repeats_witness:
  "\<exists>x b1 b2. read_record (Buffer_wrap (record_bytes ''ab'' @ record_bytes ''cd'')) =
       Done (1, Some x, b1) \<and>
     bytes_in b1 x = ''ab'' \<and> read_record b1 = Done (1, Some x, b2)"
proof (rule read_record_repeats)
  show "wf_buffer (Buffer_wrap (record_bytes ''ab'' @ record_bytes ''cd''))"
    by (rule wf_Buffer_wrap) (simp add: record_bytes_def show_int_def show_nat.simps)
  show "length (record_bytes ''ab'') \<le> length (record_bytes ''cd'')" by code_simp
qed simp

text \<open>After a header line that declares \<open>n\<close> bytes, \<open>read_record\<close> has undefined behaviour (its
  length check overflows \<open>int\<close>) for every \<open>n\<close> close to \<open>INT_MAX\<close>, however few bytes arrived, and
  for no other \<open>n\<close>.\<close>

theorem read_record_overflow:
  assumes "wf_buffer b" and "queued b = show_int n @ NL # rest" and "0 \<le> n" and "n \<le> INT_MAX"
  shows "(\<exists>f. read_record b = Fault f) \<longleftrightarrow> n + int (length (show_int n)) + 2 > INT_MAX"
proof -
  let ?h = "int (length (show_int n)) + 1"
  have ok: "byte_at b (?h + n) = Done (queued b ! nat (?h + n))" if "data_size b \<ge> ?h + n + 1"
    using byte_at_queued [OF assms(1), of "?h + n"] assms(3) that by simp
  have ok1: "byte_at b (?h + n + 1) = Done (queued b ! nat (?h + n + 1))"
    if "data_size b \<ge> ?h + n + 2"
    using byte_at_queued [OF assms(1), of "?h + n + 1"] assms(3) that by simp
  show ?thesis
    unfolding read_record_header [OF assms] Let_def
    using ok ok1 by (auto simp: add.commute)
qed

theorem read_record_overflow_witness:
  "\<exists>f. read_record (Buffer_wrap (show_int 2147483647 @ [NL])) = Fault f"
proof -
  have len: "length (show_int 2147483647) = 10"
    by (simp add: show_int_def show_nat.simps)
  then have "wf_buffer (Buffer_wrap (show_int 2147483647 @ [NL]))"
    by (intro wf_Buffer_wrap) simp
  then show ?thesis
    using read_record_overflow [of "Buffer_wrap (show_int 2147483647 @ [NL])" 2147483647 "[]"]
    by (simp add: len)
qed

text \<open>A \<open>Decoder\<close> made on a block stays inside it under every sequence of calls that never skips
  a negative amount: no call faults, the cursor only moves forward and ends inside the block.\<close>

theorem decoder_stays_in_block:
  assumes "\<forall>c \<in> set cs. forward_call c"
  shows "\<exists>d. decoder_run cs (Decoder_new bs) = Done d \<and> wf_decoder d \<and> blk d = bs"
  using decoder_run_ok [of "Decoder_new bs" cs] assms
  by (auto simp: wf_decoder_def Decoder_new_def)

theorem decoder_stays_in_block_witness:
  "\<exists>d. decoder_run [Read_8_data, Skip 1, Read_uint64] (Decoder_new ''abcd'') = Done d \<and>
     wf_decoder d \<and> blk d = ''abcd''"
  by (rule decoder_stays_in_block) (simp add: forward_call_def)

end
