(* ===== verification/LineCodec.thy ===== *)
theory LineCodec
  imports CStrings
begin

text \<open>
  \<open>server-5204/util/line.h\<close>: values written one per line, each line escaped, and the reader that
  scans for the newline. The reader's state is the text with the two positions \<open>spos\<close> (start of the
  line) and \<open>epos\<close> (scan position).
\<close>

section \<open>LineEncoder\<close>

type_synonym LineEncoder = string

definition write_str :: "string \<Rightarrow> LineEncoder \<Rightarrow> int \<times> LineEncoder" where
  "write_str data val = (0, (val @ str_escape data) @ [CHR 0x0A])"

definition write_int :: "int \<Rightarrow> LineEncoder \<Rightarrow> int \<times> LineEncoder" where
  "write_int data val = write_str (str_int data) val"

section \<open>LineDecoder\<close>

record LineDecoder =
  text_buf :: string
  spos :: nat
  epos :: nat

definition LineDecoder_new :: "string \<Rightarrow> LineDecoder" where
  "LineDecoder_new s = \<lparr>text_buf = s, spos = 0, epos = 0\<rparr>"

text \<open>\<open>while(epos < len && buf[epos] != '\n') epos++;\<close>\<close>

function scan_line :: "string \<Rightarrow> nat \<Rightarrow> nat" where
  "scan_line s e = (if e < length s \<and> s ! e \<noteq> CHR 0x0A then scan_line s (Suc e) else e)"
  by pat_completeness auto
termination by (relation "measure (\<lambda>(s, e). length s - e)") auto

declare scan_line.simps [simp del]

definition read_str :: "LineDecoder \<Rightarrow> int \<times> string option \<times> LineDecoder" where
  "read_str d =
     (let e = scan_line (text_buf d) (epos d) in
      if e \<ge> length (text_buf d) \<or> text_buf d ! e \<noteq> CHR 0x0A
      then (-1, None, d\<lparr>epos := e\<rparr>)
      else (let line = span (spos d) (e - spos d) (text_buf d); r = str_unescape line in
            (int (length r), Some r, d\<lparr>spos := e + 1, epos := e + 1\<rparr>)))"

definition read_int64_line :: "LineDecoder \<Rightarrow> int \<times> int option \<times> LineDecoder" where
  "read_int64_line d =
     (case read_str d of
        (r, None, d') \<Rightarrow> (-1, None, d')
      | (r, Some line, d') \<Rightarrow>
          if r = -1 then (-1, None, d') else (0, Some (fst (str_to_int64 line 0)), d'))"

definition read_int_line :: "LineDecoder \<Rightarrow> int \<times> int option \<times> LineDecoder" where
  "read_int_line d =
     (case read_str d of
        (r, None, d') \<Rightarrow> (-1, None, d')
      | (r, Some line, d') \<Rightarrow>
          if r = -1 then (-1, None, d') else (0, Some (fst (str_to_int line 0)), d'))"

section \<open>Reading what was written\<close>

text \<open>What is left to read: the text from \<open>spos\<close> on, when the scan stands at the line's start.\<close>

definition at_line :: "LineDecoder \<Rightarrow> string \<Rightarrow> bool" where
  "at_line d rest \<longleftrightarrow> spos d = epos d \<and> epos d \<le> length (text_buf d) \<and>
     drop (epos d) (text_buf d) = rest"

lemma scan_line_found:
  "CHR 0x0A \<notin> set l \<Longrightarrow> drop e s = l @ CHR 0x0A # rest \<Longrightarrow> scan_line s e = e + length l"
proof (induction l arbitrary: e)
  case Nil
  then have "\<not> (e < length s \<and> s ! e \<noteq> CHR 0x0A)" by (auto simp: nth_via_drop)
  then show ?case by (subst scan_line.simps) (simp only: if_False, simp)
next
  case (Cons c l)
  from Cons.prems have "drop e s = c # (l @ CHR 0x0A # rest)" by simp
  from drop_eq_Cons_nth [OF this] Cons.prems(1)
  have "e < length s" "s ! e \<noteq> CHR 0x0A" "drop (Suc e) s = l @ CHR 0x0A # rest" by auto
  with Cons show ?case by (subst scan_line.simps) simp
qed

lemma scan_line_none:
  "CHR 0x0A \<notin> set (drop e s) \<Longrightarrow> e \<le> length s \<Longrightarrow> scan_line s e = length s"
proof (induction s e rule: scan_line.induct)
  case (1 s e)
  show ?case
  proof (cases "e < length s")
    case True
    then have d: "drop e s = s ! e # drop (Suc e) s" by (rule Cons_nth_drop_Suc [symmetric])
    with 1 True show ?thesis by (subst scan_line.simps) auto
  next
    case False
    with 1 show ?thesis by (subst scan_line.simps) simp
  qed
qed

lemma read_str_line:
  assumes "at_line d (str_escape x @ CHR 0x0A # rest)"
  shows "\<exists>d'. read_str d = (int (length x), Some x, d') \<and> at_line d' rest"
proof -
  let ?e = "epos d + length (str_escape x)"
  from assms have dr: "drop (epos d) (text_buf d) = str_escape x @ CHR 0x0A # rest"
    by (simp add: at_line_def)
  from scan_line_found [OF newline_notin_escape dr] have e: "scan_line (text_buf d) (epos d) = ?e" .
  have at: "drop ?e (text_buf d) = CHR 0x0A # rest"
    using arg_cong [OF dr, of "drop (length (str_escape x))"] by (simp add: add.commute)
  note here = drop_eq_Cons_nth [OF at]
  have "span (spos d) (?e - spos d) (text_buf d) = str_escape x"
    using assms dr by (simp add: at_line_def span_def)
  with here show ?thesis
    by (simp add: read_str_def e at_line_def Let_def)
qed

definition encode_lines :: "string list \<Rightarrow> LineEncoder" where
  "encode_lines xs = foldl (\<lambda>val x. snd (write_str x val)) [] xs"

fun read_lines :: "nat \<Rightarrow> LineDecoder \<Rightarrow> string list \<times> LineDecoder" where
  "read_lines 0 d = ([], d)"
| "read_lines (Suc n) d =
     (case read_str d of
        (r, None, d') \<Rightarrow> ([], d')
      | (r, Some x, d') \<Rightarrow> (let (xs, d'') = read_lines n d' in (x # xs, d'')))"

lemma encode_lines_concat:
  "foldl (\<lambda>val x. snd (write_str x val)) acc xs =
   acc @ concat (map (\<lambda>x. str_escape x @ [CHR 0x0A]) xs)"
  by (induction xs arbitrary: acc) (simp_all add: write_str_def)

lemma read_lines_encoded:
  "at_line d (concat (map (\<lambda>x. str_escape x @ [CHR 0x0A]) xs) @ rest) \<Longrightarrow>
   \<exists>d'. read_lines (length xs) d = (xs, d') \<and> at_line d' rest"
proof (induction xs arbitrary: d)
  case Nil
  then show ?case by simp
next
  case (Cons x xs)
  from read_str_line [of d x] Cons.prems obtain d1 where
    "read_str d = (int (length x), Some x, d1)"
    "at_line d1 (concat (map (\<lambda>x. str_escape x @ [CHR 0x0A]) xs) @ rest)" by auto
  with Cons.IH [of d1] show ?case by auto
qed

section \<open>Properties\<close>

text \<open>Whatever strings are written with \<open>LineEncoder::write\<close>, reading as many lines with
  \<open>LineDecoder::read\<close> gives the same strings in order, and the next read reports \<open>-1\<close>.\<close>

theorem lines_round_trip:
  "\<exists>d. read_lines (length xs) (LineDecoder_new (encode_lines xs)) = (xs, d) \<and>
     fst (read_str d) = -1"
proof -
  have "at_line (LineDecoder_new (encode_lines xs))
      (concat (map (\<lambda>x. str_escape x @ [CHR 0x0A]) xs) @ [])"
    using encode_lines_concat [of "[]" xs]
    by (simp add: at_line_def LineDecoder_new_def encode_lines_def)
  from read_lines_encoded [OF this] obtain d where
    d: "read_lines (length xs) (LineDecoder_new (encode_lines xs)) = (xs, d)" "at_line d []" by blast
  then have "scan_line (text_buf d) (epos d) = length (text_buf d)"
    by (intro scan_line_none) (auto simp: at_line_def)
  then have "fst (read_str d) = -1" by (simp add: read_str_def Let_def)
  with d show ?thesis by blast
qed

text \<open>Integers written as lines come back: any \<open>int64_t\<close> with the 64-bit reader; the reader into
  an \<open>int\<close> gives the value wrapped to 32 bits and reports no error.\<close>

theorem int_lines_round_trip:
  assumes "- 9223372036854775808 \<le> v" and "v \<le> 9223372036854775807"
  shows "(\<exists>d. read_int64_line (LineDecoder_new (snd (write_int v []))) = (0, Some v, d)) \<and>
    (\<exists>d. read_int_line (LineDecoder_new (snd (write_int v []))) = (0, Some (wrap32 v), d))"
proof -
  have "at_line (LineDecoder_new (snd (write_int v []))) (str_escape (str_int v) @ CHR 0x0A # [])"
    by (simp add: at_line_def LineDecoder_new_def write_int_def write_str_def)
  from read_str_line [OF this] obtain d where
    "read_str (LineDecoder_new (snd (write_int v []))) =
       (int (length (str_int v)), Some (str_int v), d)" by blast
  then show ?thesis
    using assms
    by (simp add: read_int64_line_def read_int_line_def str_to_int64_def str_to_int_def str_int_def
        scan_show_int)
qed

theorem int_lines_round_trip_witness:
  "\<exists>d. read_int_line (LineDecoder_new (snd (write_int 4294967301 []))) = (0, Some 5, d)"
  using int_lines_round_trip [of 4294967301] by (simp add: wrap32_def)

end
