(* ===== verification/SsdbLink.thy ===== *)
theory SsdbLink
  imports ByteBuffer
begin

text \<open>
  \<open>server-5204/link.h\<close> and \<open>link.cpp\<close>: a connection with its input and output buffers, the packet
  format (records ended by an empty line), the non-blocking read and write loops and the
  request/response exchange built from them.

  The kernel's side of a socket is explicit. What arrives is a list of \<open>read_event\<close>: a chunk of
  bytes (empty: end of file) or an \<open>errno\<close>; a \<open>read\<close> takes as much of the first chunk as was asked
  for. What the kernel accepts for sending is a list of \<open>write_event\<close>. A loop that would block
  because its list is used up has the value \<open>None\<close>.
\<close>

section \<open>State\<close>

record Link =
  sock :: int
  noblock_flag :: bool
  error_flag :: bool
  remote_ip :: string
  remote_port :: int
  auth :: bool
  ignore_key_range :: bool
  in_buf :: Buffer
  out_buf :: Buffer
  omsg_q :: "Buffer list"
  recv_data :: "Bytes list"

abbreviation INIT_BUFFER_SIZE :: int where "INIT_BUFFER_SIZE \<equiv> 1024"
abbreviation MAX_PACKET_SIZE :: int where "MAX_PACKET_SIZE \<equiv> 134217728"

definition Link_new :: "heap \<Rightarrow> Link" where
  "Link_new H =
     \<lparr>sock = -1, noblock_flag = False, error_flag = False, remote_ip = [], remote_port = -1,
      auth = False, ignore_key_range = False,
      in_buf = Buffer_new H INIT_BUFFER_SIZE, out_buf = Buffer_new H INIT_BUFFER_SIZE,
      omsg_q = [], recv_data = []\<rparr>"

definition noblock :: "bool \<Rightarrow> Link \<Rightarrow> Link" where
  "noblock enable L = L\<lparr>noblock_flag := enable\<rparr>"

definition mark_error :: "Link \<Rightarrow> Link" where
  "mark_error L = L\<lparr>error_flag := True\<rparr>"

text \<open>\<open>Link::close\<close> and the destructor: the descriptors that they close. \<open>close\<close> keeps the number of the
  descriptor, so that destroying a closed link closes it, or a newer one of that number, once more.\<close>

definition Link_close :: "Link \<Rightarrow> int list \<times> Link" where
  "Link_close L = (if sock L \<ge> 0 then ([sock L], L) else ([], L))"

definition Link_destroy :: "Link \<Rightarrow> int list" where
  "Link_destroy L = fst (Link_close L)"

lemma closed_link_closes_again:
  "Link_close L = (fds, L') \<Longrightarrow> Link_destroy L' = fds"
  by (auto simp: Link_close_def Link_destroy_def split: if_splits)

definition wf_link :: "Link \<Rightarrow> bool" where
  "wf_link L \<longleftrightarrow> wf_buffer (in_buf L) \<and> wf_buffer (out_buf L)"

section \<open>Addresses and sockets\<close>

fun is_ip_loop :: "nat \<Rightarrow> nat \<Rightarrow> string \<Rightarrow> bool" where
  "is_ip_loop dot_count digit_count [] = (dot_count = 3)"
| "is_ip_loop dot_count digit_count (p # ps) =
     (if p = CHR ''.'' then
        (if digit_count \<ge> 1 \<and> digit_count \<le> 3 then is_ip_loop (dot_count + 1) 0 ps else False)
      else if is_digit p then is_ip_loop dot_count (digit_count + 1) ps
      else False)"

definition is_ip :: "string \<Rightarrow> bool" where
  "is_ip host = is_ip_loop 0 0 (c_str host)"

text \<open>The kernel's answers to the set-up calls of one socket: the descriptor (or \<open>-1\<close>) and whether
  each further call succeeded.\<close>

record socket_answers =
  ans_socket :: int
  ans_setsockopt :: bool
  ans_bind :: bool
  ans_listen :: bool
  ans_connect :: bool

text \<open>\<open>Link::listen\<close>: the link or \<open>NULL\<close>, and the descriptors it closed.\<close>

definition Link_listen ::
  "heap \<Rightarrow> socket_answers \<Rightarrow> string \<Rightarrow> int \<Rightarrow> Link option \<times> int list" where
  "Link_listen H a ip port =
     (let fd = ans_socket a; sock_err = (None, if fd \<ge> 0 then [fd] else []) in
      if fd = -1 then sock_err
      else if \<not> ans_setsockopt a then sock_err
      else if \<not> ans_bind a then sock_err
      else if \<not> ans_listen a then sock_err
      else (Some ((Link_new H)\<lparr>sock := fd, remote_ip := take 15 (c_str ip), remote_port := port\<rparr>),
            []))"

text \<open>\<open>Link::connect\<close>; \<open>resolve\<close> stands for \<open>gethostbyname\<close> and \<open>inet_ntop\<close>. The name that is
  passed to \<open>inet_pton\<close> is returned as well.\<close>

definition Link_connect ::
  "heap \<Rightarrow> (string \<Rightarrow> string option) \<Rightarrow> socket_answers \<Rightarrow> string \<Rightarrow> Link option \<times> int list \<times> string"
  where
  "Link_connect H resolve a host =
     (let name = (if is_ip host then host
                  else case resolve host of Some ip \<Rightarrow> ip | None \<Rightarrow> host);
          fd = ans_socket a; closed = (if fd \<ge> 0 then [fd] else [])
      in if fd = -1 then (None, closed, name)
         else if \<not> ans_connect a then (None, closed, name)
         else (Some ((Link_new H)\<lparr>sock := fd\<rparr>), [], name))"

datatype io_error = EINTR | EWOULDBLOCK | Other_errno

datatype accept_event = Accepted int string int | Accept_err io_error

text \<open>\<open>Link::accept\<close> retries while it is interrupted.\<close>

fun Link_accept :: "heap \<Rightarrow> accept_event list \<Rightarrow> (Link option \<times> accept_event list) option" where
  "Link_accept H [] = None"
| "Link_accept H (Accept_err e # evs) =
     (if e \<noteq> EINTR then Some (None, evs) else Link_accept H evs)"
| "Link_accept H (Accepted fd ip port # evs) =
     Some (Some ((Link_new H)\<lparr>sock := fd, remote_ip := ip, remote_port := port\<rparr>), evs)"

section \<open>Reading\<close>

datatype read_event = Arrived string | Read_err io_error

fun read_events_size :: "read_event list \<Rightarrow> nat" where
  "read_events_size [] = 0"
| "read_events_size (Arrived bs # evs) = Suc (length bs + read_events_size evs)"
| "read_events_size (Read_err e # evs) = Suc (read_events_size evs)"

text \<open>How the loop of \<open>Link::read\<close> and \<open>Link::msg_read\<close> ends: with a count of bytes, at the end
  of file, or with an error.\<close>

datatype read_end = Got int | At_eof | Failed

function read_loop ::
  "bool \<Rightarrow> read_event list \<Rightarrow> int \<Rightarrow> Buffer \<Rightarrow>
   (read_end \<times> Buffer \<times> read_event list) outcome option" where
  "read_loop nb evs ret b =
     (if space b \<le> 0 then Some (Done (Got ret, b, evs))
      else case evs of
        [] \<Rightarrow> None
      | Read_err e # evs' \<Rightarrow>
          (if e = EINTR then read_loop nb evs' ret b
           else if e = EWOULDBLOCK then Some (Done (Got ret, b, evs'))
           else Some (Done (Failed, b, evs')))
      | Arrived bs # evs' \<Rightarrow>
          (let want = nat (space b);
               got = take want bs;
               left = (if length bs \<le> want then evs' else Arrived (drop want bs) # evs')
           in if got = [] then Some (Done (At_eof, b, left))
              else case write_slot got b of
                Inl f \<Rightarrow> Some (Inl f)
              | Inr b' \<Rightarrow>
                  if \<not> nb then Some (Done (Got (ret + int (length got)), b', left))
                  else read_loop nb left (ret + int (length got)) b'))"
  by pat_completeness auto
termination
  by (relation "measure (\<lambda>(nb, evs, ret, b). read_events_size evs)") auto

declare read_loop.simps [simp del]

text \<open>The first growth of a buffer, its result ignored by the code.\<close>

definition first_grow :: "heap \<Rightarrow> Buffer \<Rightarrow> Buffer outcome" where
  "first_grow H b =
     (if total_size b = INIT_BUFFER_SIZE
      then (case grow H b of Inl f \<Rightarrow> Inl f | Inr (_, b') \<Rightarrow> Done b') else Done b)"

definition Link_read ::
  "heap \<Rightarrow> read_event list \<Rightarrow> Link \<Rightarrow> (int \<times> Link \<times> read_event list) outcome option" where
  "Link_read H evs L =
     (case first_grow H (in_buf L) of
        Inl f \<Rightarrow> Some (Inl f)
      | Inr b1 \<Rightarrow>
          (case nice b1 of
             Inl f \<Rightarrow> Some (Inl f)
           | Inr b2 \<Rightarrow>
               map_option
                 (map_sum id (\<lambda>(e, b, left).
                    (case e of Got ret \<Rightarrow> ret | At_eof \<Rightarrow> 0 | Failed \<Rightarrow> -1, L\<lparr>in_buf := b\<rparr>, left)))
                 (read_loop (noblock_flag L) evs 0 b2)))"

text \<open>\<open>msg_read\<close> reads into a new buffer; \<open>NULL\<close> on an error and at the end of file.\<close>

definition Link_msg_read ::
  "heap \<Rightarrow> read_event list \<Rightarrow> Link \<Rightarrow> (Buffer option \<times> read_event list) outcome option" where
  "Link_msg_read H evs L =
     (case first_grow H (Buffer_new H INIT_BUFFER_SIZE) of
        Inl f \<Rightarrow> Some (Inl f)
      | Inr b1 \<Rightarrow>
          (case nice b1 of
             Inl f \<Rightarrow> Some (Inl f)
           | Inr b2 \<Rightarrow>
               map_option
                 (map_sum id (\<lambda>(e, b, left).
                    (case e of Got ret \<Rightarrow> Some b | At_eof \<Rightarrow> None | Failed \<Rightarrow> None, left)))
                 (read_loop (noblock_flag L) evs 0 b2)))"

section \<open>Writing\<close>

text \<open>The kernel takes at most \<open>n\<close> bytes (\<open>Accepts n\<close>), or fails.\<close>

datatype write_event = Accepts nat | Write_err io_error

text \<open>The loop of \<open>Link::write\<close> and \<open>Link::msg_write\<close>: the return value, the buffer, the bytes that
  went out and the events left.\<close>

fun write_loop ::
  "bool \<Rightarrow> write_event list \<Rightarrow> int \<Rightarrow> Buffer \<Rightarrow> (int \<times> Buffer \<times> string \<times> write_event list) option"
  where
  "write_loop nb [] ret b = (if data_size b > 0 then None else Some (ret, b, [], []))"
| "write_loop nb (ev # evs) ret b =
     (if data_size b > 0 then
        (case ev of
           Write_err e \<Rightarrow>
             (if e = EINTR then write_loop nb evs ret b
              else if e = EWOULDBLOCK then Some (ret, b, [], evs)
              else Some (-1, b, [], evs))
         | Accepts n \<Rightarrow>
             (let len = min n (nat (data_size b)); out = take len (queued b) in
              if len = 0 then Some (ret, b, [], evs)
              else if \<not> nb then Some (ret + int len, decr (int len) b, out, evs)
              else map_option (\<lambda>(r, b', out', evs'). (r, b', out @ out', evs'))
                     (write_loop nb evs (ret + int len) (decr (int len) b))))
      else Some (ret, b, [], ev # evs))"

text \<open>Growth before the loop, compaction after it (not on the error return).\<close>

definition write_buffer ::
  "heap \<Rightarrow> bool \<Rightarrow> write_event list \<Rightarrow> Buffer \<Rightarrow>
   (int \<times> Buffer \<times> string \<times> write_event list) outcome option" where
  "write_buffer H nb evs b =
     (case first_grow H b of
        Inl f \<Rightarrow> Some (Inl f)
      | Inr b1 \<Rightarrow>
          (case write_loop nb evs 0 b1 of
             None \<Rightarrow> None
           | Some (r, b2, out, left) \<Rightarrow>
               if r = -1 then Some (Done (-1, b2, out, left))
               else (case nice b2 of
                       Inl f \<Rightarrow> Some (Inl f)
                     | Inr b3 \<Rightarrow> Some (Done (r, b3, out, left)))))"

definition Link_write ::
  "heap \<Rightarrow> write_event list \<Rightarrow> Link \<Rightarrow> (int \<times> Link \<times> string \<times> write_event list) outcome option"
  where
  "Link_write H evs L =
     map_option (map_sum id (\<lambda>(r, b, out, left). (r, L\<lparr>out_buf := b\<rparr>, out, left)))
       (write_buffer H (noblock_flag L) evs (out_buf L))"

definition Link_msg_write ::
  "heap \<Rightarrow> write_event list \<Rightarrow> Link \<Rightarrow> Buffer \<Rightarrow>
   (int \<times> Buffer \<times> string \<times> write_event list) outcome option" where
  "Link_msg_write H evs L smsg = write_buffer H (noblock_flag L) evs smsg"

text \<open>\<open>flush\<close> writes until the buffer is empty; \<open>turns\<close> bounds the number of calls of \<open>write\<close>.\<close>

fun Link_flush ::
  "nat \<Rightarrow> heap \<Rightarrow> write_event list \<Rightarrow> Link \<Rightarrow>
   (int \<times> Link \<times> string \<times> write_event list) outcome option" where
  "Link_flush 0 H evs L = (if empty (out_buf L) then Some (Done (0, L, [], evs)) else None)"
| "Link_flush (Suc turns) H evs L =
     (if empty (out_buf L) then Some (Done (0, L, [], evs))
      else case Link_write H evs L of
        None \<Rightarrow> None
      | Some (Inl f) \<Rightarrow> Some (Inl f)
      | Some (Inr (r, L1, out, evs1)) \<Rightarrow>
          (if r = -1 then Some (Done (-1, L1, out, evs1))
           else case Link_flush turns H evs1 L1 of
             None \<Rightarrow> None
           | Some (Inl f) \<Rightarrow> Some (Inl f)
           | Some (Inr (r2, L2, out2, evs2)) \<Rightarrow>
               Some (Done (if r2 = -1 then -1 else r + r2, L2, out @ out2, evs2))))"

section \<open>The packet format\<close>

text \<open>What the main loop of \<open>parse\<close> ends with; each value carries the spans pushed so far.\<close>

datatype parse_result =
    Packet int "Bytes list"
  | Bad_format "Bytes list"
  | Not_ready "Bytes list"
  | Overflowed

definition starts_with :: "string \<Rightarrow> string \<Rightarrow> bool" where
  "starts_with p s \<longleftrightarrow> take (length p) s = p"

text \<open>The main loop of \<open>parse\<close>. \<open>h\<close> is what is left of the input (so \<open>size\<close> is its length),
  \<open>parsed\<close> counts the bytes before it and \<open>base\<close> is the offset of the input's first byte.\<close>

function parse_loop :: "int \<Rightarrow> string \<Rightarrow> int \<Rightarrow> Bytes list \<Rightarrow> parse_result" where
  "parse_loop base h parsed recv =
     (case memchr NL h of
        None \<Rightarrow> Not_ready recv
      | Some i \<Rightarrow>
          (let head_len = int i + 1 in
           if head_len = 1 \<or> head_len = 2 \<and> h ! 0 = CR then Packet (parsed + head_len) recv
           else if \<not> is_digit (h ! 0) then Bad_format recv
           else if head_len > 20 - 1 then Bad_format recv
           else
             (let body_len = atoi (take i h) in
              if body_len < 0 then Bad_format recv
              else if head_len + body_len > INT_MAX then Overflowed
              else if int (length h) - (head_len + body_len) < 0 then Not_ready recv
              else
                (let recv' = recv @ [Bytes (base + parsed + head_len) body_len];
                     h' = drop (nat (head_len + body_len)) h;
                     parsed' = parsed + (head_len + body_len)
                 in if starts_with [NL] h' then
                      (if parsed' + 1 > MAX_PACKET_SIZE then Bad_format recv'
                       else parse_loop base (drop 1 h') (parsed' + 1) recv')
                    else if starts_with [CR, NL] h' then
                      (if parsed' + 2 > MAX_PACKET_SIZE then Bad_format recv'
                       else parse_loop base (drop 2 h') (parsed' + 2) recv')
                    else Not_ready recv'))))"
  by pat_completeness auto
termination
proof (relation "measure (\<lambda>(base, h, parsed, recv). length h)", simp, goal_cases)
  case (1 base h parsed recv i head_len body_len)
  then show ?case by (cases h) (auto simp: memchr_def Let_def)
next
  case (2 base h parsed recv i head_len body_len)
  then show ?case by (cases h) (auto simp: memchr_def Let_def)
qed

declare parse_loop.simps [simp del]

definition leading_blank :: "char \<Rightarrow> bool" where
  "leading_blank c \<longleftrightarrow> c = NL \<or> c = CR"

text \<open>After a partial packet: make room.\<close>

definition make_room :: "heap \<Rightarrow> Buffer \<Rightarrow> (bool \<times> Buffer) outcome" where
  "make_room H b =
     (if space b = 0 then
        (case nice b of
           Inl f \<Rightarrow> Inl f
         | Inr b1 \<Rightarrow>
             (if space b1 = 0 then
                (case grow H b1 of Inl f \<Rightarrow> Inl f | Inr (r, b2) \<Rightarrow> Done (r \<noteq> -1, b2))
              else Done (True, b1)))
      else Done (True, b))"

text \<open>\<open>Link::parse\<close>: \<open>None\<close> is the \<open>NULL\<close> of an error, an empty list "not ready".\<close>

definition Link_parse :: "heap \<Rightarrow> Link \<Rightarrow> (Bytes list option \<times> Link) outcome" where
  "Link_parse H L0 =
     (let L = L0\<lparr>recv_data := []\<rparr>; b = in_buf L in
      if empty b then Done (Some [], L)
      else
        (let blanks = length (takeWhile leading_blank (queued b)) in
         case parse_loop (data_off b) (drop blanks (queued b)) (int blanks) [] of
           Packet parsed recv \<Rightarrow> Done (Some recv, L\<lparr>in_buf := decr parsed b, recv_data := recv\<rparr>)
         | Bad_format recv \<Rightarrow> Done (None, L\<lparr>recv_data := recv\<rparr>)
         | Overflowed \<Rightarrow> Fault Int_overflow
         | Not_ready recv \<Rightarrow>
             (case make_room H b of
                Inl f \<Rightarrow> Inl f
              | Inr (ok, b') \<Rightarrow>
                  if ok then Done (Some [], L\<lparr>in_buf := b'\<rparr>)
                  else Done (None, L\<lparr>in_buf := b', recv_data := recv\<rparr>))))"

section \<open>Sending\<close>

text \<open>The results of the append calls are ignored by the code.\<close>

fun put_all :: "(string \<Rightarrow> 'b \<Rightarrow> (int \<times> 'b) outcome) \<Rightarrow> string list \<Rightarrow> 'b \<Rightarrow> 'b outcome" where
  "put_all put [] b = Done b"
| "put_all put (s # ss) b =
     (case put s b of Inl f \<Rightarrow> Inl f | Inr (_, b') \<Rightarrow> put_all put ss b')"

definition put_packet ::
  "(string \<Rightarrow> 'b \<Rightarrow> (int \<times> 'b) outcome) \<Rightarrow> (char \<Rightarrow> 'b \<Rightarrow> (int \<times> 'b) outcome) \<Rightarrow>
   string list \<Rightarrow> 'b \<Rightarrow> 'b outcome" where
  "put_packet put putc ss b =
     (case put_all put ss b of
        Inl f \<Rightarrow> Inl f
      | Inr b' \<Rightarrow> (case putc NL b' of Inl f \<Rightarrow> Inl f | Inr (_, b'') \<Rightarrow> Done b''))"

text \<open>\<open>send(const std::vector<Bytes> &)\<close>.\<close>

definition Link_send_bytes :: "heap \<Rightarrow> string list \<Rightarrow> Link \<Rightarrow> (int \<times> Link) outcome" where
  "Link_send_bytes H resp L =
     (case put_packet (append_record H) (append_char H) resp (out_buf L) of
        Inl f \<Rightarrow> Inl f
      | Inr b \<Rightarrow> Done (0, L\<lparr>out_buf := b\<rparr>))"

text \<open>\<open>send(const std::vector<std::string> &)\<close>: nothing at all for an empty vector.\<close>

definition Link_send_strings :: "heap \<Rightarrow> string list \<Rightarrow> Link \<Rightarrow> (int \<times> Link) outcome" where
  "Link_send_strings H resp L = (if resp = [] then Done (0, L) else Link_send_bytes H resp L)"

text \<open>The overloads for one to five arguments.\<close>

definition Link_send1 :: "heap \<Rightarrow> string \<Rightarrow> Link \<Rightarrow> (int \<times> Link) outcome" where
  "Link_send1 H s1 L = Link_send_bytes H [s1] L"

definition Link_send2 :: "heap \<Rightarrow> string \<Rightarrow> string \<Rightarrow> Link \<Rightarrow> (int \<times> Link) outcome" where
  "Link_send2 H s1 s2 L = Link_send_bytes H [s1, s2] L"

definition Link_send3 :: "heap \<Rightarrow> string \<Rightarrow> string \<Rightarrow> string \<Rightarrow> Link \<Rightarrow> (int \<times> Link) outcome" where
  "Link_send3 H s1 s2 s3 L = Link_send_bytes H [s1, s2, s3] L"

definition Link_send4 ::
  "heap \<Rightarrow> string \<Rightarrow> string \<Rightarrow> string \<Rightarrow> string \<Rightarrow> Link \<Rightarrow> (int \<times> Link) outcome" where
  "Link_send4 H s1 s2 s3 s4 L = Link_send_bytes H [s1, s2, s3, s4] L"

definition Link_send5 ::
  "heap \<Rightarrow> string \<Rightarrow> string \<Rightarrow> string \<Rightarrow> string \<Rightarrow> string \<Rightarrow> Link \<Rightarrow> (int \<times> Link) outcome" where
  "Link_send5 H s1 s2 s3 s4 s5 L = Link_send_bytes H [s1, s2, s3, s4, s5] L"

section \<open>What a buffer promises to the senders\<close>

definition packet_bytes :: "string list \<Rightarrow> string" where
  "packet_bytes ss = concat (map record_bytes ss) @ [NL]"

text \<open>An upper bound of the room that sending needs.\<close>

definition packet_room :: "string list \<Rightarrow> nat" where
  "packet_room ss = sum_list (map (\<lambda>s. length s + 17) ss) + 1"

locale byte_sink =
  fixes put_record :: "string \<Rightarrow> 'b \<Rightarrow> (int \<times> 'b) outcome"
    and put_char :: "char \<Rightarrow> 'b \<Rightarrow> (int \<times> 'b) outcome"
    and content :: "'b \<Rightarrow> string"
    and room :: "'b \<Rightarrow> nat \<Rightarrow> bool"
    and reliable :: bool
  assumes record_law: "room b (length s + 17 + n) \<Longrightarrow>
      \<exists>r b'. put_record s b = Done (r, b') \<and> room b' n \<and>
        (content b' = content b \<and> \<not> reliable \<or> content b' = content b @ record_bytes s)"
    and char_law: "room b (Suc n) \<Longrightarrow>
      \<exists>r b'. put_char c b = Done (r, b') \<and> room b' n \<and>
        (content b' = content b \<and> \<not> reliable \<or> content b' = content b @ [c])"
begin

lemma put_all_ok:
  "room b (sum_list (map (\<lambda>s. length s + 17) ss) + n) \<Longrightarrow>
   \<exists>b'. put_all put_record ss b = Done b' \<and> room b' n \<and>
     (reliable \<longrightarrow> content b' = content b @ concat (map record_bytes ss))"
proof (induction ss arbitrary: b)
  case Nil
  then show ?case by simp
next
  case (Cons s ss)
  then have "room b (length s + 17 + (sum_list (map (\<lambda>s. length s + 17) ss) + n))"
    by (simp add: add.assoc)
  from record_law [OF this] obtain r b1 where
    b1: "put_record s b = Done (r, b1)" "room b1 (sum_list (map (\<lambda>s. length s + 17) ss) + n)"
      "reliable \<longrightarrow> content b1 = content b @ record_bytes s" by blast
  from Cons.IH [OF b1(2)] b1 show ?case by auto
qed

lemma put_packet_ok:
  assumes "room b (packet_room ss)"
  shows "\<exists>b'. put_packet put_record put_char ss b = Done b' \<and> room b' 0 \<and>
    (reliable \<longrightarrow> content b' = content b @ packet_bytes ss)"
proof -
  from put_all_ok [of b ss 1] assms obtain b1 where
    b1: "put_all put_record ss b = Done b1" "room b1 (Suc 0)"
      "reliable \<longrightarrow> content b1 = content b @ concat (map record_bytes ss)"
    by (auto simp: packet_room_def)
  from char_law [OF b1(2), of NL] b1 show ?thesis
    by (auto simp: put_packet_def packet_bytes_def)
qed

end

interpretation out: byte_sink "append_record H" "append_char H" queued can_take "\<forall>n. can_alloc H n"
  for H
proof unfold_locales
  fix b :: Buffer and s :: string and n
  assume "can_take b (length s + 17 + n)"
  from append_record_ok [OF this, of H] show "\<exists>r b'. append_record H s b = Done (r, b') \<and>
      can_take b' n \<and> (queued b' = queued b \<and> \<not> (\<forall>n. can_alloc H n) \<or>
        queued b' = queued b @ record_bytes s)" by blast
next
  fix b :: Buffer and c n
  assume "can_take b (Suc n)"
  from append_char_ok [OF this, of H c] show "\<exists>r b'. append_char H c b = Done (r, b') \<and>
      can_take b' n \<and> (queued b' = queued b \<and> \<not> (\<forall>n. can_alloc H n) \<or>
        queued b' = queued b @ [c])" by blast
qed

lemma send_bytes_ok:
  assumes "can_take (out_buf L) (packet_room ss)" and "\<forall>n. can_alloc H n"
  shows "\<exists>L'. Link_send_bytes H ss L = Done (0, L') \<and> can_take (out_buf L') 0 \<and>
    queued (out_buf L') = queued (out_buf L) @ packet_bytes ss \<and> in_buf L' = in_buf L \<and>
    sock L' = sock L \<and> noblock_flag L' = noblock_flag L"
  using out.put_packet_ok [OF assms(1), of H] assms(2) by (auto simp: Link_send_bytes_def)

section \<open>Parsing\<close>

lemma starts_with_append [simp]: "starts_with p (p @ s)"
  by (simp add: starts_with_def)

lemma starts_with_NL [simp]: "starts_with [NL] (NL # s)"
  by (simp add: starts_with_def)

text \<open>One turn of the loop on a complete record, and on a cut one.\<close>

lemma header_line:
  assumes "h = show_int n @ NL # t" and "0 \<le> n" and "n \<le> INT_MAX"
  shows "memchr NL h = Some (length (show_int n))" "is_digit (h ! 0)"
    "take (length (show_int n)) h = show_int n" "length (show_int n) \<le> 10"
    "show_int n \<noteq> []"
proof -
  show "memchr NL h = Some (length (show_int n))" using assms by simp
  show "is_digit (h ! 0)" using show_int_first_digit [OF assms(2)] assms(1) by simp
  show "take (length (show_int n)) h = show_int n" using assms(1) by simp
  show "length (show_int n) \<le> 10" using show_int_length10 [OF assms(2,3)] .
  show "show_int n \<noteq> []" using assms(2) by (simp add: show_int_nonneg)
qed

lemma CR_not_digit: "\<not> is_digit CR"
  by (simp add: is_digit_def code_of_def)

lemma parse_loop_header:
  assumes "h = show_int n @ NL # t" and "0 \<le> n" and "n + 11 \<le> INT_MAX"
  shows "parse_loop base h parsed recv =
    (let head_len = int (length (show_int n)) + 1;
         recv' = recv @ [Bytes (base + parsed + head_len) n];
         h' = drop (nat n) t; parsed' = parsed + (head_len + n)
     in if int (length t) < n then Not_ready recv
        else if starts_with [NL] h' then
          (if parsed' + 1 > MAX_PACKET_SIZE then Bad_format recv'
           else parse_loop base (drop 1 h') (parsed' + 1) recv')
        else if starts_with [CR, NL] h' then
          (if parsed' + 2 > MAX_PACKET_SIZE then Bad_format recv'
           else parse_loop base (drop 2 h') (parsed' + 2) recv')
        else Not_ready recv')"
proof -
  have n: "n \<le> INT_MAX" using assms(3) by simp
  note hl = header_line [OF assms(1,2) n]
  have "h ! 0 \<noteq> CR" using hl(2) CR_not_digit by auto
  moreover have "int (length h) = int (length (show_int n)) + 1 + int (length t)"
    using assms(1) by simp
  moreover have "drop (nat (int (length (show_int n)) + 1 + n)) h = drop (nat n) t"
    using assms(1,2) by (simp add: nat_add_distrib)
  ultimately show ?thesis
    using assms(2,3) hl by (subst parse_loop.simps) (auto simp: Let_def)
qed

lemma parse_loop_record:
  assumes "h = record_bytes s @ t" and "parsed + int (length (record_bytes s)) \<le> MAX_PACKET_SIZE"
    and "0 \<le> parsed"
  shows "parse_loop base h parsed recv =
    parse_loop base t (parsed + int (length (record_bytes s)))
      (recv @ [Bytes (base + parsed + int (length (show_int (int (length s)))) + 1) (int (length s))])"
proof -
  let ?n = "int (length s)"
  have h: "h = show_int ?n @ NL # (s @ NL # t)" using assms(1) by (simp add: record_bytes_def)
  have "?n + 11 \<le> INT_MAX" using assms by (simp add: record_bytes_def)
  from parse_loop_header [OF h _ this] show ?thesis
    using assms(2) by (simp add: record_bytes_def Let_def ac_simps)
qed

lemma parse_loop_end: "parse_loop base (NL # t) parsed recv = Packet (parsed + 1) recv"
  by (subst parse_loop.simps) (simp add: memchr_def)

lemma parse_loop_no_line: "NL \<notin> set h \<Longrightarrow> parse_loop base h parsed recv = Not_ready recv"
proof -
  assume "NL \<notin> set h"
  then have "takeWhile (\<lambda>x. x \<noteq> NL) h = h" by (intro takeWhile_eq_all_conv [THEN iffD2]) auto
  then have "length (takeWhile (\<lambda>x. x \<noteq> NL) h) = length h" by (rule arg_cong)
  then have "memchr NL h = None" unfolding memchr_def Let_def by (simp only: if_False less_irrefl)
  then show ?thesis by (subst parse_loop.simps) (simp only: option.case)
qed

text \<open>The spans of a packet's records, from the position of its first byte.\<close>

fun record_spans :: "int \<Rightarrow> string list \<Rightarrow> Bytes list" where
  "record_spans pos [] = []"
| "record_spans pos (s # ss) =
     Bytes (pos + int (length (show_int (int (length s)))) + 1) (int (length s)) #
     record_spans (pos + int (length (record_bytes s))) ss"

lemma packet_bytes_Cons: "packet_bytes (s # ss) = record_bytes s @ packet_bytes ss"
  by (simp add: packet_bytes_def)

lemma parse_loop_packet:
  "0 \<le> parsed \<Longrightarrow> parsed + int (length (packet_bytes ss)) \<le> MAX_PACKET_SIZE \<Longrightarrow>
   parse_loop base (packet_bytes ss @ rest) parsed recv =
     Packet (parsed + int (length (packet_bytes ss))) (recv @ record_spans (base + parsed) ss)"
proof (induction ss arbitrary: parsed recv)
  case Nil
  then show ?case by (simp add: packet_bytes_def parse_loop_end)
next
  case (Cons s ss)
  then have fits: "parsed + int (length (record_bytes s)) \<le> MAX_PACKET_SIZE"
    by (simp add: packet_bytes_Cons)
  have split: "packet_bytes (s # ss) @ rest = record_bytes s @ (packet_bytes ss @ rest)"
    by (simp add: packet_bytes_Cons)
  show ?case
    unfolding split parse_loop_record [OF refl fits Cons.prems(1)]
    using Cons.IH [of "parsed + int (length (record_bytes s))"] Cons.prems
    by (simp add: packet_bytes_Cons ac_simps)
qed

lemma record_spans_read:
  assumes "wf_buffer b"
  shows "drop k (queued b) = concat (map record_bytes ss) @ rest \<Longrightarrow>
   map (bytes_in b) (record_spans (data_off b + int k) ss) = ss"
proof (induction ss arbitrary: k)
  case Nil
  then show ?case by simp
next
  case (Cons s ss)
  let ?d = "show_int (int (length s))"
  have d: "drop k (queued b) = ?d @ NL # (s @ NL # (concat (map record_bytes ss) @ rest))"
    using Cons.prems unfolding record_bytes_def by (simp only: list.map concat.simps append.simps append_assoc append_Cons append_Nil)
  have len: "k + length ?d + 1 + length s \<le> length (queued b)"
    using arg_cong [OF d, of length] by simp
  have s: "span (k + length ?d + 1) (length s) (queued b) = s"
    using arg_cong [OF d, of "\<lambda>x. take (length s) (drop (length ?d + 1) x)"]
    by (simp add: span_def ac_simps)
  have "span (nat (data_off b) + (k + length ?d + 1)) (length s) (buf b) = s"
    using s len span_span [of "k + length ?d + 1" "length s" "nat (data_size b)" "nat (data_off b)" "buf b"]
    by (simp add: queued_def [symmetric] length_queued_nat [OF assms])
  moreover have "nat (data_off b + int k + int (length ?d) + 1) = nat (data_off b) + (k + length ?d + 1)"
    using assms by (simp add: wf_buffer_def nat_add_distrib)
  ultimately have hd: "bytes_in b (Bytes (data_off b + int k + int (length ?d) + 1) (int (length s))) = s"
    by (simp add: bytes_in_def)
  have "drop (k + length (record_bytes s)) (queued b) = concat (map record_bytes ss) @ rest"
    using arg_cong [OF Cons.prems, of "drop (length (record_bytes s))"]
    by (simp add: add.commute)
  from Cons.IH [OF this] hd show ?case by (simp add: add.assoc)
qed

text \<open>A strict prefix of a packet is never taken for one.\<close>

lemma parse_loop_prefix:
  "0 \<le> parsed \<Longrightarrow> parsed + int (length (packet_bytes ss)) \<le> MAX_PACKET_SIZE \<Longrightarrow>
   k < length (packet_bytes ss) \<Longrightarrow>
   \<exists>recv'. parse_loop base (take k (packet_bytes ss)) parsed recv = Not_ready recv'"
proof (induction ss arbitrary: k parsed recv)
  case Nil
  then show ?case by (simp add: packet_bytes_def parse_loop_no_line)
next
  case (Cons s ss)
  let ?d = "show_int (int (length s))" and ?r = "length (record_bytes s)"
  have fits: "parsed + int ?r \<le> MAX_PACKET_SIZE" using Cons.prems by (simp add: packet_bytes_Cons)
  show ?case
  proof (cases "?r \<le> k")
    case True
    then have "take k (packet_bytes (s # ss)) = record_bytes s @ take (k - ?r) (packet_bytes ss)"
      by (simp add: packet_bytes_Cons)
    from parse_loop_record [OF this fits Cons.prems(1)]
    show ?thesis
      using Cons.IH [of "parsed + int ?r" "k - ?r"] Cons.prems True
      by (simp add: packet_bytes_Cons)
  next
    case False
    then have cut: "take k (packet_bytes (s # ss)) = take k (?d @ NL # (s @ [NL]))"
      by (simp add: packet_bytes_Cons record_bytes_def take_Cons' take_append)
    show ?thesis
    proof (cases "k \<le> length ?d")
      case True
      have "NL \<notin> set (take k ?d)"
        using NL_notin_show_int [of "int (length s)"] by (auto dest: in_set_takeD)
      with True show ?thesis by (simp add: cut parse_loop_no_line)
    next
      case big: False
      let ?j = "k - (length ?d + 1)"
      have j: "?j \<le> length s" using False by (simp add: record_bytes_def)
      have h: "take k (packet_bytes (s # ss)) = ?d @ NL # take ?j s"
        using big j by (simp add: cut take_Cons' )
      have "int (length s) + 11 \<le> INT_MAX" using fits Cons.prems(1) by (simp add: record_bytes_def)
      from parse_loop_header [OF h _ this] j show ?thesis
        by (auto simp: Let_def starts_with_def)
    qed
  qed
qed

lemma nice_low: "nice b = Done b' \<Longrightarrow> 0 \<le> total_size b \<Longrightarrow> data_off b' \<le> total_size b div 2"
  by (auto simp: nice_def split: if_splits)

lemma make_room_ok:
  assumes "wf_buffer b" and "total_size b < 1073741824"
  shows "\<exists>ok b'. make_room H b = Done (ok, b') \<and> wf_buffer b' \<and> queued b' = queued b \<and>
    ((\<forall>n. can_alloc H n) \<longrightarrow> ok) \<and> (ok \<longrightarrow> 0 < space b') \<and> total_size b \<le> total_size b' \<and>
    (data_size b < 268435456 \<longrightarrow> total_size b' < 1073741824)"
proof (cases "space b = 0")
  case False
  with assms show ?thesis by (auto simp: make_room_def wf_buffer_def space_def)
next
  case True
  from nice_ok [OF assms(1)] obtain b1 where b1: "nice b = Done b1" "wf_buffer b1"
    "queued b1 = queued b" "data_size b1 = data_size b" "total_size b1 = total_size b" by blast
  show ?thesis
  proof (cases "space b1 = 0")
    case full: True
    from b1(5) assms(2) have "total_size b1 < 1073741824" by simp
    from grow_ok [OF b1(2) this, of H] obtain r b2 where b2: "grow H b1 = Done (r, b2)"
      "wf_buffer b2" "queued b2 = queued b1" "data_off b2 = data_off b1" "data_size b2 = data_size b1"
      "r = -1 \<and> b2 = b1 \<and> \<not> can_alloc H (grow_size (total_size b1)) \<or>
       r = total_size b2 \<and> total_size b1 < r" by blast
    have sp: "r \<noteq> -1 \<Longrightarrow> 0 < space b2" using b2 full by (auto simp: space_def)
    have "data_off b1 \<le> total_size b div 2"
      using nice_low [OF b1(1)] assms(1) by (simp add: wf_buffer_def)
    then have "total_size b1 \<le> 2 * data_size b + 1"
      using full b1(4,5) by (simp add: space_def)
    then have "data_size b < 268435456 \<Longrightarrow> grow_size (total_size b1) < 1073741824"
      by (auto simp: grow_size_def)
    moreover have "total_size b2 = grow_size (total_size b1) \<or> total_size b2 = total_size b1"
      using b2(1) by (auto simp: grow_def Let_def split: if_splits)
    ultimately have "data_size b < 268435456 \<longrightarrow> total_size b2 < 1073741824"
      using b1(5) assms(2) by auto
    with sp True full b1 b2 show ?thesis by (auto simp: make_room_def wf_buffer_def)
  next
    case False
    with True b1 assms show ?thesis by (auto simp: make_room_def wf_buffer_def space_def)
  qed
qed

lemma digit_not_blank: "is_digit c \<Longrightarrow> \<not> leading_blank c"
  using NL_not_digit CR_not_digit by (auto simp: leading_blank_def)

lemma packet_starts_digit: "ss \<noteq> [] \<Longrightarrow> is_digit ((packet_bytes ss @ x) ! 0) \<and> packet_bytes ss \<noteq> []"
  using show_int_first_digit [of "int (length (hd ss))"]
  by (cases ss) (auto simp: packet_bytes_Cons record_bytes_def)

lemma no_blanks:
  assumes "ss \<noteq> []" and "s = take k (packet_bytes ss) \<or> s = packet_bytes ss @ rest"
  shows "takeWhile leading_blank s = []"
proof (cases s)
  case Nil
  then show ?thesis by simp
next
  case (Cons c t)
  note first = packet_starts_digit [OF assms(1), of "[]"]
  from assms(2) have "s ! 0 = packet_bytes ss ! 0"
  proof
    assume t: "s = take k (packet_bytes ss)"
    with Cons have "0 < k" by (cases k) auto
    with t show ?thesis by simp
  next
    assume "s = packet_bytes ss @ rest"
    with first show ?thesis by (simp add: nth_append)
  qed
  with first Cons have "is_digit c" by simp
  with Cons digit_not_blank show ?thesis by simp
qed

lemma parse_packet:
  assumes "wf_buffer (in_buf L)" and "queued (in_buf L) = packet_bytes ss @ rest" and "ss \<noteq> []"
    and "int (length (packet_bytes ss)) \<le> MAX_PACKET_SIZE"
  shows "\<exists>xs L'. Link_parse H L = Done (Some xs, L') \<and> map (bytes_in (in_buf L')) xs = ss \<and>
    wf_buffer (in_buf L') \<and> queued (in_buf L') = rest \<and> L' = L\<lparr>in_buf := in_buf L', recv_data := xs\<rparr>"
proof -
  let ?b = "in_buf L" and ?n = "int (length (packet_bytes ss))"
  have n: "?n \<le> data_size ?b" using length_queued [OF assms(1)] assms(2) by simp
  have "\<not> empty ?b" using n packet_starts_digit [OF assms(3)] by (auto simp: empty_def)
  moreover have "parse_loop (data_off ?b) (queued ?b) 0 [] = Packet ?n (record_spans (data_off ?b) ss)"
    using parse_loop_packet [of 0 ss "data_off ?b" rest "[]"] assms(2,4) by simp
  moreover have "takeWhile leading_blank (queued ?b) = []"
    using no_blanks [OF assms(3)] assms(2) by blast
  ultimately have p: "Link_parse H L = Done (Some (record_spans (data_off ?b) ss),
      L\<lparr>in_buf := decr ?n ?b, recv_data := record_spans (data_off ?b) ss\<rparr>)"
    by (simp add: Link_parse_def Let_def)
  have "map (bytes_in ?b) (record_spans (data_off ?b) ss) = ss"
    using record_spans_read [OF assms(1), of 0 ss "NL # rest"] assms(2)
    by (simp add: packet_bytes_def)
  moreover have "bytes_in (decr ?n ?b) = bytes_in ?b"
    by (rule ext) (simp add: bytes_in_def decr_def)
  ultimately show ?thesis
    using p n assms by (auto simp: wf_decr queued_decr)
qed

lemma parse_prefix:
  assumes "wf_buffer (in_buf L)" and "queued (in_buf L) = take k (packet_bytes ss)" and "ss \<noteq> []"
    and "k < length (packet_bytes ss)" and "int (length (packet_bytes ss)) \<le> MAX_PACKET_SIZE"
    and "total_size (in_buf L) < 1073741824" and "\<forall>n. can_alloc H n"
  shows "\<exists>L'. Link_parse H L = Done (Some [], L') \<and> wf_buffer (in_buf L') \<and>
    queued (in_buf L') = queued (in_buf L) \<and> L' = L\<lparr>in_buf := in_buf L', recv_data := []\<rparr> \<and>
    (queued (in_buf L) \<noteq> [] \<longrightarrow> 0 < space (in_buf L')) \<and>
    total_size (in_buf L) \<le> total_size (in_buf L') \<and>
    (data_size (in_buf L) < 268435456 \<longrightarrow> total_size (in_buf L') < 1073741824)"
proof (cases "empty (in_buf L)")
  case True
  with length_queued [OF assms(1)] show ?thesis
    using assms(1,6) by (simp add: Link_parse_def empty_def)
next
  case False
  from parse_loop_prefix [of 0 ss k "data_off (in_buf L)" "[]"] assms(2,4,5) obtain recv where
    "parse_loop (data_off (in_buf L)) (queued (in_buf L)) 0 [] = Not_ready recv" by auto
  moreover have "takeWhile leading_blank (queued (in_buf L)) = []"
    using no_blanks [OF assms(3)] assms(2) by blast
  ultimately show ?thesis
    using make_room_ok [OF assms(1,6), of H] assms(7) False
    by (auto simp: Link_parse_def Let_def)
qed

section \<open>Safety of parsing arbitrary bytes\<close>

definition spans_within :: "int \<Rightarrow> int \<Rightarrow> Bytes list \<Rightarrow> bool" where
  "spans_within lo hi xs \<longleftrightarrow>
     (\<forall>x \<in> set xs. lo \<le> by_off x \<and> 0 \<le> by_len x \<and> by_off x + by_len x \<le> hi)"

lemma spans_within_mono: "spans_within lo hi xs \<Longrightarrow> hi \<le> hi' \<Longrightarrow> spans_within lo hi' xs"
  by (force simp: spans_within_def)

fun result_safe :: "int \<Rightarrow> int \<Rightarrow> int \<Rightarrow> parse_result \<Rightarrow> bool" where
  "result_safe base parsed sz (Packet p xs) \<longleftrightarrow>
     parsed < p \<and> p \<le> parsed + sz \<and> spans_within base (base + p) xs"
| "result_safe base parsed sz r \<longleftrightarrow> True"

lemma result_safe_step:
  "result_safe base parsed1 size1 r \<Longrightarrow> parsed \<le> parsed1 \<Longrightarrow> parsed1 + size1 \<le> parsed + sz \<Longrightarrow>
   result_safe base parsed sz r"
  by (cases r) auto

text \<open>One turn: what follows a record that is there.\<close>

definition after_record :: "int \<Rightarrow> string \<Rightarrow> int \<Rightarrow> Bytes list \<Rightarrow> parse_result" where
  "after_record base h parsed recv =
     (if starts_with [NL] h then
        (if parsed + 1 > MAX_PACKET_SIZE then Bad_format recv
         else parse_loop base (drop 1 h) (parsed + 1) recv)
      else if starts_with [CR, NL] h then
        (if parsed + 2 > MAX_PACKET_SIZE then Bad_format recv
         else parse_loop base (drop 2 h) (parsed + 2) recv)
      else Not_ready recv)"

lemma parse_loop_turn:
  obtains "parse_loop base h parsed recv \<in> {Not_ready recv, Bad_format recv, Overflowed}"
  | i where "i < length h" "parse_loop base h parsed recv = Packet (parsed + (int i + 1)) recv"
  | i n where "i < length h" "0 \<le> n" "int i + 1 + n \<le> int (length h)"
      "parse_loop base h parsed recv =
         after_record base (drop (nat (int i + 1 + n)) h) (parsed + (int i + 1 + n))
           (recv @ [Bytes (base + parsed + (int i + 1)) n])"
proof (cases "memchr NL h")
  case None
  then have "parse_loop base h parsed recv = Not_ready recv" by (subst parse_loop.simps) simp
  then show ?thesis by (intro that(1)) simp
next
  case (Some i)
  from memchr_Some [OF Some] have i: "i < length h" by blast
  note unfolded = parse_loop.simps [of base h parsed recv, unfolded Some option.case Let_def]
  consider "int i + 1 = 1 \<or> int i + 1 = 2 \<and> h ! 0 = CR"
    | "\<not> (int i + 1 = 1 \<or> int i + 1 = 2 \<and> h ! 0 = CR)"
      "\<not> is_digit (h ! 0) \<or> int i + 1 > 20 - 1 \<or> atoi (take i h) < 0 \<or>
       int i + 1 + atoi (take i h) > INT_MAX \<or> int (length h) - (int i + 1 + atoi (take i h)) < 0"
    | "\<not> (int i + 1 = 1 \<or> int i + 1 = 2 \<and> h ! 0 = CR)"
      "is_digit (h ! 0)" "\<not> int i + 1 > 20 - 1" "\<not> atoi (take i h) < 0"
      "\<not> int i + 1 + atoi (take i h) > INT_MAX" "\<not> int (length h) - (int i + 1 + atoi (take i h)) < 0"
    by blast
  then show ?thesis
  proof cases
    case 1
    show ?thesis by (rule that(2) [OF i]) (simp only: unfolded if_P [OF 1])
  next
    case 2
    have "parse_loop base h parsed recv \<in> {Not_ready recv, Bad_format recv, Overflowed}"
      unfolding unfolded if_not_P [OF 2(1)] using 2(2)
      by (cases "is_digit (h ! 0)"; cases "int i + 1 > 20 - 1"; cases "atoi (take i h) < 0";
          cases "int i + 1 + atoi (take i h) > INT_MAX")
        (simp_all only: if_True if_False not_True_eq_False not_False_eq_True simp_thms insert_iff)
    then show ?thesis by (rule that(1))
  next
    case 3
    show ?thesis
    proof (rule that(3) [OF i])
      show "parse_loop base h parsed recv =
         after_record base (drop (nat (int i + 1 + atoi (take i h))) h)
           (parsed + (int i + 1 + atoi (take i h)))
           (recv @ [Bytes (base + parsed + (int i + 1)) (atoi (take i h))])"
        using 3 by (simp only: unfolded after_record_def if_False not_True_eq_False if_True simp_thms)
    qed (use 3 in auto)
  qed
qed

lemma parse_loop_safe:
  "0 \<le> parsed \<Longrightarrow> spans_within base (base + parsed) recv \<Longrightarrow>
   result_safe base parsed (int (length h)) (parse_loop base h parsed recv)"
proof (induction "length h" arbitrary: h parsed recv rule: less_induct)
  case less
  show ?case
  proof (cases rule: parse_loop_turn [of base h parsed recv])
    case 1
    then show ?thesis by auto
  next
    case (2 i)
    then show ?thesis using less.prems by (auto intro: spans_within_mono)
  next
    case (3 i n)
    let ?h = "drop (nat (int i + 1 + n)) h" and ?p = "parsed + (int i + 1 + n)"
    let ?recv = "recv @ [Bytes (base + parsed + (int i + 1)) n]"
    have sp: "\<And>d. 0 \<le> d \<Longrightarrow> spans_within base (base + (?p + d)) ?recv"
      using 3(2) less.prems by (force simp: spans_within_def)
    have go: "result_safe base parsed (int (length h)) (parse_loop base (drop d ?h) (?p + int d) ?recv)"
      if "d \<le> length ?h" for d
    proof -
      have "result_safe base (?p + int d) (int (length (drop d ?h)))
          (parse_loop base (drop d ?h) (?p + int d) ?recv)"
        using 3(1,2,3) less.prems(1) by (intro less.hyps sp) auto
      then show ?thesis
        by (rule result_safe_step) (use 3(1,2,3) that in auto)
    qed
    have "starts_with [NL] ?h \<Longrightarrow> 1 \<le> length ?h" "starts_with [CR, NL] ?h \<Longrightarrow> 2 \<le> length ?h"
      by (auto simp: starts_with_def dest: arg_cong [where f = length])
    with go [of 1] go [of 2] show ?thesis
      unfolding 3(4) after_record_def by simp
  qed
qed

lemma Link_parse_safe:
  assumes "wf_buffer (in_buf L)" and "total_size (in_buf L) < 1073741824"
  shows "Link_parse H L = Fault Int_overflow \<or>
    (\<exists>r L' k. Link_parse H L = Done (r, L') \<and> wf_buffer (in_buf L') \<and>
       queued (in_buf L') = drop k (queued (in_buf L)) \<and> L' = L\<lparr>in_buf := in_buf L', recv_data := recv_data L'\<rparr> \<and>
       (\<forall>xs. r = Some xs \<longrightarrow>
          spans_within (data_off (in_buf L)) (data_off (in_buf L) + data_size (in_buf L)) xs))"
proof (cases "empty (in_buf L)")
  case True
  with assms show ?thesis
    by (auto simp: Link_parse_def spans_within_def intro!: exI [of _ 0])
next
  case False
  let ?b = "in_buf L"
  let ?k = "length (takeWhile leading_blank (queued ?b))"
  let ?r = "parse_loop (data_off ?b) (drop ?k (queued ?b)) (int ?k) []"
  have k: "int ?k + int (length (drop ?k (queued ?b))) = data_size ?b"
    using length_queued [OF assms(1)] length_takeWhile_le [of leading_blank "queued ?b"] by simp
  have safe: "result_safe (data_off ?b) (int ?k) (int (length (drop ?k (queued ?b)))) ?r"
    by (rule parse_loop_safe) (simp_all add: spans_within_def)
  show ?thesis
  proof (cases ?r)
    case (Packet p xs)
    with safe k have p: "0 \<le> p" "p \<le> data_size ?b"
      and xs: "spans_within (data_off ?b) (data_off ?b + data_size ?b) xs"
      by (auto intro: spans_within_mono)
    from Packet False have "Link_parse H L =
        Done (Some xs, L\<lparr>in_buf := decr p ?b, recv_data := xs\<rparr>)"
      by (simp add: Link_parse_def Let_def)
    with p xs assms(1) show ?thesis
      by (auto simp: wf_decr queued_decr)
  next
    case (Bad_format xs)
    with False assms show ?thesis
      by (auto simp: Link_parse_def Let_def intro!: exI [of _ 0])
  next
    case (Not_ready xs)
    from make_room_ok [OF assms, of H] obtain ok b' where
      "make_room H ?b = Done (ok, b')" "wf_buffer b'" "queued b' = queued ?b" by blast
    with Not_ready False show ?thesis
      by (auto simp: Link_parse_def Let_def spans_within_def intro!: exI [of _ 0])
  next
    case Overflowed
    with False show ?thesis by (simp add: Link_parse_def Let_def)
  qed
qed

section \<open>Properties\<close>

text \<open>C11. What one link sends, another one parses: sending a non-empty list of records queues one
  packet, and a link whose input starts with these bytes (anything may follow) parses exactly those
  records, keeps what follows queued and leaves its buffer well-formed. Packets longer than
  \<open>MAX_PACKET_SIZE\<close> are excluded, and \<open>realloc\<close> is taken to succeed.\<close>

theorem send_then_parse:
  assumes "can_take (out_buf A) (packet_room ss)" and "queued (out_buf A) = []" and "ss \<noteq> []"
    and "\<forall>n. can_alloc H n" and "int (length (packet_bytes ss)) \<le> MAX_PACKET_SIZE"
  shows "\<exists>A'. Link_send_bytes H ss A = Done (0, A') \<and> wf_buffer (out_buf A') \<and>
    (\<forall>B rest. wf_buffer (in_buf B) \<and> queued (in_buf B) = queued (out_buf A') @ rest \<longrightarrow>
      (\<exists>xs B'. Link_parse H B = Done (Some xs, B') \<and> map (bytes_in (in_buf B')) xs = ss \<and>
         wf_buffer (in_buf B') \<and> queued (in_buf B') = rest))"
proof -
  from send_bytes_ok [OF assms(1,4)] obtain A' where A': "Link_send_bytes H ss A = Done (0, A')"
    "can_take (out_buf A') 0" "queued (out_buf A') = packet_bytes ss" using assms(2) by auto
  have "\<exists>xs B'. Link_parse H B = Done (Some xs, B') \<and> map (bytes_in (in_buf B')) xs = ss \<and>
      wf_buffer (in_buf B') \<and> queued (in_buf B') = rest"
    if "wf_buffer (in_buf B)" "queued (in_buf B) = queued (out_buf A') @ rest" for B rest
    using parse_packet [OF that(1) that(2) [unfolded A'(3)] assms(3,5), of H] by blast
  with A' show ?thesis unfolding can_take_def by blast
qed

theorem send_then_parse_witness:
  "\<exists>A'. Link_send_bytes \<lparr>can_alloc = \<lambda>n. True, junk = \<lambda>n. CHR ''?''\<rparr> [''get'', ''k'']
      (Link_new \<lparr>can_alloc = \<lambda>n. True, junk = \<lambda>n. CHR ''?''\<rparr>) = Done (0, A') \<and>
    wf_buffer (out_buf A')"
  using send_then_parse
    [of "Link_new \<lparr>can_alloc = \<lambda>n. True, junk = \<lambda>n. CHR ''?''\<rparr>" "[''get'', ''k'']"
      "\<lparr>can_alloc = \<lambda>n. True, junk = \<lambda>n. CHR ''?''\<rparr>"]
  by (auto simp: Link_new_def can_take_def wf_Buffer_new packet_room_def slot_def Buffer_new_def
      packet_bytes_def record_bytes_def show_int_def show_nat.simps wf_buffer_def queued_def)

text \<open>C12. An incomplete packet is reported as "not ready" at whatever byte it is cut: \<open>parse\<close> returns
  the empty list, keeps every queued byte and leaves room for the next read.\<close>

theorem cut_packet_not_ready:
  assumes "wf_buffer (in_buf L)" and "queued (in_buf L) = take k (packet_bytes ss)" and "ss \<noteq> []"
    and "0 < k" and "k < length (packet_bytes ss)"
    and "int (length (packet_bytes ss)) \<le> MAX_PACKET_SIZE"
    and "total_size (in_buf L) < 1073741824" and "\<forall>n. can_alloc H n"
  shows "\<exists>L'. Link_parse H L = Done (Some [], L') \<and> queued (in_buf L') = queued (in_buf L) \<and>
    wf_buffer (in_buf L') \<and> 0 < space (in_buf L')"
  using parse_prefix [OF assms(1,2,3,5,6,7,8)] assms(2,4,5) by auto

theorem cut_packet_not_ready_witness:
  "\<exists>L'. Link_parse \<lparr>can_alloc = \<lambda>n. True, junk = \<lambda>n. CHR ''?''\<rparr>
      ((Link_new \<lparr>can_alloc = \<lambda>n. True, junk = \<lambda>n. CHR ''?''\<rparr>)
         \<lparr>in_buf := Buffer_wrap (take 3 (packet_bytes [''get'']))\<rparr>) = Done (Some [], L') \<and>
    0 < space (in_buf L')"
proof -
  have len: "length (packet_bytes [''get'']) = 7"
    by (simp add: packet_bytes_def record_bytes_def show_int_def show_nat.simps)
  show ?thesis
    using cut_packet_not_ready
      [of "(Link_new \<lparr>can_alloc = \<lambda>n. True, junk = \<lambda>n. CHR ''?''\<rparr>)
         \<lparr>in_buf := Buffer_wrap (take 3 (packet_bytes [''get'']))\<rparr>" 3 "[''get'']"
        "\<lparr>can_alloc = \<lambda>n. True, junk = \<lambda>n. CHR ''?''\<rparr>"]
    by (auto simp: wf_Buffer_wrap len Buffer_wrap_def [THEN arg_cong, of total_size])
qed

text \<open>C13. On arbitrary input \<open>parse\<close> never reads outside the queued bytes: every \<open>Bytes\<close> of its
  result lies inside them, it consumes a prefix, and the buffer stays well-formed. The only thing
  that can go wrong is the overflow of \<open>head_len + body_len\<close>.\<close>

theorem parse_arbitrary_bytes:
  assumes "wf_buffer (in_buf L)" and "total_size (in_buf L) < 1073741824"
  shows "Link_parse H L = Fault Int_overflow \<or>
    (\<exists>r L' k. Link_parse H L = Done (r, L') \<and> wf_buffer (in_buf L') \<and>
       queued (in_buf L') = drop k (queued (in_buf L)) \<and>
       (\<forall>xs. r = Some xs \<longrightarrow>
          spans_within (data_off (in_buf L)) (data_off (in_buf L) + data_size (in_buf L)) xs))"
  using Link_parse_safe [OF assms, of H] by blast

theorem parse_arbitrary_bytes_witness:
  "Link_parse \<lparr>can_alloc = \<lambda>n. True, junk = \<lambda>n. CHR ''?''\<rparr>
      ((Link_new \<lparr>can_alloc = \<lambda>n. True, junk = \<lambda>n. CHR ''?''\<rparr>)
         \<lparr>in_buf := Buffer_wrap ''x''\<rparr>) \<noteq> Fault Null_deref"
  using parse_arbitrary_bytes
    [of "(Link_new \<lparr>can_alloc = \<lambda>n. True, junk = \<lambda>n. CHR ''?''\<rparr>)\<lparr>in_buf := Buffer_wrap ''x''\<rparr>"
      "\<lparr>can_alloc = \<lambda>n. True, junk = \<lambda>n. CHR ''?''\<rparr>"]
  by (auto simp: wf_Buffer_wrap Buffer_wrap_def [THEN arg_cong, of total_size])

end
