(* ===== verification/LinkExchange.thy ===== *)
theory LinkExchange
  imports SsdbLink
begin

text \<open>
  The exchanges of \<open>server-5204/link.cpp\<close> that combine parsing with the socket: the read and write
  loops conserve the byte stream, \<open>flush\<close> sends everything, and \<open>response\<close> and \<open>request\<close>.
\<close>

section \<open>Reading conserves the stream\<close>

fun arrived :: "read_event list \<Rightarrow> string" where
  "arrived [] = []"
| "arrived (Arrived bs # evs) = bs @ arrived evs"
| "arrived (Read_err e # evs) = arrived evs"

lemma read_loop_full: "space b \<le> 0 \<Longrightarrow> read_loop nb evs ret b = Some (Done (Got ret, b, evs))"
  by (subst read_loop.simps) (simp only: if_True)

lemma read_loop_Nil: "\<not> space b \<le> 0 \<Longrightarrow> read_loop nb [] ret b = None"
  by (subst read_loop.simps) (simp only: if_False list.case)

lemma read_loop_err:
  "\<not> space b \<le> 0 \<Longrightarrow> read_loop nb (Read_err e # evs) ret b =
     (if e = EINTR then read_loop nb evs ret b
      else if e = EWOULDBLOCK then Some (Done (Got ret, b, evs))
      else Some (Done (Failed, b, evs)))"
  by (subst read_loop.simps) (simp only: if_False list.case read_event.case)

lemma read_loop_arrived:
  "\<not> space b \<le> 0 \<Longrightarrow> read_loop nb (Arrived bs # evs) ret b =
     (let want = nat (space b);
          got = take want bs;
          left = (if length bs \<le> want then evs else Arrived (drop want bs) # evs)
      in if got = [] then Some (Done (At_eof, b, left))
         else case write_slot got b of
           Inl f \<Rightarrow> Some (Inl f)
         | Inr b' \<Rightarrow>
             if \<not> nb then Some (Done (Got (ret + int (length got)), b', left))
             else read_loop nb left (ret + int (length got)) b')"
  by (subst read_loop.simps) (simp only: if_False list.case read_event.case)

lemmas read_loop_turns = read_loop_full read_loop_Nil read_loop_err read_loop_arrived

lemma read_loop_ok:
  "wf_buffer b \<Longrightarrow> read_loop nb evs ret b = Some res \<Longrightarrow>
   \<exists>e b' left got. res = Done (e, b', left) \<and> wf_buffer b' \<and> queued b' = queued b @ got \<and>
     arrived evs = got @ arrived left \<and> total_size b' = total_size b \<and>
     read_events_size left + length got \<le> read_events_size evs \<and>
     (\<forall>r. e = Got r \<longrightarrow> r = ret + int (length got))"
proof (induction nb evs ret b rule: read_loop.induct)
  case (1 nb evs ret b)
  show ?case
  proof (cases "space b \<le> 0")
    case True
    with "1.prems" show ?thesis
      by (simp add: read_loop_full) (auto intro!: exI [of _ "[]"])
  next
    case avail: False
    show ?thesis
    proof (cases evs)
      case Nil
      with "1.prems" avail show ?thesis by (simp add: read_loop_turns)
    next
      case (Cons ev evs')
      show ?thesis
      proof (cases ev)
        case (Read_err e)
        note ih = "1.IH"(2) [OF avail Cons Read_err _ "1.prems"(1)]
        consider "e = EINTR" | "e \<noteq> EINTR" by blast
        then show ?thesis
        proof cases
          case 1
          with "1.prems" avail Cons Read_err have "read_loop nb evs' ret b = Some res"
            by (simp add: read_loop_turns)
          from ih [OF 1 this] Cons Read_err show ?thesis by fastforce
        next
          case 2
          with "1.prems" avail Cons Read_err show ?thesis
            by (simp add: read_loop_err split: if_splits) (auto intro!: exI [of _ "[]"])
        qed
      next
        case (Arrived bs)
        let ?want = "nat (space b)"
        let ?got = "take ?want bs"
        let ?left = "if length bs \<le> ?want then evs' else Arrived (drop ?want bs) # evs'"
        have stream: "arrived evs = ?got @ arrived ?left"
          and sz: "read_events_size ?left + length ?got \<le> read_events_size evs"
          using Cons Arrived by auto
        show ?thesis
        proof (cases "?got = []")
          case True
          with "1.prems" avail Cons Arrived have "res = Done (At_eof, b, ?left)"
            by (simp add: read_loop_arrived Let_def)
          with True stream sz "1.prems" show ?thesis by (intro exI [of _ At_eof] exI [of _ b] exI [of _ ?left] exI [of _ "[]"]) auto
        next
          case False
          have "int (length ?got) \<le> space b" using avail by simp
          from write_slot_ok [OF "1.prems"(1) this] obtain b1 where w: "write_slot ?got b = Done b1"
            "wf_buffer b1" "queued b1 = queued b @ ?got" by blast
          have tot: "total_size b1 = total_size b"
            using w(1) by (auto simp: write_slot_def split: if_splits)
          show ?thesis
          proof (cases nb)
            case True
            with "1.prems" avail Cons Arrived False w(1)
            have "read_loop nb ?left (ret + int (length ?got)) b1 = Some res"
              by (simp add: read_loop_arrived Let_def)
            moreover from True have "\<not> \<not> nb" by simp
            ultimately obtain e b' left got where "res = Done (e, b', left)" "wf_buffer b'"
              "queued b' = queued b1 @ got" "arrived ?left = got @ arrived left"
              "total_size b' = total_size b1"
              "read_events_size left + length got \<le> read_events_size ?left"
              "\<forall>r. e = Got r \<longrightarrow> r = ret + int (length ?got) + int (length got)"
              using "1.IH"(1) [OF avail Cons Arrived refl refl refl False w(1) _ w(2)] by blast
            with w stream sz tot show ?thesis
              by (intro exI [of _ e] exI [of _ b'] exI [of _ left] exI [of _ "?got @ got"]) (simp add: add.assoc)
          next
            case nonb: False
            with "1.prems" avail Cons Arrived False w(1)
            have "res = Done (Got (ret + int (length ?got)), b1, ?left)"
              by (simp add: read_loop_arrived Let_def)
            with w stream sz tot show ?thesis 
              by (intro exI [of _ "Got (ret + int (length ?got))"] exI [of _ b1] exI [of _ ?left]
                  exI [of _ ?got]) simp
          qed
        qed
      qed
    qed
  qed
qed

lemma first_grow_ok:
  assumes "wf_buffer b"
  shows "\<exists>b'. first_grow H b = Done b' \<and> wf_buffer b' \<and> queued b' = queued b \<and>
    data_off b' = data_off b \<and> data_size b' = data_size b \<and> total_size b \<le> total_size b' \<and>
    total_size b' \<le> max (total_size b) 8192"
proof (cases "total_size b = INIT_BUFFER_SIZE")
  case True
  then have "total_size b < 1073741824" by simp
  from grow_ok [OF assms this, of H] obtain r b' where g: "grow H b = Done (r, b')" "wf_buffer b'"
    "queued b' = queued b" "data_off b' = data_off b" "data_size b' = data_size b"
    "r = -1 \<and> b' = b \<and> \<not> can_alloc H (grow_size (total_size b)) \<or>
     r = total_size b' \<and> total_size b < r" by blast
  have "total_size b' \<le> max (total_size b) 8192"
    using g(1) True by (auto simp: grow_def grow_size_def Let_def split: if_splits)
  with g True show ?thesis by (auto simp: first_grow_def)
next
  case False
  with assms show ?thesis by (auto simp: first_grow_def)
qed

text \<open>\<open>Link::read\<close> only moves bytes from the kernel to the end of the queue.\<close>

lemma Link_read_ok:
  assumes "wf_buffer (in_buf L)" and "Link_read H evs L = Some res"
  shows "\<exists>r L' left got. res = Done (r, L', left) \<and> L' = L\<lparr>in_buf := in_buf L'\<rparr> \<and>
    wf_buffer (in_buf L') \<and> queued (in_buf L') = queued (in_buf L) @ got \<and>
    arrived evs = got @ arrived left \<and> (0 < r \<longrightarrow> r = int (length got)) \<and>
    read_events_size left + length got \<le> read_events_size evs \<and>
    total_size (in_buf L) \<le> total_size (in_buf L') \<and>
    total_size (in_buf L') \<le> max (total_size (in_buf L)) 8192"
proof -
  from first_grow_ok [OF assms(1), of H] obtain b1 where b1: "first_grow H (in_buf L) = Done b1"
    "wf_buffer b1" "queued b1 = queued (in_buf L)" "total_size (in_buf L) \<le> total_size b1"
    "total_size b1 \<le> max (total_size (in_buf L)) 8192" by blast
  from nice_ok [OF b1(2)] obtain b2 where b2: "nice b1 = Done b2" "wf_buffer b2"
    "queued b2 = queued b1" "total_size b2 = total_size b1" by blast
  from assms(2) b1(1) b2(1) obtain res' where
    loop: "read_loop (noblock_flag L) evs 0 b2 = Some res'"
    and res: "res = map_sum id (\<lambda>(e, b, left).
        (case e of Got ret \<Rightarrow> ret | At_eof \<Rightarrow> 0 | Failed \<Rightarrow> -1, L\<lparr>in_buf := b\<rparr>, left)) res'"
    by (auto simp: Link_read_def)
  from read_loop_ok [OF b2(2) loop] obtain e b' left got where l: "res' = Done (e, b', left)"
    "wf_buffer b'" "queued b' = queued b2 @ got" "arrived evs = got @ arrived left"
    "total_size b' = total_size b2" "read_events_size left + length got \<le> read_events_size evs"
    "\<forall>r. e = Got r \<longrightarrow> r = 0 + int (length got)" by blast
  show ?thesis
    using l b1 b2 res
    by (intro exI [of _ "case e of Got ret \<Rightarrow> ret | At_eof \<Rightarrow> 0 | Failed \<Rightarrow> -1"]
        exI [of _ "L\<lparr>in_buf := b'\<rparr>"] exI [of _ left] exI [of _ got])
      (simp split: read_end.split)
qed

lemma read_loop_size:
  "read_loop nb evs ret b = Some (Done (e, b', left)) \<Longrightarrow>
   read_events_size left \<le> read_events_size evs \<and>
   (\<forall>r. e = Got r \<longrightarrow> read_events_size left + nat (r - ret) \<le> read_events_size evs)"
proof (induction nb evs ret b rule: read_loop.induct)
  case (1 nb evs ret b)
  show ?case
  proof (cases "space b \<le> 0 \<or> evs = []")
    case True
    with "1.prems" show ?thesis by (cases "space b \<le> 0") (auto simp: read_loop_turns)
  next
    case False
    then obtain ev evs' where avail: "\<not> space b \<le> 0" and Cons: "evs = ev # evs'"
      by (cases evs) auto
    show ?thesis
    proof (cases ev)
      case (Read_err err)
      show ?thesis
      proof (cases "err = EINTR")
        case True
        with "1.prems" avail Cons Read_err have "read_loop nb evs' ret b = Some (Done (e, b', left))"
          by (simp add: read_loop_err)
        from "1.IH"(2) [OF avail Cons Read_err True this] Cons Read_err show ?thesis by auto
      next
        case False
        with "1.prems" avail Cons Read_err show ?thesis by (auto simp: read_loop_err split: if_splits)
      qed
    next
      case (Arrived bs)
      define got where "got = take (nat (space b)) bs"
      define left1 where
        "left1 = (if length bs \<le> nat (space b) then evs' else Arrived (drop (nat (space b)) bs) # evs')"
      have sz: "read_events_size left1 + length got \<le> read_events_size evs"
        using Cons Arrived by (simp add: left1_def got_def)
      note run = "1.prems" [unfolded Cons Arrived read_loop_arrived [OF avail] Let_def,
          folded got_def left1_def]
      consider "got = []" | f where "got \<noteq> []" "write_slot got b = Inl f"
        | b1 where "got \<noteq> []" "write_slot got b = Inr b1" "\<not> nb"
        | b1 where "got \<noteq> []" "write_slot got b = Inr b1" "\<not> \<not> nb"
        by (cases "write_slot got b") auto
      then show ?thesis
      proof cases
        case 4
        with run have "read_loop nb left1 (ret + int (length got)) b1 = Some (Done (e, b', left))"
          by simp
        from "1.IH"(1) [OF avail Cons Arrived refl got_def left1_def 4(1,2,3) this] sz
        show ?thesis by auto
      qed (use run sz in auto)
    qed
  qed
qed

lemma Link_read_progress:
  assumes "Link_read H evs L = Some (Inr (r, L', left))" and "0 < r"
  shows "read_events_size left < read_events_size evs"
proof -
  from assms(1) obtain b2 z where
    z: "read_loop (noblock_flag L) evs 0 b2 = Some z"
      "map_sum id (\<lambda>(e, b, left). (case e of Got ret \<Rightarrow> ret | At_eof \<Rightarrow> 0 | Failed \<Rightarrow> - 1,
         L\<lparr>in_buf := b\<rparr>, left)) z = Done (r, L', left)"
    by (auto simp: Link_read_def split: sum.splits)
  from z(2) obtain e b' where e: "z = Done (e, b', left)"
    "(case e of Got ret \<Rightarrow> ret | At_eof \<Rightarrow> 0 | Failed \<Rightarrow> - 1) = r"
    by (cases z) auto
  with assms(2) have "e = Got r" by (cases e) auto
  with read_loop_size [OF z(1) [unfolded e(1)]] assms(2) show ?thesis by auto
qed

section \<open>Writing conserves the stream\<close>

lemma write_loop_ok:
  "wf_buffer b \<Longrightarrow> write_loop nb evs ret b = Some (r, b', out, left) \<Longrightarrow>
   wf_buffer b' \<and> queued b = out @ queued b' \<and> total_size b' = total_size b \<and>
   (r = -1 \<or> r = ret + int (length out))"
proof (induction nb evs ret b arbitrary: r b' out left rule: write_loop.induct)
  case (1 nb ret b)
  then show ?case by (auto split: if_splits)
next
  case (2 nb ev evs ret b)
  show ?case
  proof (cases "data_size b > 0")
    case False
    with 2 show ?thesis by simp
  next
    case True
    show ?thesis
    proof (cases ev)
      case (Write_err e)
      with 2 True show ?thesis by (auto split: if_splits)
    next
      case (Accepts n)
      define len where "len = min n (nat (data_size b))"
      have len: "0 \<le> int len" "int len \<le> data_size b" using True by (simp_all add: len_def)
      note w = wf_decr [OF "2.prems"(1) len] and q = queued_decr [OF "2.prems"(1) len]
      have split: "queued b = take len (queued b) @ queued (decr (int len) b)" by (simp add: q)
      have tl: "length (take len (queued b)) = len"
        using len length_queued [OF "2.prems"(1)] by simp
      have tot: "total_size (decr (int len) b) = total_size b" by (simp add: decr_def)
      note run = "2.prems"(2) [unfolded write_loop.simps if_P [OF True] Accepts write_event.case Let_def,
          folded len_def]
      consider "len = 0" | "len \<noteq> 0" "\<not> nb" | "len \<noteq> 0" "\<not> \<not> nb" by blast
      then show ?thesis
      proof cases
        case 1
        with run "2.prems"(1) show ?thesis by simp
      next
        case 2
        with run have res: "r = ret + int len" "b' = decr (int len) b" "out = take len (queued b)"
          by auto
        have "r = ret + int (length out)" unfolding res tl ..
        with w split tot show ?thesis unfolding res by blast
      next
        case 3
        with run obtain r1 b1 out1 left1 where
          rec: "write_loop nb evs (ret + int len) (decr (int len) b) = Some (r1, b1, out1, left1)"
          and res: "r = r1" "b' = b1" "out = take len (queued b) @ out1" "left = left1"
          by auto
        from "2.IH"(1) [OF True Accepts len_def refl 3 w rec] res split tl tot show ?thesis by auto
      qed
    qed
  qed
qed

lemma Link_write_ok:
  assumes "wf_buffer (out_buf L)" and "Link_write H evs L = Some res"
  shows "\<exists>r L' out left. res = Done (r, L', out, left) \<and> L' = L\<lparr>out_buf := out_buf L'\<rparr> \<and>
    wf_buffer (out_buf L') \<and> queued (out_buf L) = out @ queued (out_buf L') \<and>
    (r = -1 \<or> r = int (length out))"
proof -
  from first_grow_ok [OF assms(1), of H] obtain b1 where b1: "first_grow H (out_buf L) = Done b1"
    "wf_buffer b1" "queued b1 = queued (out_buf L)" by blast
  with assms(2) obtain r b2 out left where
    loop: "write_loop (noblock_flag L) evs 0 b1 = Some (r, b2, out, left)"
    by (auto simp: Link_write_def write_buffer_def split: option.splits)
  note ok = write_loop_ok [OF b1(2) loop]
  then obtain b3 where b3: "nice b2 = Done b3" "wf_buffer b3" "queued b3 = queued b2"
    using nice_ok by blast
  show ?thesis
    using assms(2) b1 loop ok b3
    by (cases "r = -1") (auto simp: Link_write_def write_buffer_def)
qed

lemma Link_flush_ok:
  "wf_buffer (out_buf L) \<Longrightarrow> Link_flush turns H evs L = Some res \<Longrightarrow>
   \<exists>r L' out left. res = Done (r, L', out, left) \<and> L' = L\<lparr>out_buf := out_buf L'\<rparr> \<and>
     wf_buffer (out_buf L') \<and> queued (out_buf L) = out @ queued (out_buf L') \<and>
     (r = -1 \<or> r = int (length out) \<and> queued (out_buf L') = [])"
proof (induction turns arbitrary: evs L res)
  case 0
  then show ?case
    by (auto simp: empty_def queued_def split: if_splits)
next
  case (Suc turns)
  show ?case
  proof (cases "empty (out_buf L)")
    case True
    with Suc.prems show ?thesis by (auto simp: empty_def queued_def)
  next
    case False
    with Suc.prems(2) obtain res1 where w: "Link_write H evs L = Some res1"
      by (cases "Link_write H evs L") auto
    from Link_write_ok [OF Suc.prems(1) w] obtain r1 L1 out1 left1 where
      1: "res1 = Done (r1, L1, out1, left1)" "L1 = L\<lparr>out_buf := out_buf L1\<rparr>" "wf_buffer (out_buf L1)"
        "queued (out_buf L) = out1 @ queued (out_buf L1)" "r1 = -1 \<or> r1 = int (length out1)" by blast
    show ?thesis
    proof (cases "r1 = -1")
      case True
      with Suc.prems(2) False w 1 have "res = Done (-1, L1, out1, left1)" by simp
      with 1 show ?thesis by blast
    next
      case go: False
      with Suc.prems(2) False w 1 obtain res2 where f: "Link_flush turns H left1 L1 = Some res2"
        by (cases "Link_flush turns H left1 L1") auto
      from Suc.IH [OF 1(3) f] obtain r2 L2 out2 left2 where
        2: "res2 = Done (r2, L2, out2, left2)" "L2 = L1\<lparr>out_buf := out_buf L2\<rparr>"
          "wf_buffer (out_buf L2)" "queued (out_buf L1) = out2 @ queued (out_buf L2)"
          "r2 = -1 \<or> r2 = int (length out2) \<and> queued (out_buf L2) = []" by blast
      have "res = Done (if r2 = -1 then -1 else r1 + r2, L2, out1 @ out2, left2)"
        using Suc.prems(2) False w 1(1) go f 2(1) by simp
      moreover have "L2 = L\<lparr>out_buf := out_buf L2\<rparr>" using 1(2) 2(2) by (metis Link.surjective Link.update_convs(9))
      ultimately show ?thesis using 1 2 go by auto
    qed
  qed
qed

section \<open>response and request\<close>

function Link_response ::
  "heap \<Rightarrow> read_event list \<Rightarrow> Link \<Rightarrow>
   (Bytes list option \<times> Link \<times> read_event list) outcome option" where
  "Link_response H evs L =
     (case Link_parse H L of
        Inl f \<Rightarrow> Some (Inl f)
      | Inr (resp, L1) \<Rightarrow>
          (case resp of
             None \<Rightarrow> Some (Done (None, L1, evs))
           | Some xs \<Rightarrow>
               if xs \<noteq> [] then Some (Done (Some xs, L1, evs))
               else
                 (case Link_read H evs L1 of
                    None \<Rightarrow> None
                  | Some (Inl f) \<Rightarrow> Some (Inl f)
                  | Some (Inr (r, L2, left)) \<Rightarrow>
                      if r \<le> 0 then Some (Done (None, L2, left)) else Link_response H left L2)))"
  by pat_completeness auto
termination
  by (relation "measure (\<lambda>(H, evs, L). read_events_size evs)") (auto dest: Link_read_progress)

declare Link_response.simps [simp del]

text \<open>The five overloads of \<open>request\<close> differ only in the \<open>send\<close> they call.\<close>

definition request_with ::
  "(Link \<Rightarrow> (int \<times> Link) outcome) \<Rightarrow> nat \<Rightarrow> heap \<Rightarrow> write_event list \<Rightarrow> read_event list \<Rightarrow> Link \<Rightarrow>
   (Bytes list option \<times> Link \<times> string) outcome option" where
  "request_with send turns H ws evs L =
     (case send L of
        Inl f \<Rightarrow> Some (Inl f)
      | Inr (r, L1) \<Rightarrow>
          if r = -1 then Some (Done (None, L1, []))
          else
            (case Link_flush turns H ws L1 of
               None \<Rightarrow> None
             | Some (Inl f) \<Rightarrow> Some (Inl f)
             | Some (Inr (r2, L2, out, ws2)) \<Rightarrow>
                 if r2 = -1 then Some (Done (None, L2, out))
                 else map_option (map_sum id (\<lambda>(resp, L3, left). (resp, L3, out)))
                        (Link_response H evs L2)))"

definition Link_request1 where
  "Link_request1 turns H s1 ws evs L = request_with (Link_send1 H s1) turns H ws evs L"

definition Link_request2 where
  "Link_request2 turns H s1 s2 ws evs L = request_with (Link_send2 H s1 s2) turns H ws evs L"

definition Link_request3 where
  "Link_request3 turns H s1 s2 s3 ws evs L =
     request_with (Link_send3 H s1 s2 s3) turns H ws evs L"

definition Link_request4 where
  "Link_request4 turns H s1 s2 s3 s4 ws evs L =
     request_with (Link_send4 H s1 s2 s3 s4) turns H ws evs L"

definition Link_request5 where
  "Link_request5 turns H s1 s2 s3 s4 s5 ws evs L =
     request_with (Link_send5 H s1 s2 s3 s4 s5) turns H ws evs L"

text \<open>A blocking read with something to read gets at least one byte.\<close>

lemma read_chunk:
  assumes "wf_buffer (in_buf L)" and "0 < total_size (in_buf L)" and "\<not> noblock_flag L"
    and "queued (in_buf L) \<noteq> [] \<longrightarrow> 0 < space (in_buf L)" and "c \<noteq> []"
  shows "\<exists>r L' left got. Link_read H (Arrived c # evs) L = Some (Done (r, L', left)) \<and> 0 < r \<and>
    L' = L\<lparr>in_buf := in_buf L'\<rparr> \<and> wf_buffer (in_buf L') \<and>
    queued (in_buf L') = queued (in_buf L) @ got \<and>
    (left = evs \<and> got = c \<or> (\<exists>c'. c' \<noteq> [] \<and> c = got @ c' \<and> left = Arrived c' # evs)) \<and>
    total_size (in_buf L) \<le> total_size (in_buf L') \<and>
    total_size (in_buf L') \<le> max (total_size (in_buf L)) 8192"
proof -
  from first_grow_ok [OF assms(1), of H] obtain b1 where b1: "first_grow H (in_buf L) = Done b1"
    "wf_buffer b1" "queued b1 = queued (in_buf L)" "data_off b1 = data_off (in_buf L)"
    "data_size b1 = data_size (in_buf L)" "total_size (in_buf L) \<le> total_size b1"
    "total_size b1 \<le> max (total_size (in_buf L)) 8192" by blast
  from nice_ok [OF b1(2)] obtain b2 where b2: "nice b1 = Done b2" "wf_buffer b2"
    "queued b2 = queued b1" "data_size b2 = data_size b1" "total_size b2 = total_size b1"
    "data_off b2 \<le> data_off b1" by blast
  have sp: "\<not> space b2 \<le> 0"
  proof (cases "queued (in_buf L) = []")
    case True
    then have "data_size b2 = 0" using length_queued [OF assms(1)] b1 b2 by simp
    moreover have "data_off b2 \<le> total_size b1 div 2"
      using nice_low [OF b2(1)] b1(2) by (simp add: wf_buffer_def)
    ultimately show ?thesis using b1(6) b2(5) assms(2) by (simp add: space_def)
  next
    case False
    with assms(4) b1 b2 show ?thesis by (simp add: space_def)
  qed
  define got where "got = take (nat (space b2)) c"
  have got: "got \<noteq> []" using sp assms(5) by (simp add: got_def)
  have "int (length got) \<le> space b2" using sp by (simp add: got_def)
  from write_slot_ok [OF b2(2) this] obtain b3 where b3: "write_slot got b2 = Done b3"
    "wf_buffer b3" "queued b3 = queued b2 @ got" by blast
  have tot: "total_size b3 = total_size b2"
    using b3(1) by (auto simp: write_slot_def split: if_splits)
  define left where
    "left = (if length c \<le> nat (space b2) then evs else Arrived (drop (nat (space b2)) c) # evs)"
  have "Link_read H (Arrived c # evs) L = Some (Done (int (length got), L\<lparr>in_buf := b3\<rparr>, left))"
    using b1(1) b2(1) b3(1) assms(3,5) got sp
    by (simp add: Link_read_def read_loop_arrived [OF sp] Let_def got_def [symmetric] left_def [symmetric])
  moreover have "left = evs \<and> got = c \<or> (\<exists>c'. c' \<noteq> [] \<and> c = got @ c' \<and> left = Arrived c' # evs)"
    by (auto simp: left_def got_def)
  ultimately show ?thesis
    using b1 b2 b3 tot got
    by (intro exI [of _ "int (length got)"] exI [of _ "L\<lparr>in_buf := b3\<rparr>"] exI [of _ left] exI [of _ got])
      simp
qed

text \<open>However the packet is cut into chunks, \<open>response\<close> puts it together again.\<close>

lemma response_chunks:
  assumes "\<forall>n. can_alloc H n" and "ss \<noteq> []" and "int (length (packet_bytes ss)) \<le> MAX_PACKET_SIZE"
    and "int (length (packet_bytes ss @ rest)) < 268435456"
  shows "wf_buffer (in_buf L) \<Longrightarrow> 0 < total_size (in_buf L) \<Longrightarrow> total_size (in_buf L) < 1073741824 \<Longrightarrow>
    \<not> noblock_flag L \<Longrightarrow> [] \<notin> set cs \<Longrightarrow> queued (in_buf L) @ concat cs = packet_bytes ss @ rest \<Longrightarrow>
    \<exists>xs L' cs'. Link_response H (map Arrived cs) L = Some (Done (Some xs, L', map Arrived cs')) \<and>
      map (bytes_in (in_buf L')) xs = ss \<and> wf_buffer (in_buf L') \<and> [] \<notin> set cs' \<and>
      queued (in_buf L') @ concat cs' = rest"
proof (induction "length (concat cs)" arbitrary: cs L rule: less_induct)
  case less
  let ?q = "queued (in_buf L)" and ?P = "packet_bytes ss"
  show ?case
  proof (cases "length ?P \<le> length ?q")
    case True
    have "?q = ?P @ drop (length ?P) ?q"
      using arg_cong [OF less.prems(6), of "take (length ?P)"] True
      by (metis append_eq_conv_conj append_take_drop_id take_append take_all_iff diff_is_0_eq' take0 append_Nil2)
    then obtain r where r: "?q = ?P @ r" by blast
    from parse_packet [OF less.prems(1) r assms(2,3), of H] obtain xs L' where
      p: "Link_parse H L = Done (Some xs, L')" "map (bytes_in (in_buf L')) xs = ss"
        "wf_buffer (in_buf L')" "queued (in_buf L') = r" by blast
    from p(2) assms(2) have "xs \<noteq> []" by auto
    with p less.prems r show ?thesis
      by (subst Link_response.simps) auto
  next
    case False
    have pre: "?q = take (length ?q) ?P"
      using arg_cong [OF less.prems(6), of "take (length ?q)"] False by simp
    have lq: "length ?q < length ?P" using False by simp
    from parse_prefix [OF less.prems(1) pre assms(2) lq assms(3) less.prems(3) assms(1)]
    obtain L1 where L1: "Link_parse H L = Done (Some [], L1)" "wf_buffer (in_buf L1)"
      "queued (in_buf L1) = ?q" "L1 = L\<lparr>in_buf := in_buf L1, recv_data := []\<rparr>"
      "?q \<noteq> [] \<longrightarrow> 0 < space (in_buf L1)" "total_size (in_buf L) \<le> total_size (in_buf L1)"
      "data_size (in_buf L) < 268435456 \<longrightarrow> total_size (in_buf L1) < 1073741824" by blast
    have "data_size (in_buf L) < 268435456"
      using length_queued [OF less.prems(1)] lq assms(4) by simp
    with L1(7) have small: "total_size (in_buf L1) < 1073741824" by blast
    have nb: "\<not> noblock_flag L1" using L1(4) less.prems(4) by (metis Link.select_convs(2) Link.surjective Link.update_convs(8,11))
    obtain c ds where cs: "cs = c # ds" "c \<noteq> []" "[] \<notin> set ds"
      using less.prems(5,6) False by (cases cs) auto
    have pos: "0 < total_size (in_buf L1)" using L1(6) less.prems(2) by simp
    have sp: "queued (in_buf L1) \<noteq> [] \<longrightarrow> 0 < space (in_buf L1)" using L1(3,5) by simp
    from read_chunk [OF L1(2) pos nb sp cs(2), of H "map Arrived ds"]
    obtain r L2 left got where L2:
      "Link_read H (Arrived c # map Arrived ds) L1 = Some (Done (r, L2, left))" "0 < r"
      "L2 = L1\<lparr>in_buf := in_buf L2\<rparr>" "wf_buffer (in_buf L2)"
      "queued (in_buf L2) = queued (in_buf L1) @ got"
      "left = map Arrived ds \<and> got = c \<or> (\<exists>c'. c' \<noteq> [] \<and> c = got @ c' \<and> left = Arrived c' # map Arrived ds)"
      "total_size (in_buf L1) \<le> total_size (in_buf L2)"
      "total_size (in_buf L2) \<le> max (total_size (in_buf L1)) 8192"
      by blast
    have step: "Link_response H (map Arrived cs) L = Link_response H left L2"
      using L1(1) L2(1,2) cs(1) by (subst Link_response.simps) simp
    have got: "got \<noteq> []"
      using Link_read_ok [OF L1(2) L2(1)] L2(2,5) by auto
    obtain es where es: "left = map Arrived es" "[] \<notin> set es" "concat cs = got @ concat es"
      using L2(6) cs by (metis append_assoc concat.simps(2) list.simps(9) set_ConsD)
    have "length (concat es) < length (concat cs)" using es(3) got by simp
    moreover have "\<not> noblock_flag L2" using L2(3) nb by (metis Link.select_convs(2) Link.surjective Link.update_convs(8))
    moreover have "queued (in_buf L2) @ concat es = ?P @ rest"
      using L2(5) L1(3) es(3) less.prems(6) by simp
    moreover have "0 < total_size (in_buf L2)" "total_size (in_buf L2) < 1073741824"
      using L2(7,8) L1(6) less.prems(2) small by simp_all
    ultimately show ?thesis
      using less.hyps [of es L2] L2(4) es(1,2) step by simp
  qed
qed

section \<open>Properties\<close>

text \<open>C14. The socket loops conserve the byte stream, whatever the kernel does: \<open>read\<close> appends to the
  queue exactly the bytes it takes from the kernel, in order, and \<open>write\<close> removes from the front of
  the queue exactly the bytes it hands over; positive results count these bytes, both buffers stay
  well-formed, and neither ever faults.\<close>

theorem streams_conserved:
  assumes "wf_link L" and "Link_read H revs L = Some rres" and "Link_write H wevs L = Some wres"
  shows "(\<exists>r L' left got. rres = Done (r, L', left) \<and> wf_link L' \<and>
      queued (in_buf L') = queued (in_buf L) @ got \<and> arrived revs = got @ arrived left \<and>
      (0 < r \<longrightarrow> r = int (length got))) \<and>
    (\<exists>r L' out left. wres = Done (r, L', out, left) \<and> wf_link L' \<and>
      queued (out_buf L) = out @ queued (out_buf L') \<and> (0 < r \<longrightarrow> r = int (length out)))"
proof -
  from assms(1) have wf: "wf_buffer (in_buf L)" "wf_buffer (out_buf L)" by (simp_all add: wf_link_def)
  from Link_read_ok [OF wf(1) assms(2)] obtain r L1 left got where
    1: "rres = Done (r, L1, left)" "L1 = L\<lparr>in_buf := in_buf L1\<rparr>" "wf_buffer (in_buf L1)"
      "queued (in_buf L1) = queued (in_buf L) @ got" "arrived revs = got @ arrived left"
      "0 < r \<longrightarrow> r = int (length got)" by blast
  from Link_write_ok [OF wf(2) assms(3)] obtain w L2 out left2 where
    2: "wres = Done (w, L2, out, left2)" "L2 = L\<lparr>out_buf := out_buf L2\<rparr>" "wf_buffer (out_buf L2)"
      "queued (out_buf L) = out @ queued (out_buf L2)" "w = -1 \<or> w = int (length out)" by blast
  have "wf_link L1" using arg_cong [OF 1(2), of out_buf] 1(3) wf by (simp add: wf_link_def)
  moreover have "wf_link L2" using arg_cong [OF 2(2), of in_buf] 2(3) wf by (simp add: wf_link_def)
  moreover have "0 < w \<longrightarrow> w = int (length out)" using 2(5) by auto
  ultimately show ?thesis using 1 2 by blast
qed

theorem streams_conserved_witness:
  "\<exists>r L' left. Link_read \<lparr>can_alloc = \<lambda>n. True, junk = \<lambda>n. CHR ''?''\<rparr> [Arrived ''ab'']
      (Link_new \<lparr>can_alloc = \<lambda>n. True, junk = \<lambda>n. CHR ''?''\<rparr>) = Some (Done (r, L', left)) \<and>
    wf_link L'"
proof -
  let ?H = "\<lparr>can_alloc = \<lambda>n. True, junk = \<lambda>n. CHR ''?''\<rparr>"
  have wf: "wf_link (Link_new ?H)"
    by (simp add: wf_link_def Link_new_def wf_Buffer_new)
  have "\<exists>r L' left. Link_read ?H (Arrived ''ab'' # []) (Link_new ?H) = Some (Done (r, L', left))"
    using read_chunk [of "Link_new ?H" "''ab''" ?H "[]"] wf
    by (fastforce simp: wf_link_def Link_new_def Buffer_new_def queued_def)
  then obtain r L' left where r: "Link_read ?H [Arrived ''ab''] (Link_new ?H) = Some (Done (r, L', left))"
    by blast
  obtain w where "Link_write ?H [] (Link_new ?H) = Some w"
    by (simp add: Link_write_def write_buffer_def first_grow_def Link_new_def Buffer_new_def
        grow_def grow_size_def nice_def)
  from streams_conserved [OF wf r this] r show ?thesis by blast
qed

text \<open>When \<open>flush\<close> returns a count, the output queue is empty and the kernel has taken every byte
  that was queued, in order; when it returns \<open>-1\<close> it took a prefix and the rest is still queued.\<close>

theorem flush_sends_everything:
  assumes "wf_buffer (out_buf L)" and "Link_flush turns H evs L = Some res"
  shows "\<exists>r L' out left. res = Done (r, L', out, left) \<and> wf_buffer (out_buf L') \<and>
    (if r = -1 then queued (out_buf L) = out @ queued (out_buf L')
     else out = queued (out_buf L) \<and> r = int (length out) \<and> queued (out_buf L') = [])"
  using Link_flush_ok [OF assms] by fastforce

theorem flush_sends_everything_witness:
  "\<exists>r L' out left. Link_flush 0 \<lparr>can_alloc = \<lambda>n. True, junk = \<lambda>n. CHR ''?''\<rparr> []
      (Link_new \<lparr>can_alloc = \<lambda>n. True, junk = \<lambda>n. CHR ''?''\<rparr>) = Some (Done (r, L', out, left)) \<and>
    wf_buffer (out_buf L')"
proof -
  let ?H = "\<lparr>can_alloc = \<lambda>n. True, junk = \<lambda>n. CHR ''?''\<rparr>"
  have "wf_buffer (out_buf (Link_new ?H))" by (simp add: Link_new_def wf_Buffer_new)
  moreover have "Link_flush 0 ?H [] (Link_new ?H) = Some (Done (0, Link_new ?H, [], []))"
    by (simp add: Link_new_def empty_def Buffer_new_def)
  ultimately show ?thesis using flush_sends_everything [of "Link_new ?H" 0 ?H "[]"] by blast
qed

text \<open>C15. \<open>response\<close> on a blocking link returns the records of the packet that is on its way, however
  the network cuts the byte stream into chunks and however much of it is already queued, and what
  comes after the packet stays to be read. (Allocation succeeds; the packet respects
  \<open>MAX_PACKET_SIZE\<close>; less than 256 MB are under way.)\<close>

theorem response_reassembles:
  assumes "\<forall>n. can_alloc H n" and "ss \<noteq> []" and "int (length (packet_bytes ss)) \<le> MAX_PACKET_SIZE"
    and "int (length (packet_bytes ss @ rest)) < 268435456"
    and "wf_buffer (in_buf L)" and "0 < total_size (in_buf L)" and "total_size (in_buf L) < 1073741824"
    and "\<not> noblock_flag L" and "[] \<notin> set cs"
    and "queued (in_buf L) @ concat cs = packet_bytes ss @ rest"
  shows "\<exists>xs L' cs'. Link_response H (map Arrived cs) L = Some (Done (Some xs, L', map Arrived cs')) \<and>
    map (bytes_in (in_buf L')) xs = ss \<and> queued (in_buf L') @ concat cs' = rest"
  using response_chunks [OF assms] by blast

theorem response_reassembles_witness:
  "\<exists>xs L' cs'. Link_response \<lparr>can_alloc = \<lambda>n. True, junk = \<lambda>n. CHR ''?''\<rparr>
      (map Arrived [[CHR ''2'', NL, CHR ''o''], [CHR ''k'', NL], [NL]])
      (Link_new \<lparr>can_alloc = \<lambda>n. True, junk = \<lambda>n. CHR ''?''\<rparr>) =
        Some (Done (Some xs, L', map Arrived cs')) \<and>
    map (bytes_in (in_buf L')) xs = [''ok'']"
proof -
  let ?H = "\<lparr>can_alloc = \<lambda>n. True, junk = \<lambda>n. CHR ''?''\<rparr>"
  have p: "packet_bytes [''ok''] = [CHR ''2'', NL, CHR ''o'', CHR ''k'', NL, NL]"
    by code_simp
  show ?thesis
    using response_reassembles [of ?H "[''ok'']" "[]" "Link_new ?H"
        "[[CHR ''2'', NL, CHR ''o''], [CHR ''k'', NL], [NL]]"]
    by (auto simp: p Link_new_def wf_Buffer_new queued_def Buffer_new_def wf_buffer_def)
qed

end
