(* ===== verification/Response.thy ===== *)
theory Response
  imports Prelude
begin

text \<open>
  \<open>server-5204/resp.h\<close> and \<open>resp.cpp\<close>: the list of strings a handler answers with. The integer
  overloads of \<open>add\<close> print into a 20-byte stack array; writing past it is a fault of the model.
\<close>

section \<open>State and operations\<close>

type_synonym Response = "string list"

definition size_resp :: "Response \<Rightarrow> int" where
  "size_resp resp = int (length resp)"

definition push_back :: "string \<Rightarrow> Response \<Rightarrow> Response" where
  "push_back s resp = resp @ [s]"

text \<open>\<open>char buf[20]; sprintf(buf, ...)\<close>: the digits and the final NUL must fit.\<close>

definition sprintf_buf :: "nat \<Rightarrow> string \<Rightarrow> string outcome" where
  "sprintf_buf size_of_buf printed =
     (if length printed + 1 > size_of_buf then Fault Out_of_bounds else Done printed)"

definition add_int64 :: "int \<Rightarrow> Response \<Rightarrow> Response outcome" where
  "add_int64 s resp =
     (case sprintf_buf 20 (show_int s) of Inl f \<Rightarrow> Inl f | Inr buf \<Rightarrow> Done (push_back buf resp))"

definition add_int :: "int \<Rightarrow> Response \<Rightarrow> Response outcome" where
  "add_int s resp = add_int64 s resp"

definition add_uint64 :: "int \<Rightarrow> Response \<Rightarrow> Response outcome" where
  "add_uint64 s resp =
     (case sprintf_buf 20 (show_int s) of Inl f \<Rightarrow> Inl f | Inr buf \<Rightarrow> Done (push_back buf resp))"

definition add_string :: "string \<Rightarrow> Response \<Rightarrow> Response" where
  "add_string s resp = push_back s resp"

text \<open>A C string argument that may be \<open>NULL\<close> is an option.\<close>

definition push_errmsg :: "string option \<Rightarrow> Response \<Rightarrow> Response" where
  "push_errmsg errmsg resp =
     (case errmsg of None \<Rightarrow> resp | Some e \<Rightarrow> push_back (c_str e) resp)"

definition reply_status :: "int \<Rightarrow> string option \<Rightarrow> Response \<Rightarrow> Response" where
  "reply_status status errmsg resp =
     (if status = -1 then push_errmsg errmsg (push_back ''error'' resp)
      else push_back ''ok'' resp)"

definition reply_bool :: "int \<Rightarrow> string option \<Rightarrow> Response \<Rightarrow> Response" where
  "reply_bool status errmsg resp =
     (if status = -1 then push_errmsg errmsg (push_back ''error'' resp)
      else if status = 0 then push_back ''0'' (push_back ''ok'' resp)
      else push_back ''1'' (push_back ''ok'' resp))"

definition reply_int :: "int \<Rightarrow> int \<Rightarrow> Response \<Rightarrow> Response outcome" where
  "reply_int status val resp =
     (if status = -1 then Done (push_back ''error'' resp)
      else add_int64 val (push_back ''ok'' resp))"

definition reply_get :: "int \<Rightarrow> string option \<Rightarrow> string option \<Rightarrow> Response \<Rightarrow> Response" where
  "reply_get status val errmsg resp =
     (if status = -1 then push_errmsg errmsg (push_back ''error'' resp)
      else if status = 0 then push_errmsg errmsg (push_back ''not_found'' resp)
      else (case val of None \<Rightarrow> push_back ''ok'' resp
                      | Some v \<Rightarrow> push_back v (push_back ''ok'' resp)))"

definition reply_list :: "int \<Rightarrow> string list \<Rightarrow> Response \<Rightarrow> Response" where
  "reply_list status xs resp =
     (if status = -1 then push_back ''error'' resp
      else foldl (\<lambda>r x. push_back x r) (push_back ''ok'' resp) xs)"

section \<open>How long a number prints\<close>

lemma show_nat_longer: "k < length (show_nat n) \<longleftrightarrow> 10 ^ k \<le> n" if "0 < k"
proof
  assume "k < length (show_nat n)"
  then show "10 ^ k \<le> n" using show_nat_length_le [of n k] that by (meson leD leI)
next
  assume "10 ^ k \<le> n"
  from show_nat_length_ge [OF this] show "k < length (show_nat n)" by simp
qed

lemma sprintf_show_int:
  assumes "- 9223372036854775808 \<le> s" and "s \<le> 18446744073709551615"
  shows "sprintf_buf 20 (show_int s) =
    (if s \<le> - 1000000000000000000 \<or> 10000000000000000000 \<le> s then Fault Out_of_bounds
     else Done (show_int s))"
proof (cases "s < 0")
  case True
  have "sprintf_buf 20 (show_int s) =
      (if 18 < length (show_nat (nat (- s))) then Fault Out_of_bounds else Done (show_int s))"
    using True by (simp add: sprintf_buf_def show_int_def)
  moreover have "18 < length (show_nat (nat (- s))) \<longleftrightarrow> s \<le> - 1000000000000000000"
    using show_nat_longer [of 18 "nat (- s)"] True by (simp add: le_nat_iff) linarith
  ultimately show ?thesis using True by simp
next
  case False
  have "sprintf_buf 20 (show_int s) =
      (if 19 < length (show_nat (nat s)) then Fault Out_of_bounds else Done (show_int s))"
    using False by (simp add: sprintf_buf_def show_int_def)
  moreover have "19 < length (show_nat (nat s)) \<longleftrightarrow> 10000000000000000000 \<le> s"
    using show_nat_longer [of 19 "nat s"] False by (simp add: le_nat_iff)
  ultimately show ?thesis using False by simp
qed

section \<open>Properties\<close>

text \<open>\<open>reply_int\<close> overruns the 20-byte array of \<open>add(int64_t)\<close> exactly for the successful
  replies with a value of \<open>-10^18\<close> or less; every other \<open>int64_t\<close> is answered as \<open>ok\<close> and its
  decimal form, which reads back as the same number. \<open>add(uint64_t)\<close> overruns exactly from
  \<open>10^19\<close> on.\<close>

theorem reply_int_overrun:
  assumes "- 9223372036854775808 \<le> v" and "v \<le> 9223372036854775807"
    and "0 \<le> u" and "u \<le> 18446744073709551615"
  shows "reply_int status v resp =
      (if status = -1 then Done (resp @ [''error''])
       else if v \<le> - 1000000000000000000 then Fault Out_of_bounds
       else Done (resp @ [''ok'', show_int v])) \<and>
    fst (scan_int (show_int v)) = v \<and>
    (add_uint64 u resp = Fault Out_of_bounds \<longleftrightarrow> 10000000000000000000 \<le> u)"
  using assms sprintf_show_int [of v] sprintf_show_int [of u]
  by (simp add: reply_int_def add_int64_def add_uint64_def push_back_def scan_show_int)

theorem reply_int_overrun_witness:
  "reply_int 1 (- 1000000000000000000) [] = Fault Out_of_bounds"
  using reply_int_overrun [of "- 1000000000000000000" 0 1 "[]"] by simp

end
