(* ===== verification/IpFilter.thy ===== *)
theory IpFilter
  imports Prelude
begin

text \<open>
  \<open>server-5204/util/ip_filter.h\<close>: allow and deny lists of address prefixes. An entry is stored with
  a terminator, \<open>=\<close> for a full address and \<open>@\<close> for a prefix; a lookup takes the first entry above
  the address in the order of \<open>std::string\<close> and compares with that entry only. The two
  \<open>std::set<std::string>\<close> are ordered lists without duplicates.
\<close>

section \<open>State and operations\<close>

record IpFilter =
  deny_all :: bool
  allow_all :: bool
  is_empty :: bool
  deny :: "string list"
  allow :: "string list"

definition IpFilter_new :: IpFilter where
  "IpFilter_new =
     \<lparr>deny_all = False, allow_all = False, is_empty = True, deny = [], allow = []\<rparr>"

definition set_insert :: "string \<Rightarrow> string list \<Rightarrow> string list" where
  "set_insert x xs = (if x \<in> set xs then xs else insort x xs)"

fun upper_bound :: "string list \<Rightarrow> string \<Rightarrow> string option" where
  "upper_bound [] ip = None"
| "upper_bound (x # xs) ip = (if ip < x then Some x else upper_bound xs ip)"

definition check_hit :: "string list \<Rightarrow> string \<Rightarrow> bool" where
  "check_hit m ip =
     (if m = [] then False
      else case upper_bound m ip of
        None \<Rightarrow> False
      | Some prefix \<Rightarrow>
          (let len = length prefix - 1 in
           if prefix ! len = CHR ''='' then take len prefix = ip
           else if length ip > len then take len ip = take len prefix
           else False))"

definition is_full_ip :: "string \<Rightarrow> bool" where
  "is_full_ip ip_prefix \<longleftrightarrow> length (filter (\<lambda>c. c = CHR ''.'') ip_prefix) = 3"

definition entry :: "string \<Rightarrow> string" where
  "entry ip_prefix = ip_prefix @ (if is_full_ip ip_prefix then ''='' else ''@'')"

definition add_allow :: "string \<Rightarrow> IpFilter \<Rightarrow> IpFilter" where
  "add_allow ip_prefix F =
     (if ip_prefix = ''all'' \<or> ip_prefix = ''*'' then F\<lparr>allow_all := True, is_empty := False\<rparr>
      else F\<lparr>allow := set_insert (entry ip_prefix) (allow F), is_empty := False\<rparr>)"

definition add_deny :: "string \<Rightarrow> IpFilter \<Rightarrow> IpFilter" where
  "add_deny ip_prefix F =
     (if ip_prefix = ''all'' \<or> ip_prefix = ''*'' then F\<lparr>deny_all := True, is_empty := False\<rparr>
      else F\<lparr>deny := set_insert (entry ip_prefix) (deny F), is_empty := False\<rparr>)"

definition check_pass :: "IpFilter \<Rightarrow> string \<Rightarrow> bool" where
  "check_pass F ip =
     (if is_empty F then True
      else if check_hit (allow F) ip then True
      else if check_hit (deny F) ip then False
      else if deny_all F then False
      else if allow_all F then True
      else False)"

section \<open>What a list of entries means\<close>

text \<open>An address, a prefix: digits and dots.\<close>

definition ip_char :: "char \<Rightarrow> bool" where
  "ip_char c \<longleftrightarrow> is_digit c \<or> c = CHR ''.''"

definition ip_text :: "string \<Rightarrow> bool" where
  "ip_text s \<longleftrightarrow> (\<forall>c \<in> set s. ip_char c)"

text \<open>The rule an administrator writes down: a full address covers itself, a prefix covers every
  longer address that starts with it (and, as the code has it, has at least one more character).\<close>

definition covers :: "string \<Rightarrow> string \<Rightarrow> bool" where
  "covers p ip \<longleftrightarrow>
     (if is_full_ip p then p = ip else length p < length ip \<and> take (length p) ip = p)"

definition entries :: "string list \<Rightarrow> string list" where
  "entries ps = foldr set_insert (map entry ps) []"

text \<open>No entry of the list starts with another one.\<close>

definition unnested :: "string list \<Rightarrow> bool" where
  "unnested ps \<longleftrightarrow> (\<forall>p \<in> set ps. \<forall>q \<in> set ps. p \<noteq> q \<longrightarrow> take (length p) q \<noteq> p)"

lemma set_set_insert [simp]: "set (set_insert x xs) = insert x (set xs)"
  by (auto simp: set_insert_def set_insort_key)

lemma sorted_set_insert [keeps]: "sorted xs \<Longrightarrow> sorted (set_insert x xs)"
  by (simp add: set_insert_def sorted_insort)

lemma set_entries [simp]: "set (entries ps) = entry ` set ps"
  by (induction ps) (auto simp: entries_def)

lemma sorted_entries: "sorted (entries ps)"
  by (induction ps) (simp_all add: entries_def sorted_set_insert)

lemma upper_bound_Some: "upper_bound xs ip = Some x \<Longrightarrow> x \<in> set xs \<and> ip < x"
  by (induction xs) (auto split: if_splits)

lemma upper_bound_least:
  "sorted xs \<Longrightarrow> upper_bound xs ip = Some x \<Longrightarrow> y \<in> set xs \<Longrightarrow> ip < y \<Longrightarrow> x \<le> y"
  by (induction xs) (auto split: if_splits)

lemma upper_bound_exists: "y \<in> set xs \<Longrightarrow> ip < y \<Longrightarrow> \<exists>x. upper_bound xs ip = Some x"
  by (induction xs) auto

lemma entry_length [simp]: "length (entry p) = Suc (length p)" "entry p \<noteq> []"
  by (simp_all add: entry_def)

lemma entry_last: "entry p ! length p = (if is_full_ip p then CHR ''='' else CHR ''@'')"
  by (simp add: entry_def)

lemma entry_take [simp]: "take (length p) (entry p) = p"
  by (simp add: entry_def)

lemma check_hit_entry:
  "m \<noteq> [] \<Longrightarrow> upper_bound m ip = Some (entry p) \<Longrightarrow> check_hit m ip \<longleftrightarrow> covers p ip"
  by (auto simp: check_hit_def Let_def entry_last covers_def)

text \<open>A hit comes from an entry that covers the address.\<close>

lemma check_hit_sound: "check_hit (entries ps) ip \<Longrightarrow> \<exists>p \<in> set ps. covers p ip"
proof -
  assume hit: "check_hit (entries ps) ip"
  then obtain x where x: "upper_bound (entries ps) ip = Some x" "entries ps \<noteq> []"
    by (auto simp: check_hit_def split: if_splits option.splits)
  from upper_bound_Some [OF x(1)] obtain p where "p \<in> set ps" "x = entry p" by auto
  with hit x check_hit_entry show ?thesis by blast
qed

lemma ip_char_less: "ip_char c \<Longrightarrow> c < CHR ''='' \<and> c < CHR ''@''"
  by (auto simp: ip_char_def is_digit_def less_char_def code_of_def)

lemma less_append_cons: "c < d \<Longrightarrow> p @ c # s < p @ d # (t :: string)"
  by (induction p) auto

lemma less_append_nil: "p < p @ (d # t :: string)"
  by (induction p) auto

text \<open>An entry that covers the address is above it.\<close>

lemma covers_less:
  assumes "covers p ip" and "ip_text ip"
  shows "ip < entry p"
proof (cases "is_full_ip p")
  case True
  with assms show ?thesis by (simp add: covers_def entry_def less_append_nil)
next
  case False
  with assms(1) have l: "length p < length ip" and t: "take (length p) ip = p"
    by (simp_all add: covers_def)
  then obtain c s where ip: "ip = p @ c # s"
    using id_take_nth_drop [OF l] by simp
  then have "c < CHR ''@''" using assms(2) ip_char_less [of c] by (simp add: ip_text_def)
  with False show ?thesis by (simp add: ip entry_def less_append_cons)
qed

text \<open>What lies between an address and an entry that covers it starts with the same prefix.\<close>

lemma between_prefix:
  "p @ s < z \<Longrightarrow> z < p @ (t :: string) \<Longrightarrow> take (length p) z = p"
proof (induction p arbitrary: z)
  case Nil
  then show ?case by simp
next
  case (Cons a p)
  then obtain b z' where z: "z = b # z'" by (cases z) auto
  with Cons.prems have "b = a" by auto
  with Cons z show ?case by auto
qed

lemma check_hit_complete:
  assumes "p \<in> set ps" and "covers p ip" and "ip_text ip" and "\<forall>q \<in> set ps. ip_text q"
    and "unnested ps"
  shows "check_hit (entries ps) ip"
proof -
  let ?m = "entries ps"
  from covers_less [OF assms(2,3)] have above: "ip < entry p" "entry p \<in> set ?m"
    using assms(1) by auto
  then obtain x where x: "upper_bound ?m ip = Some x" using upper_bound_exists by blast
  from upper_bound_Some [OF x] obtain q where q: "q \<in> set ps" "x = entry q" "ip < entry q" by auto
  have le: "entry q \<le> entry p"
    using upper_bound_least [OF sorted_entries x above(2,1)] q(2) by simp
  obtain s where ip: "ip = p @ s"
    using assms(2) by (auto simp: covers_def split: if_splits) (metis append_take_drop_id)
  obtain d where ep: "entry p = p @ [d]" by (cases "is_full_ip p") (auto simp: entry_def)
  have "take (length p) (entry q) = p"
  proof (cases "entry q = entry p")
    case False
    with le have "entry q < p @ [d]" by (simp add: ep [symmetric])
    with q(3) ip between_prefix show ?thesis by blast
  qed simp
  then have "p = q"
  proof (cases "length p \<le> length q")
    case True
    then have "take (length p) (entry q) = take (length p) q" by (simp add: entry_def)
    with \<open>take (length p) (entry q) = p\<close> assms(1,5) q(1) show ?thesis
      by (auto simp: unnested_def)
  next
    case False
    then have "length (entry q) \<le> length p" by (simp add: entry_def)
    with \<open>take (length p) (entry q) = p\<close> have "entry q = p" by simp
    moreover have "\<not> ip_text (entry q)"
      by (auto simp: ip_text_def entry_def ip_char_def is_digit_def code_of_def)
    ultimately show ?thesis using assms(1,4) by auto
  qed
  with x q(2) assms(1,2) show ?thesis
    using check_hit_entry [of ?m ip p] above(2) by (metis empty_iff list.set(1))
qed

section \<open>Filters built from rules\<close>

datatype rule = Allow string | Deny string

fun apply_rule :: "IpFilter \<Rightarrow> rule \<Rightarrow> IpFilter" where
  "apply_rule F (Allow p) = add_allow p F"
| "apply_rule F (Deny p) = add_deny p F"

definition build :: "rule list \<Rightarrow> IpFilter" where
  "build rules = foldl apply_rule IpFilter_new rules"

definition everyone :: "string \<Rightarrow> bool" where
  "everyone p \<longleftrightarrow> p = ''all'' \<or> p = ''*''"

definition allowed :: "rule list \<Rightarrow> string set" where
  "allowed rules = {p. Allow p \<in> set rules \<and> \<not> everyone p}"

definition denied :: "rule list \<Rightarrow> string set" where
  "denied rules = {p. Deny p \<in> set rules \<and> \<not> everyone p}"

lemma build_snoc: "build (rules @ [r]) = apply_rule (build rules) r"
  by (simp add: build_def)

lemma add_rule:
  "add_allow p F = (if everyone p then F\<lparr>allow_all := True, is_empty := False\<rparr>
     else F\<lparr>allow := set_insert (entry p) (allow F), is_empty := False\<rparr>)"
  "add_deny p F = (if everyone p then F\<lparr>deny_all := True, is_empty := False\<rparr>
     else F\<lparr>deny := set_insert (entry p) (deny F), is_empty := False\<rparr>)"
  by (simp_all only: add_allow_def add_deny_def everyone_def)

definition for_all :: "(string \<Rightarrow> rule) \<Rightarrow> rule list \<Rightarrow> bool" where
  "for_all mk rules \<longleftrightarrow> (\<exists>p. everyone p \<and> mk p \<in> set rules)"

lemma rules_snoc:
  "allowed (rules @ [Allow p]) = (if everyone p then allowed rules else insert p (allowed rules))"
  "allowed (rules @ [Deny p]) = allowed rules"
  "denied (rules @ [Deny p]) = (if everyone p then denied rules else insert p (denied rules))"
  "denied (rules @ [Allow p]) = denied rules"
  "for_all Allow (rules @ [Allow p]) \<longleftrightarrow> everyone p \<or> for_all Allow rules"
  "for_all Allow (rules @ [Deny p]) \<longleftrightarrow> for_all Allow rules"
  "for_all Deny (rules @ [Deny p]) \<longleftrightarrow> everyone p \<or> for_all Deny rules"
  "for_all Deny (rules @ [Allow p]) \<longleftrightarrow> for_all Deny rules"
  by (auto simp: allowed_def denied_def for_all_def)

text \<open>The two sets of a built filter, as entry lists.\<close>

lemma build_state:
  "\<exists>as ds. allow (build rules) = entries as \<and> set as = allowed rules \<and>
     deny (build rules) = entries ds \<and> set ds = denied rules \<and>
     (is_empty (build rules) \<longleftrightarrow> rules = []) \<and>
     allow_all (build rules) = for_all Allow rules \<and> deny_all (build rules) = for_all Deny rules"
proof (induction rules rule: rev_induct)
  case Nil
  then show ?case
    by (auto simp: build_def IpFilter_new_def entries_def allowed_def denied_def for_all_def)
next
  case (snoc r rules)
  then obtain as ds where
    b: "allow (build rules) = entries as" "set as = allowed rules"
      "deny (build rules) = entries ds" "set ds = denied rules"
      "is_empty (build rules) \<longleftrightarrow> rules = []"
      "allow_all (build rules) = for_all Allow rules"
      "deny_all (build rules) = for_all Deny rules" by blast
  have cons: "set_insert (entry p) (entries ps) = entries (p # ps)" for p ps
    by (simp add: entries_def)
  have "\<exists>as ds. allow (apply_rule (build rules) r) = entries as \<and> set as = allowed (rules @ [r]) \<and>
      deny (apply_rule (build rules) r) = entries ds \<and> set ds = denied (rules @ [r])"
  proof (cases r)
    case (Allow p)
    with b show ?thesis
      by (intro exI [of _ "if everyone p then as else p # as"] exI [of _ ds])
        (simp add: add_rule rules_snoc cons)
  next
    case (Deny p)
    with b show ?thesis
      by (intro exI [of _ as] exI [of _ "if everyone p then ds else p # ds"])
        (simp add: add_rule rules_snoc cons)
  qed
  moreover have "\<not> is_empty (apply_rule (build rules) r)"
    "allow_all (apply_rule (build rules) r) = for_all Allow (rules @ [r])"
    "deny_all (apply_rule (build rules) r) = for_all Deny (rules @ [r])"
    using b(6,7) by (cases r; simp add: add_rule rules_snoc)+
  ultimately show ?case by (simp add: build_snoc)
qed

text \<open>What the rules say about an address, the more specific lists first.\<close>

definition rules_pass :: "rule list \<Rightarrow> string \<Rightarrow> bool" where
  "rules_pass rules ip \<longleftrightarrow>
     rules = [] \<or> (\<exists>p \<in> allowed rules. covers p ip) \<or>
     \<not> (\<exists>p \<in> denied rules. covers p ip) \<and>
       for_all Allow rules \<and> \<not> for_all Deny rules"

definition unnested_set :: "string set \<Rightarrow> bool" where
  "unnested_set A \<longleftrightarrow> (\<forall>p \<in> A. \<forall>q \<in> A. p \<noteq> q \<longrightarrow> take (length p) q \<noteq> p)"

lemma check_hit_iff:
  assumes "unnested_set (set ps)" and "\<forall>q \<in> set ps. ip_text q" and "ip_text ip"
  shows "check_hit (entries ps) ip \<longleftrightarrow> (\<exists>p \<in> set ps. covers p ip)"
  using check_hit_sound check_hit_complete assms by (auto simp: unnested_def unnested_set_def)

lemma digit_below_eq: "is_digit c \<Longrightarrow> c < CHR ''=''"
  by (simp add: ip_char_def ip_char_less)

lemma full_ip_digits: "is_full_ip (p @ s) \<longleftrightarrow> is_full_ip p" if "\<forall>c \<in> set s. is_digit c"
proof -
  have "filter (\<lambda>c. c = CHR ''.'') s = []"
    using that by (auto simp: filter_empty_conv is_digit_def code_of_def)
  then show ?thesis by (simp add: is_full_ip_def)
qed

section \<open>Properties\<close>

text \<open>C16. If within each of the two lists no entry is a prefix of another, \<open>check_pass\<close> decides by
  the rules: an address covered by an allow rule passes, otherwise one covered by a deny rule does
  not, otherwise \<open>all\<close> decides, deny before allow. (Addresses and rules are digits and dots.)\<close>

theorem check_pass_follows_rules:
  assumes "unnested_set (allowed rules)" and "unnested_set (denied rules)"
    and "\<forall>p \<in> allowed rules \<union> denied rules. ip_text p" and "ip_text ip"
  shows "check_pass (build rules) ip \<longleftrightarrow> rules_pass rules ip"
proof -
  from build_state [of rules] obtain as ds where
    b: "allow (build rules) = entries as" "set as = allowed rules"
      "deny (build rules) = entries ds" "set ds = denied rules"
      "is_empty (build rules) \<longleftrightarrow> rules = []"
      "allow_all (build rules) = for_all Allow rules"
      "deny_all (build rules) = for_all Deny rules" by blast
  have "check_hit (entries as) ip \<longleftrightarrow> (\<exists>p \<in> allowed rules. covers p ip)"
    "check_hit (entries ds) ip \<longleftrightarrow> (\<exists>p \<in> denied rules. covers p ip)"
    using check_hit_iff [of as ip] check_hit_iff [of ds ip] assms b by simp_all
  with b show ?thesis by (auto simp: check_pass_def rules_pass_def)
qed

theorem check_pass_follows_rules_witness:
  "check_pass (build [Allow ''10.0.'', Deny ''10.1.0.1'']) ''10.0.3.4''"
proof -
  let ?r = "[Allow ''10.0.'', Deny ''10.1.0.1'']"
  have a: "allowed ?r = {''10.0.''}" "denied ?r = {''10.1.0.1''}"
    by (auto simp: allowed_def denied_def everyone_def)
  have t: "ip_text ''10.0.''" "ip_text ''10.1.0.1''" "ip_text ''10.0.3.4''" by code_simp+
  have "covers ''10.0.'' ''10.0.3.4''" by code_simp
  then have "rules_pass ?r ''10.0.3.4''" by (auto simp: rules_pass_def a)
  then show ?thesis
    using check_pass_follows_rules [of ?r "''10.0.3.4''"] t by (simp add: a unnested_set_def)
qed

text \<open>Nested entries break the lookup: when a full address \<open>p\<close> and a longer address that starts
  with \<open>p\<close> (such as 10.0.0.1 and 10.0.0.12) are both denied and all others are allowed, \<open>p\<close> passes
  the filter although it is denied by name.\<close>

theorem nested_deny_bypassed:
  assumes "is_full_ip p" and "ip_text p" and "s \<noteq> []" and "\<forall>c \<in> set s. is_digit c"
  shows "check_pass (build [Allow ''all'', Deny p, Deny (p @ s)]) p \<and>
    \<not> rules_pass [Allow ''all'', Deny p, Deny (p @ s)] p"
proof -
  obtain d t where s: "s = d # t" using assms(3) by (cases s) auto
  have notall: "\<not> everyone q" if "is_full_ip q" for q
    using that by (auto simp: everyone_def is_full_ip_def)
  have full: "is_full_ip (p @ s)" using full_ip_digits [OF assms(4)] assms(1) by blast
  have d: "d < CHR ''=''" using assms(4) s digit_below_eq by simp
  then have less: "entry (p @ s) < entry p"
    using full assms(1) less_append_cons [of d "CHR ''=''" p "t @ ''=''" "[]"] by (simp add: entry_def s)
  let ?r = "[Allow ''all'', Deny p, Deny (p @ s)]"
  note not_all = notall [OF assms(1)] notall [OF full]
  have all: "everyone ''all''" by (simp add: everyone_def)
  from less have b: "deny (build ?r) = [entry (p @ s), entry p]" "allow (build ?r) = []"
    "\<not> is_empty (build ?r)" "\<not> deny_all (build ?r)" "allow_all (build ?r)"
    using not_all all by (auto simp: build_def add_rule IpFilter_new_def set_insert_def)
  have "p < entry (p @ s)" by (simp add: entry_def s less_append_nil)
  then have "\<not> check_hit [entry (p @ s), entry p] p"
    using full check_hit_entry [of "[entry (p @ s), entry p]" p "p @ s"] assms(3)
    by (simp add: covers_def)
  then have "check_pass (build ?r) p"
    using b by (simp add: check_pass_def)
  moreover have "p \<in> denied ?r" "allowed ?r = {}"
    using not_all all by (auto simp: denied_def allowed_def)
  then have "\<not> rules_pass ?r p"
    using assms(1) by (auto simp: rules_pass_def covers_def)
  ultimately show ?thesis by blast
qed

theorem nested_deny_bypassed_witness:
  "check_pass (build [Allow ''all'', Deny ''10.0.0.1'', Deny ''10.0.0.12'']) ''10.0.0.1''"
  using nested_deny_bypassed [of "''10.0.0.1''" "''2''"]
  by (simp add: is_full_ip_def ip_text_def ip_char_def is_digit_def code_of_def)

end
