(* ===== verification/SortedSet.thy ===== *)
theory SortedSet
  imports Prelude
begin

text \<open>
  \<open>server-5204/util/sorted_set.h\<close> and \<open>sorted_set.cpp\<close>: keys with 64-bit scores, found by key and
  ordered by score. The class keeps a \<open>std::set<Item>\<close> and a map from keys to iterators into it.
  The set is the ordered list of its items; an iterator is the item it points at, and using one
  whose item is no longer in the set is a fault.
\<close>

section \<open>State\<close>

datatype Item = Item (item_score: int) (item_key: string)

text \<open>\<open>operator <\<close>; with it the items are a linear order.\<close>

definition item_less :: "Item \<Rightarrow> Item \<Rightarrow> bool" where
  "item_less a b \<longleftrightarrow>
     item_score a < item_score b \<or> item_score a = item_score b \<and> item_key a < item_key b"

instantiation Item :: linorder
begin

definition less_Item :: "Item \<Rightarrow> Item \<Rightarrow> bool" where
  "less_Item a b \<longleftrightarrow> item_less a b"

definition less_eq_Item :: "Item \<Rightarrow> Item \<Rightarrow> bool" where
  "less_eq_Item a b \<longleftrightarrow> a < b \<or> a = b"

instance
proof
  fix x y z :: Item
  show "x < y \<longleftrightarrow> x \<le> y \<and> \<not> y \<le> x"
    by (cases x; cases y) (auto simp: less_Item_def item_less_def less_eq_Item_def)
  show "x \<le> x" by (simp add: less_eq_Item_def)
  show "x \<le> y \<Longrightarrow> y \<le> z \<Longrightarrow> x \<le> z"
    by (cases x; cases y; cases z) (auto simp: less_Item_def item_less_def less_eq_Item_def)
  show "x \<le> y \<Longrightarrow> y \<le> x \<Longrightarrow> x = y"
    by (cases x; cases y) (auto simp: less_Item_def item_less_def less_eq_Item_def)
  show "x \<le> y \<or> y \<le> x"
    by (cases x; cases y) (auto simp: less_Item_def item_less_def less_eq_Item_def)
qed

end

record SortedSet =
  existed :: "string \<rightharpoonup> Item"
  sorted_set :: "Item list"

definition SortedSet_new :: SortedSet where
  "SortedSet_new = \<lparr>existed = Map.empty, sorted_set = []\<rparr>"

section \<open>Operations\<close>

definition size_ss :: "SortedSet \<Rightarrow> int" where
  "size_ss S = int (length (sorted_set S))"

text \<open>\<open>erase(iterator)\<close> and \<open>insert\<close> of \<open>std::set\<close>.\<close>

definition erase_it :: "Item \<Rightarrow> SortedSet \<Rightarrow> SortedSet outcome" where
  "erase_it it S =
     (if it \<in> set (sorted_set S) then Done (S\<lparr>sorted_set := remove1 it (sorted_set S)\<rparr>)
      else Fault Use_after_free)"

definition insert_item :: "Item \<Rightarrow> SortedSet \<Rightarrow> SortedSet" where
  "insert_item x S =
     (if x \<in> set (sorted_set S) then S else S\<lparr>sorted_set := insort x (sorted_set S)\<rparr>)"

definition add_ss :: "string \<Rightarrow> int \<Rightarrow> SortedSet \<Rightarrow> (int \<times> SortedSet) outcome" where
  "add_ss k score S =
     (case existed S k of
        None \<Rightarrow>
          (let S1 = insert_item (Item score k) S in
           Done (1, S1\<lparr>existed := (existed S1)(k \<mapsto> Item score k)\<rparr>))
      | Some it2 \<Rightarrow>
          if it2 \<notin> set (sorted_set S) then Fault Use_after_free
          else if item_score it2 = score then Done (0, S)
          else (case erase_it it2 S of
                  Inl f \<Rightarrow> Inl f
                | Inr S0 \<Rightarrow>
                    (let S1 = insert_item (Item score k) S0 in
                     Done (0, S1\<lparr>existed := (existed S1)(k \<mapsto> Item score k)\<rparr>))))"

definition del :: "string \<Rightarrow> SortedSet \<Rightarrow> (int \<times> SortedSet) outcome" where
  "del k S =
     (case existed S k of
        None \<Rightarrow> Done (0, S)
      | Some it \<Rightarrow>
          (case erase_it it S of
             Inl f \<Rightarrow> Inl f
           | Inr S1 \<Rightarrow> Done (1, S1\<lparr>existed := (existed S1)(k := None)\<rparr>)))"

definition front_ss :: "SortedSet \<Rightarrow> (string \<times> int) option" where
  "front_ss S = (case sorted_set S of [] \<Rightarrow> None | x # xs \<Rightarrow> Some (item_key x, item_score x))"

definition back_ss :: "SortedSet \<Rightarrow> (string \<times> int) option" where
  "back_ss S =
     (if sorted_set S = [] then None
      else Some (item_key (last (sorted_set S)), item_score (last (sorted_set S))))"

definition max_score :: "SortedSet \<Rightarrow> int" where
  "max_score S = (case back_ss S of None \<Rightarrow> 0 | Some (k, score) \<Rightarrow> score)"

definition pop_item :: "Item \<Rightarrow> SortedSet \<Rightarrow> SortedSet" where
  "pop_item x S =
     S\<lparr>existed := (existed S)(item_key x := None), sorted_set := remove1 x (sorted_set S)\<rparr>"

definition pop_front :: "SortedSet \<Rightarrow> int \<times> SortedSet" where
  "pop_front S =
     (if sorted_set S = [] then (0, S) else (1, pop_item (hd (sorted_set S)) S))"

definition pop_back :: "SortedSet \<Rightarrow> int \<times> SortedSet" where
  "pop_back S =
     (if sorted_set S = [] then (0, S) else (1, pop_item (last (sorted_set S)) S))"

section \<open>The abstract view: a finite map of scores\<close>

definition scores :: "SortedSet \<Rightarrow> string \<rightharpoonup> int" where
  "scores S = (\<lambda>k. map_option item_score (existed S k))"

definition wf_ss :: "SortedSet \<Rightarrow> bool" where
  "wf_ss S \<longleftrightarrow> sorted (sorted_set S) \<and> distinct (sorted_set S) \<and>
     (\<forall>k it. existed S k = Some it \<longleftrightarrow> it \<in> set (sorted_set S) \<and> item_key it = k)"

lemma wf_ss_new: "wf_ss SortedSet_new"
  by (simp add: wf_ss_def SortedSet_new_def)

lemma existed_iff: "wf_ss S \<Longrightarrow> existed S k = Some it \<longleftrightarrow> it \<in> set (sorted_set S) \<and> item_key it = k"
  unfolding wf_ss_def by blast

lemma wf_ss_list: "wf_ss S \<Longrightarrow> sorted (sorted_set S)" "wf_ss S \<Longrightarrow> distinct (sorted_set S)"
  by (simp_all add: wf_ss_def)

lemma in_set_scores:
  assumes "wf_ss S"
  shows "x \<in> set (sorted_set S) \<longleftrightarrow> scores S (item_key x) = Some (item_score x)"
proof
  assume "x \<in> set (sorted_set S)"
  then show "scores S (item_key x) = Some (item_score x)"
    using existed_iff [OF assms, of "item_key x" x] by (simp add: scores_def)
next
  assume "scores S (item_key x) = Some (item_score x)"
  then obtain it where it: "existed S (item_key x) = Some it" "item_score it = item_score x"
    by (auto simp: scores_def)
  with existed_iff [OF assms] have "it \<in> set (sorted_set S)" "item_key it = item_key x" by blast+
  with it(2) show "x \<in> set (sorted_set S)" by (cases it; cases x) simp
qed

lemma existed_in: "wf_ss S \<Longrightarrow> existed S k = Some it \<Longrightarrow> it \<in> set (sorted_set S) \<and> item_key it = k"
  using existed_iff by blast

lemma fresh_item: "wf_ss S \<Longrightarrow> existed S k = None \<Longrightarrow> x \<in> set (sorted_set S) \<Longrightarrow> item_key x \<noteq> k"
  using existed_iff [of S k x] by auto

text \<open>Adding an item with a new key, and taking an item out, keep the invariant.\<close>

lemma put_item_ok:
  assumes "wf_ss S" and "existed S k = None"
  shows "wf_ss ((insert_item (Item sc k) S)\<lparr>existed := (existed S)(k \<mapsto> Item sc k)\<rparr>)"
    and "existed (insert_item (Item sc k) S) = existed S"
    and "scores ((insert_item (Item sc k) S)\<lparr>existed := (existed S)(k \<mapsto> Item sc k)\<rparr>) =
      (scores S)(k \<mapsto> sc)"
proof -
  have new: "Item sc k \<notin> set (sorted_set S)" using fresh_item [OF assms] by force
  show "wf_ss ((insert_item (Item sc k) S)\<lparr>existed := (existed S)(k \<mapsto> Item sc k)\<rparr>)"
    using assms new fresh_item [OF assms]
      existed_iff [OF assms(1)] wf_ss_list [OF assms(1)]
    unfolding wf_ss_def insert_item_def
    by (auto simp: set_insort_key sorted_insort distinct_insort)
  show "existed (insert_item (Item sc k) S) = existed S" by (simp add: insert_item_def)
  show "scores ((insert_item (Item sc k) S)\<lparr>existed := (existed S)(k \<mapsto> Item sc k)\<rparr>) =
      (scores S)(k \<mapsto> sc)"
    by (auto simp: scores_def)
qed

lemma take_item_ok:
  assumes "wf_ss S" and "x \<in> set (sorted_set S)"
  shows "wf_ss (pop_item x S)" and "scores (pop_item x S) = (scores S)(item_key x := None)"
proof -
  have x: "existed S (item_key x) = Some x" using existed_iff [OF assms(1)] assms(2) by blast
  have "((existed S)(item_key x := None)) k = Some it \<longleftrightarrow> it \<in> set (remove1 x (sorted_set S)) \<and> item_key it = k"
    for k it
  proof (cases "k = item_key x")
    case True
    have "it = x" if "it \<in> set (sorted_set S)" "item_key it = item_key x"
    proof -
      from that existed_iff [OF assms(1)] have "existed S (item_key x) = Some it" by blast
      with x show ?thesis by simp
    qed
    with True show ?thesis by (auto simp: set_remove1_eq [OF wf_ss_list(2) [OF assms(1)]])
  next
    case False
    then have "it \<in> set (remove1 x (sorted_set S)) \<and> item_key it = k \<longleftrightarrow>
        it \<in> set (sorted_set S) \<and> item_key it = k"
      by (auto simp: set_remove1_eq [OF wf_ss_list(2) [OF assms(1)]])
    with False existed_iff [OF assms(1), of k it] show ?thesis by simp
  qed
  then show "wf_ss (pop_item x S)"
    using wf_ss_list [OF assms(1)] unfolding wf_ss_def pop_item_def
    by (simp add: sorted_remove1)
  show "scores (pop_item x S) = (scores S)(item_key x := None)"
    by (auto simp: scores_def pop_item_def)
qed

lemma erase_pop:
  assumes "wf_ss S" and "existed S k = Some it" and "erase_it it S = Done S1"
  shows "S1\<lparr>existed := (existed S1)(k := None)\<rparr> = pop_item it S"
  using assms existed_in [OF assms(1,2)] by (auto simp: erase_it_def pop_item_def split: if_splits)

lemma del_ok:
  assumes "wf_ss S"
  shows "\<exists>S'. del k S = Done (if scores S k = None then 0 else 1, S') \<and> wf_ss S' \<and>
    scores S' = (scores S)(k := None)"
proof (cases "existed S k")
  case None
  then show ?thesis using assms by (auto simp: del_def scores_def)
next
  case (Some it)
  note i = existed_in [OF assms Some]
  then obtain S1 where S1: "erase_it it S = Done S1" by (simp add: erase_it_def)
  from take_item_ok [OF assms] i erase_pop [OF assms Some S1] Some S1 show ?thesis
    by (auto simp: del_def scores_def)
qed

lemma add_ok:
  assumes "wf_ss S"
  shows "\<exists>S'. add_ss k sc S = Done (if scores S k = None then 1 else 0, S') \<and> wf_ss S' \<and>
    scores S' = (scores S)(k \<mapsto> sc)"
proof (cases "existed S k")
  case None
  with put_item_ok [OF assms None] show ?thesis by (auto simp: add_ss_def Let_def scores_def)
next
  case (Some it)
  note i = existed_in [OF assms Some]
  show ?thesis
  proof (cases "item_score it = sc")
    case True
    with Some i assms show ?thesis by (auto simp: add_ss_def scores_def)
  next
    case False
    from i obtain S1 where S1: "erase_it it S = Done S1" by (simp add: erase_it_def)
    let ?S0 = "pop_item it S"
    have S0: "wf_ss ?S0" "existed ?S0 k = None" "sorted_set S1 = sorted_set ?S0" "existed S1 = existed S"
      using take_item_ok [OF assms] i S1 by (auto simp: pop_item_def erase_it_def)
    have "(insert_item (Item sc k) S1)\<lparr>existed := (existed S1)(k \<mapsto> Item sc k)\<rparr> =
        (insert_item (Item sc k) ?S0)\<lparr>existed := (existed ?S0)(k \<mapsto> Item sc k)\<rparr>"
      using S0 i by (auto simp: insert_item_def pop_item_def)
    moreover have "existed (insert_item (Item sc k) S1) = existed S1" by (simp add: insert_item_def)
    ultimately have "add_ss k sc S =
        Done (0, (insert_item (Item sc k) ?S0)\<lparr>existed := (existed ?S0)(k \<mapsto> Item sc k)\<rparr>)"
      using Some i False S1 by (simp add: add_ss_def Let_def)
    moreover have "(scores ?S0)(k \<mapsto> sc) = (scores S)(k \<mapsto> sc)"
      using take_item_ok(2) [OF assms, of it] i by simp
    ultimately show ?thesis
      using put_item_ok [OF S0(1,2), of sc] Some by (auto simp: scores_def)
  qed
qed

section \<open>Runs of operations\<close>

datatype ss_op = Add string int | Del string | Pop_front | Pop_back

fun ss_step :: "ss_op \<Rightarrow> SortedSet \<Rightarrow> (int \<times> SortedSet) outcome" where
  "ss_step (Add k sc) S = add_ss k sc S"
| "ss_step (Del k) S = del k S"
| "ss_step Pop_front S = Done (pop_front S)"
| "ss_step Pop_back S = Done (pop_back S)"

fun ss_run :: "ss_op list \<Rightarrow> SortedSet \<Rightarrow> (int list \<times> SortedSet) outcome" where
  "ss_run [] S = Done ([], S)"
| "ss_run (c # cs) S =
     (case ss_step c S of
        Inl f \<Rightarrow> Inl f
      | Inr (r, S') \<Rightarrow> map_sum id (\<lambda>(rs, S''). (r # rs, S'')) (ss_run cs S'))"

text \<open>The same operations on the map of scores.\<close>

definition items_of :: "(string \<rightharpoonup> int) \<Rightarrow> Item set" where
  "items_of m = {Item sc k | sc k. m k = Some sc}"

fun map_step :: "ss_op \<Rightarrow> (string \<rightharpoonup> int) \<Rightarrow> int \<times> (string \<rightharpoonup> int)" where
  "map_step (Add k sc) m = (if m k = None then 1 else 0, m(k \<mapsto> sc))"
| "map_step (Del k) m = (if m k = None then 0 else 1, m(k := None))"
| "map_step Pop_front m =
     (if m = Map.empty then (0, m) else (1, m(item_key (Min (items_of m)) := None)))"
| "map_step Pop_back m =
     (if m = Map.empty then (0, m) else (1, m(item_key (Max (items_of m)) := None)))"

fun map_run :: "ss_op list \<Rightarrow> (string \<rightharpoonup> int) \<Rightarrow> int list \<times> (string \<rightharpoonup> int)" where
  "map_run [] m = ([], m)"
| "map_run (c # cs) m =
     (let (r, m') = map_step c m; (rs, m'') = map_run cs m' in (r # rs, m''))"

lemma items_of_scores: "wf_ss S \<Longrightarrow> items_of (scores S) = set (sorted_set S)"
proof (intro set_eqI iffI)
  fix x
  assume w: "wf_ss S"
  show "x \<in> items_of (scores S) \<Longrightarrow> x \<in> set (sorted_set S)"
    using in_set_scores [OF w, of x] unfolding items_of_def by (elim CollectE exE conjE) simp
  show "x \<in> set (sorted_set S) \<Longrightarrow> x \<in> items_of (scores S)"
    using in_set_scores [OF w, of x] by (cases x) (simp add: items_of_def)
qed

lemma scores_empty:
  assumes "wf_ss S"
  shows "scores S = Map.empty \<longleftrightarrow> sorted_set S = []"
proof
  assume "scores S = Map.empty"
  then have "items_of (scores S) = {}" by (simp add: items_of_def)
  then have "set (sorted_set S) = {}" unfolding items_of_scores [OF assms] .
  then show "sorted_set S = []" by simp
next
  assume "sorted_set S = []"
  then have "existed S k = None" for k
    using existed_in [OF assms, of k] by (cases "existed S k") simp_all
  then show "scores S = Map.empty" by (simp add: scores_def)
qed

lemma ends_of_sorted:
  assumes "sorted xs" and "xs \<noteq> []"
  shows "hd xs = Min (set xs)" "last xs = Max (set (xs :: 'a::linorder list))"
proof -
  show "hd xs = Min (set xs)"
    using assms by (cases xs) (auto intro!: Min_eqI [symmetric])
  have "\<forall>x \<in> set xs. x \<le> last xs"
    using assms by (induction xs) auto
  then show "last xs = Max (set xs)"
    using assms by (intro Max_eqI [symmetric]) auto
qed

lemma ss_step_refines:
  assumes "wf_ss S"
  shows "\<exists>S'. ss_step c S = Done (fst (map_step c (scores S)), S') \<and> wf_ss S' \<and>
    scores S' = snd (map_step c (scores S))"
proof (cases c)
  case (Add k sc)
  then show ?thesis using add_ok [OF assms] by simp
next
  case (Del k)
  then show ?thesis using del_ok [OF assms] by simp
next
  case Pop_front
  show ?thesis
  proof (cases "sorted_set S = []")
    case True
    then show ?thesis using Pop_front assms scores_empty [OF assms] by (simp add: pop_front_def)
  next
    case False
    then show ?thesis
      using Pop_front assms scores_empty [OF assms] take_item_ok [OF assms, of "hd (sorted_set S)"]
        ends_of_sorted(1) [of "sorted_set S"]
      by (simp add: pop_front_def items_of_scores wf_ss_list)
  qed
next
  case Pop_back
  show ?thesis
  proof (cases "sorted_set S = []")
    case True
    then show ?thesis using Pop_back assms scores_empty [OF assms] by (simp add: pop_back_def)
  next
    case False
    then show ?thesis
      using Pop_back assms scores_empty [OF assms] take_item_ok [OF assms, of "last (sorted_set S)"]
        ends_of_sorted(2) [of "sorted_set S"]
      by (simp add: pop_back_def items_of_scores wf_ss_list)
  qed
qed

lemma ss_run_refines:
  "wf_ss S \<Longrightarrow> \<exists>S'. ss_run cs S = Done (fst (map_run cs (scores S)), S') \<and> wf_ss S' \<and>
     scores S' = snd (map_run cs (scores S))"
proof (induction cs arbitrary: S)
  case Nil
  then show ?case by simp
next
  case (Cons c cs)
  from ss_step_refines [OF Cons.prems, of c] obtain S1 where
    "ss_step c S = Done (fst (map_step c (scores S)), S1)" "wf_ss S1"
    "scores S1 = snd (map_step c (scores S))" by blast
  with Cons.IH [of S1] show ?case by (auto simp: Let_def split: prod.splits)
qed

lemma item_score_mono: "x \<le> y \<Longrightarrow> item_score x \<le> item_score (y :: Item)"
  by (auto simp: less_eq_Item_def less_Item_def item_less_def)

lemma ends_bound: "sorted xs \<Longrightarrow> x \<in> set xs \<Longrightarrow> hd xs \<le> x \<and> x \<le> last (xs :: 'a::linorder list)"
  using ends_of_sorted [of xs] by (cases xs) auto

lemma size_counts:
  assumes "wf_ss S"
  shows "size_ss S = int (card (dom (scores S)))"
proof -
  have "dom (scores S) = item_key ` set (sorted_set S)"
    using existed_iff [OF assms] by (auto simp: scores_def dom_def image_iff)
  moreover have "inj_on item_key (set (sorted_set S))"
    by (rule inj_onI) (metis existed_iff [OF assms] option.inject)
  ultimately show ?thesis
    using assms by (simp add: size_ss_def card_image distinct_card wf_ss_list)
qed

section \<open>Properties\<close>

text \<open>C17. Every run of \<open>add\<close>, \<open>del\<close>, \<open>pop_front\<close> and \<open>pop_back\<close> on a new set behaves as the same run
  on a finite map from keys to scores, return values included: no operation ever uses a stale
  iterator, the two containers stay consistent, and the pops remove the least and the greatest
  entry by score and then key.\<close>

theorem sorted_set_refines_map:
  "\<exists>S. ss_run cs SortedSet_new = Done (fst (map_run cs Map.empty), S) \<and> wf_ss S \<and>
     scores S = snd (map_run cs Map.empty)"
proof -
  have "scores SortedSet_new = Map.empty" by (auto simp: scores_def SortedSet_new_def)
  with ss_run_refines [OF wf_ss_new, of cs] show ?thesis by simp
qed

text \<open>On a consistent set, \<open>front\<close> and \<open>back\<close> give an entry with the least and the greatest score,
  and fail exactly on the empty set; \<open>size\<close> counts the keys; but \<open>max_score\<close> answers 0 for the empty
  set, the same as for a set whose greatest score is 0.\<close>

theorem front_back_extreme:
  assumes "wf_ss S"
  shows "(case front_ss S of None \<Rightarrow> scores S = Map.empty
      | Some (k, sc) \<Rightarrow> scores S k = Some sc \<and> (\<forall>k' sc'. scores S k' = Some sc' \<longrightarrow> sc \<le> sc')) \<and>
    (case back_ss S of None \<Rightarrow> scores S = Map.empty \<and> max_score S = 0
      | Some (k, sc) \<Rightarrow> scores S k = Some sc \<and> max_score S = sc \<and>
          (\<forall>k' sc'. scores S k' = Some sc' \<longrightarrow> sc' \<le> sc)) \<and>
    size_ss S = int (card (dom (scores S)))"
proof (cases "sorted_set S = []")
  case True
  then show ?thesis
    using scores_empty [OF assms] by (simp add: front_ss_def back_ss_def max_score_def size_ss_def)
next
  case False
  let ?lo = "hd (sorted_set S)" and ?hi = "last (sorted_set S)"
  have lo: "scores S (item_key ?lo) = Some (item_score ?lo)"
    and hi: "scores S (item_key ?hi) = Some (item_score ?hi)"
    using in_set_scores [OF assms] False by (metis hd_in_set, metis last_in_set)
  have ext: "item_score ?lo \<le> sc' \<and> sc' \<le> item_score ?hi" if "scores S k' = Some sc'" for k' sc'
    using that in_set_scores [OF assms, of "Item sc' k'"] False wf_ss_list [OF assms]
      ends_bound [of "sorted_set S" "Item sc' k'"] item_score_mono [of ?lo "Item sc' k'"]
      item_score_mono [of "Item sc' k'" ?hi]
    by (simp add: wf_ss_list)
  have "front_ss S = Some (item_key ?lo, item_score ?lo)"
    using False by (cases "sorted_set S") (simp_all add: front_ss_def)
  moreover have "back_ss S = Some (item_key ?hi, item_score ?hi)" using False by (simp add: back_ss_def)
  ultimately show ?thesis
    using lo hi ext size_counts [OF assms] by (simp add: max_score_def)
qed

theorem front_back_extreme_witness:
  "\<exists>S. ss_run [Add ''a'' 3, Add ''b'' (-5), Add ''a'' (-7)] SortedSet_new = Done ([1, 1, 0], S) \<and>
     max_score S = -5 \<and> size_ss S = int (card (dom (scores S)))"
proof -
  obtain S where S: "ss_run [Add ''a'' 3, Add ''b'' (-5), Add ''a'' (-7)] SortedSet_new = Done ([1, 1, 0], S)"
    "back_ss S = Some (''b'', -5)" "wf_ss S"
    using ss_run_refines [OF wf_ss_new, of "[Add ''a'' 3, Add ''b'' (-5), Add ''a'' (-7)]"]
    by (simp add: add_ss_def SortedSet_new_def insert_item_def erase_it_def back_ss_def less_eq_Item_def
        less_Item_def item_less_def Let_def)
  with front_back_extreme [OF S(3)] show ?thesis by simp
qed

end
