(* ===== verification/Fdevents.thy ===== *)
theory Fdevents
  imports Prelude
begin

text \<open>
  \<open>server-5204/fde.h\<close>, \<open>fde.cpp\<close>, \<open>fde_epoll.cpp\<close> and \<open>fde_select.cpp\<close>: the table of watched file
  descriptors with its two back ends. The kernel's epoll instance is a parameter with the documented
  laws of \<open>epoll_ctl\<close>; \<open>select\<close> keeps two sets of descriptors and the greatest one. Both back ends
  provide the interface \<open>fd_registry\<close>.
\<close>

unbundle bit_operations_syntax

section \<open>The table of descriptors\<close>

abbreviation (input) FDEVENT_NONE :: int where "FDEVENT_NONE \<equiv> 0"
abbreviation (input) FDEVENT_IN :: int where "FDEVENT_IN \<equiv> 1"
abbreviation (input) FDEVENT_PRI :: int where "FDEVENT_PRI \<equiv> 2"
abbreviation (input) FDEVENT_OUT :: int where "FDEVENT_OUT \<equiv> 4"
abbreviation (input) FDEVENT_HUP :: int where "FDEVENT_HUP \<equiv> 8"
abbreviation (input) FDEVENT_ERR :: int where "FDEVENT_ERR \<equiv> 16"

record 'p Fdevent =
  fde_fd :: int
  s_flags :: int
  ev_flags :: int
  data_num :: int
  data_ptr :: "'p option"

definition new_fde :: "int \<Rightarrow> 'p Fdevent" where
  "new_fde n =
     \<lparr>fde_fd = n, s_flags = FDEVENT_NONE, ev_flags = 0, data_num = 0, data_ptr = None\<rparr>"

text \<open>\<open>get_fde\<close> extends the table up to \<open>fd\<close> and indexes it.\<close>

definition get_fde :: "int \<Rightarrow> 'p Fdevent list \<Rightarrow> ('p Fdevent \<times> 'p Fdevent list) outcome" where
  "get_fde fd evs =
     (let evs' = evs @ map (\<lambda>i. new_fde (int i)) [length evs..<nat (fd + 1)] in
      if fd < 0 then Fault Out_of_bounds else Done (evs' ! nat fd, evs'))"

definition flags_of :: "'p Fdevent list \<Rightarrow> int \<Rightarrow> int" where
  "flags_of evs fd =
     (if 0 \<le> fd \<and> nat fd < length evs then s_flags (evs ! nat fd) else FDEVENT_NONE)"

section \<open>The epoll back end\<close>

datatype ctl_op = EPOLL_CTL_ADD | EPOLL_CTL_MOD | EPOLL_CTL_DEL

record 'k epoll =
  epoll_create :: 'k
  epoll_ctl :: "ctl_op \<Rightarrow> int \<Rightarrow> int \<Rightarrow> 'k \<Rightarrow> bool \<times> 'k"

record ('p, 'k) epoll_fdes =
  ep_fd :: 'k
  ep_table :: "'p Fdevent list"
  ep_ready :: "int list"

definition epoll_new :: "'k epoll \<Rightarrow> ('p, 'k) epoll_fdes" where
  "epoll_new K = \<lparr>ep_fd = epoll_create K, ep_table = [], ep_ready = []\<rparr>"

text \<open>\<open>EPOLLIN\<close> is 1 and \<open>EPOLLOUT\<close> is 4.\<close>

definition epoll_mask :: "int \<Rightarrow> int" where
  "epoll_mask flags =
     (if flags AND FDEVENT_IN \<noteq> 0 then 1 else 0) OR (if flags AND FDEVENT_OUT \<noteq> 0 then 4 else 0)"

definition epoll_isset ::
  "int \<Rightarrow> int \<Rightarrow> ('p, 'k) epoll_fdes \<Rightarrow> (bool \<times> ('p, 'k) epoll_fdes) outcome" where
  "epoll_isset fd flag S =
     (case get_fde fd (ep_table S) of
        Inl f \<Rightarrow> Inl f
      | Inr (fde, evs) \<Rightarrow> Done (s_flags fde AND flag \<noteq> 0, S\<lparr>ep_table := evs\<rparr>))"

definition epoll_set ::
  "'k epoll \<Rightarrow> int \<Rightarrow> int \<Rightarrow> int \<Rightarrow> 'p option \<Rightarrow> ('p, 'k) epoll_fdes \<Rightarrow>
   (int \<times> ('p, 'k) epoll_fdes) outcome" where
  "epoll_set K fd flags num ptr S =
     (case get_fde fd (ep_table S) of
        Inl f \<Rightarrow> Inl f
      | Inr (fde, evs) \<Rightarrow>
          if s_flags fde AND flags \<noteq> 0 then Done (0, S\<lparr>ep_table := evs\<rparr>)
          else
            (let op = (if s_flags fde \<noteq> 0 then EPOLL_CTL_MOD else EPOLL_CTL_ADD);
                 fde' = fde\<lparr>s_flags := s_flags fde OR flags, data_num := num, data_ptr := ptr\<rparr>;
                 (ok, k) = epoll_ctl K op fd (epoll_mask (s_flags fde')) (ep_fd S)
             in Done (if ok then 0 else -1, S\<lparr>ep_table := evs[nat fd := fde'], ep_fd := k\<rparr>)))"

definition epoll_del ::
  "'k epoll \<Rightarrow> int \<Rightarrow> ('p, 'k) epoll_fdes \<Rightarrow> (int \<times> ('p, 'k) epoll_fdes) outcome" where
  "epoll_del K fd S =
     (let (ok, k) = epoll_ctl K EPOLL_CTL_DEL fd 0 (ep_fd S); S1 = S\<lparr>ep_fd := k\<rparr> in
      if \<not> ok then Done (-1, S1)
      else (case get_fde fd (ep_table S1) of
              Inl f \<Rightarrow> Inl f
            | Inr (fde, evs) \<Rightarrow>
                Done (0, S1\<lparr>ep_table := evs[nat fd := fde\<lparr>s_flags := FDEVENT_NONE\<rparr>]\<rparr>)))"

definition epoll_clr ::
  "'k epoll \<Rightarrow> int \<Rightarrow> int \<Rightarrow> ('p, 'k) epoll_fdes \<Rightarrow> (int \<times> ('p, 'k) epoll_fdes) outcome" where
  "epoll_clr K fd flags S =
     (case get_fde fd (ep_table S) of
        Inl f \<Rightarrow> Inl f
      | Inr (fde, evs) \<Rightarrow>
          if s_flags fde AND flags = 0 then Done (0, S\<lparr>ep_table := evs\<rparr>)
          else
            (let fde' = fde\<lparr>s_flags := s_flags fde AND NOT flags\<rparr>;
                 op = (if s_flags fde' \<noteq> 0 then EPOLL_CTL_MOD else EPOLL_CTL_DEL);
                 (ok, k) = epoll_ctl K op fd (epoll_mask (s_flags fde')) (ep_fd S)
             in Done (if ok then 0 else -1, S\<lparr>ep_table := evs[nat fd := fde'], ep_fd := k\<rparr>)))"

text \<open>\<open>epoll_wait\<close>: an error (was it \<open>EINTR\<close>?), or descriptors with their \<open>epoll\<close> event masks.
  \<open>EPOLLPRI\<close> is 2, \<open>EPOLLERR\<close> 8 and \<open>EPOLLHUP\<close> 16.\<close>

datatype wait_answer = Wait_failed bool | Wait_ready "(int \<times> int) list"

definition fdevent_of_epoll :: "int \<Rightarrow> int" where
  "fdevent_of_epoll epe =
     (if epe AND 1 \<noteq> 0 \<or> epe AND 2 \<noteq> 0 then FDEVENT_IN else 0) OR
     (if epe AND 4 \<noteq> 0 then FDEVENT_OUT else 0) OR
     (if epe AND 16 \<noteq> 0 \<or> epe AND 8 \<noteq> 0 then FDEVENT_ERR else 0)"

fun epoll_collect :: "(int \<times> int) list \<Rightarrow> 'p Fdevent list \<Rightarrow> 'p Fdevent list" where
  "epoll_collect [] evs = evs"
| "epoll_collect ((fd, epe) # rs) evs =
     epoll_collect rs (evs[nat fd := (evs ! nat fd)\<lparr>ev_flags := fdevent_of_epoll epe\<rparr>])"

definition epoll_wait ::
  "wait_answer \<Rightarrow> ('p, 'k) epoll_fdes \<Rightarrow> int list option \<times> ('p, 'k) epoll_fdes" where
  "epoll_wait a S =
     (case a of
        Wait_failed eintr \<Rightarrow> (if eintr then Some [] else None, S\<lparr>ep_ready := []\<rparr>)
      | Wait_ready rs \<Rightarrow>
          (Some (map fst rs), S\<lparr>ep_table := epoll_collect rs (ep_table S), ep_ready := map fst rs\<rparr>))"

section \<open>The select back end\<close>

record 'p select_fdes =
  maxfd :: int
  readset :: "int set"
  writeset :: "int set"
  sel_table :: "'p Fdevent list"
  sel_ready :: "int list"

abbreviation (input) FD_SETSIZE :: int where "FD_SETSIZE \<equiv> 1024"

definition select_new :: "'p select_fdes" where
  "select_new = \<lparr>maxfd = -1, readset = {}, writeset = {}, sel_table = [], sel_ready = []\<rparr>"

text \<open>\<open>FD_SET\<close> and \<open>FD_CLR\<close> index a fixed array of bits.\<close>

definition in_fd_set :: "int \<Rightarrow> bool" where
  "in_fd_set fd \<longleftrightarrow> 0 \<le> fd \<and> fd < FD_SETSIZE"

definition select_isset ::
  "int \<Rightarrow> int \<Rightarrow> 'p select_fdes \<Rightarrow> (bool \<times> 'p select_fdes) outcome" where
  "select_isset fd flag S =
     (case get_fde fd (sel_table S) of
        Inl f \<Rightarrow> Inl f
      | Inr (fde, evs) \<Rightarrow> Done (s_flags fde AND flag \<noteq> 0, S\<lparr>sel_table := evs\<rparr>))"

definition select_set ::
  "int \<Rightarrow> int \<Rightarrow> int \<Rightarrow> 'p option \<Rightarrow> 'p select_fdes \<Rightarrow> (int \<times> 'p select_fdes) outcome" where
  "select_set fd flags num ptr S =
     (if fd > FD_SETSIZE - 1 then Done (-1, S)
      else case get_fde fd (sel_table S) of
        Inl f \<Rightarrow> Inl f
      | Inr (fde, evs) \<Rightarrow>
          if s_flags fde AND flags \<noteq> 0 then Done (0, S\<lparr>sel_table := evs\<rparr>)
          else
            Done (0, S\<lparr>readset := (if flags AND FDEVENT_IN \<noteq> 0 then insert fd (readset S) else readset S),
                       writeset := (if flags AND FDEVENT_OUT \<noteq> 0 then insert fd (writeset S) else writeset S),
                       sel_table := evs[nat fd := fde\<lparr>s_flags := s_flags fde OR flags,
                                                      data_num := num, data_ptr := ptr\<rparr>],
                       maxfd := (if fd > maxfd S then fd else maxfd S)\<rparr>))"

text \<open>The loop of \<open>del\<close> stops below 0; the loop of \<open>clr\<close> has no such test.\<close>

function lower_checked :: "'p Fdevent list \<Rightarrow> int \<Rightarrow> int outcome" where
  "lower_checked evs m =
     (if m < 0 then Done m
      else if nat m \<ge> length evs then Fault Out_of_bounds
      else if s_flags (evs ! nat m) = 0 then lower_checked evs (m - 1)
      else Done m)"
  by pat_completeness auto
termination by (relation "measure (\<lambda>(evs, m). nat (m + 1))") auto

function lower :: "'p Fdevent list \<Rightarrow> int \<Rightarrow> int outcome" where
  "lower evs m =
     (if m < 0 \<or> nat m \<ge> length evs then Fault Out_of_bounds
      else if s_flags (evs ! nat m) = 0 then lower evs (m - 1)
      else Done m)"
  by pat_completeness auto
termination by (relation "measure (\<lambda>(evs, m). nat (m + 1))") auto

declare lower.simps [simp del] lower_checked.simps [simp del]

definition select_del :: "int \<Rightarrow> 'p select_fdes \<Rightarrow> (int \<times> 'p select_fdes) outcome" where
  "select_del fd S =
     (if \<not> in_fd_set fd then Fault Out_of_bounds
      else case get_fde fd (sel_table S) of
        Inl f \<Rightarrow> Inl f
      | Inr (fde, evs) \<Rightarrow>
          (let evs' = evs[nat fd := fde\<lparr>s_flags := FDEVENT_NONE\<rparr>] in
           case lower_checked evs' (maxfd S) of
             Inl f \<Rightarrow> Inl f
           | Inr m \<Rightarrow> Done (0, S\<lparr>readset := readset S - {fd}, writeset := writeset S - {fd},
                                 sel_table := evs', maxfd := m\<rparr>)))"

definition select_clr :: "int \<Rightarrow> int \<Rightarrow> 'p select_fdes \<Rightarrow> (int \<times> 'p select_fdes) outcome" where
  "select_clr fd flags S =
     (case get_fde fd (sel_table S) of
        Inl f \<Rightarrow> Inl f
      | Inr (fde, evs) \<Rightarrow>
          if s_flags fde AND flags = 0 then Done (0, S\<lparr>sel_table := evs\<rparr>)
          else
            (let evs' = evs[nat fd := fde\<lparr>s_flags := s_flags fde AND NOT flags\<rparr>] in
             case lower evs' (maxfd S) of
               Inl f \<Rightarrow> Inl f
             | Inr m \<Rightarrow>
                 Done (0, S\<lparr>readset := (if flags AND FDEVENT_IN \<noteq> 0 then readset S - {fd} else readset S),
                            writeset := (if flags AND FDEVENT_OUT \<noteq> 0 then writeset S - {fd} else writeset S),
                            sel_table := evs', maxfd := m\<rparr>)))"

text \<open>\<open>select\<close>: an error, or its return value and the two sets it left.\<close>

datatype select_answer = Select_failed bool | Select_ready int "int set" "int set"

fun select_collect ::
  "int set \<Rightarrow> int set \<Rightarrow> nat \<Rightarrow> nat list \<Rightarrow> 'p Fdevent list \<Rightarrow> int list \<times> 'p Fdevent list" where
  "select_collect r w ret [] evs = ([], evs)"
| "select_collect r w ret (i # is) evs =
     (if ret = 0 then ([], evs)
      else
        (let fl = (if int i \<in> r then FDEVENT_IN else 0) OR (if int i \<in> w then FDEVENT_OUT else 0);
             evs' = evs[i := (evs ! i)\<lparr>ev_flags := fl\<rparr>]
         in if fl \<noteq> 0 then
              (let (rs, evs'') = select_collect r w (ret - 1) is evs' in (int i # rs, evs''))
            else select_collect r w ret is evs'))"

definition select_wait ::
  "select_answer \<Rightarrow> 'p select_fdes \<Rightarrow> int list option \<times> 'p select_fdes" where
  "select_wait a S =
     (case a of
        Select_failed eintr \<Rightarrow> (if eintr then Some [] else None, S\<lparr>sel_ready := []\<rparr>)
      | Select_ready ret r w \<Rightarrow>
          (let (rs, evs) = (if ret > 0 then select_collect r w (nat ret) [0..<nat (maxfd S + 1)] (sel_table S)
                            else ([], sel_table S))
           in (Some rs, S\<lparr>sel_table := evs, sel_ready := rs\<rparr>)))"

section \<open>Lemmas on the table\<close>

lemma get_fde_ok:
  assumes "0 \<le> fd"
  shows "\<exists>fde evs'. get_fde fd evs = Done (fde, evs') \<and> nat fd < length evs' \<and>
    length evs \<le> length evs' \<and> s_flags fde = flags_of evs fd \<and> flags_of evs' = flags_of evs"
proof -
  let ?evs = "evs @ map (\<lambda>i. new_fde (int i)) [length evs..<nat (fd + 1)] :: 'a Fdevent list"
  have len: "length evs \<le> length ?evs" "nat fd < length ?evs" using assms by auto
  have nth: "s_flags (?evs ! i) = (if i < length evs then s_flags (evs ! i) else 0)"
    if "i < length ?evs" for i
    using that by (auto simp: nth_append new_fde_def)
  have "flags_of ?evs = flags_of evs"
  proof
    fix g
    show "flags_of ?evs g = flags_of evs g"
      using nth [of "nat g"] len(1) by (auto simp: flags_of_def)
  qed
  moreover have "s_flags (?evs ! nat fd) = flags_of evs fd"
    using nth [OF len(2)] assms by (simp add: flags_of_def)
  ultimately show ?thesis using assms len by (simp add: get_fde_def Let_def)
qed

lemma flags_of_update:
  "0 \<le> fd \<Longrightarrow> nat fd < length evs \<Longrightarrow> flags_of (evs[nat fd := x]) = (flags_of evs)(fd := s_flags x)"
  by (rule ext) (auto simp: flags_of_def nth_list_update)

definition event_flags :: "int set" where
  "event_flags = {FDEVENT_IN, FDEVENT_OUT, FDEVENT_IN OR FDEVENT_OUT}"

lemma event_flags_cases: "fl \<in> event_flags \<longleftrightarrow> fl = 1 \<or> fl = 4 \<or> fl = 5"
  by (auto simp: event_flags_def)

definition subscription :: "int \<Rightarrow> bool" where
  "subscription x \<longleftrightarrow> x = 0 \<or> x \<in> event_flags"

lemma subscription_ops:
  assumes "subscription x" and "fl \<in> event_flags"
  shows "subscription (x OR fl)" "subscription (x AND NOT fl)" "x OR fl \<noteq> 0"
    "x \<noteq> 0 \<Longrightarrow> epoll_mask x = x" "epoll_mask (x OR fl) = x OR fl"
    "epoll_mask (x AND NOT fl) = x AND NOT fl"
    "(x OR fl) AND 1 \<noteq> 0 \<longleftrightarrow> x AND 1 \<noteq> 0 \<or> fl AND 1 \<noteq> 0"
    "(x OR fl) AND 4 \<noteq> 0 \<longleftrightarrow> x AND 4 \<noteq> 0 \<or> fl AND 4 \<noteq> 0"
    "(x AND NOT fl) AND 1 \<noteq> 0 \<longleftrightarrow> x AND 1 \<noteq> 0 \<and> fl AND 1 = 0"
    "(x AND NOT fl) AND 4 \<noteq> 0 \<longleftrightarrow> x AND 4 \<noteq> 0 \<and> fl AND 4 = 0"
  using assms unfolding subscription_def event_flags_cases
  by (auto simp: epoll_mask_def)

section \<open>The interface of the two back ends\<close>

datatype fd_op = Set_op int int | Clr_op int int | Del_op int

text \<open>What an operation does to the subscriptions.\<close>

fun subscribe :: "fd_op \<Rightarrow> (int \<Rightarrow> int) \<Rightarrow> int \<Rightarrow> int" where
  "subscribe (Set_op fd fl) m = (if m fd AND fl \<noteq> 0 then m else m(fd := m fd OR fl))"
| "subscribe (Clr_op fd fl) m = (if m fd AND fl = 0 then m else m(fd := m fd AND NOT fl))"
| "subscribe (Del_op fd) m = m(fd := 0)"

text \<open>Sensible uses: known flags, usable descriptors other than the anchor (the listening socket,
  which stays subscribed), and \<open>del\<close> of subscribed descriptors only.\<close>

fun sensible_op :: "int \<Rightarrow> (int \<Rightarrow> bool) \<Rightarrow> fd_op \<Rightarrow> (int \<Rightarrow> int) \<Rightarrow> bool" where
  "sensible_op a usable (Set_op fd fl) m \<longleftrightarrow> fd \<noteq> a \<and> usable fd \<and> fl \<in> event_flags"
| "sensible_op a usable (Clr_op fd fl) m \<longleftrightarrow> fd \<noteq> a \<and> usable fd \<and> fl \<in> event_flags"
| "sensible_op a usable (Del_op fd) m \<longleftrightarrow> fd \<noteq> a \<and> usable fd \<and> m fd \<noteq> 0"

fun sensible :: "int \<Rightarrow> (int \<Rightarrow> bool) \<Rightarrow> fd_op list \<Rightarrow> (int \<Rightarrow> int) \<Rightarrow> bool" where
  "sensible a usable [] m \<longleftrightarrow> True"
| "sensible a usable (c # cs) m \<longleftrightarrow> sensible_op a usable c m \<and> sensible a usable cs (subscribe c m)"

fun registry_step ::
  "(int \<Rightarrow> int \<Rightarrow> 's \<Rightarrow> (int \<times> 's) outcome) \<Rightarrow> (int \<Rightarrow> int \<Rightarrow> 's \<Rightarrow> (int \<times> 's) outcome) \<Rightarrow>
   (int \<Rightarrow> 's \<Rightarrow> (int \<times> 's) outcome) \<Rightarrow> fd_op \<Rightarrow> 's \<Rightarrow> (int \<times> 's) outcome" where
  "registry_step st cl dl (Set_op fd fl) s = st fd fl s"
| "registry_step st cl dl (Clr_op fd fl) s = cl fd fl s"
| "registry_step st cl dl (Del_op fd) s = dl fd s"

fun registry_run ::
  "(int \<Rightarrow> int \<Rightarrow> 's \<Rightarrow> (int \<times> 's) outcome) \<Rightarrow> (int \<Rightarrow> int \<Rightarrow> 's \<Rightarrow> (int \<times> 's) outcome) \<Rightarrow>
   (int \<Rightarrow> 's \<Rightarrow> (int \<times> 's) outcome) \<Rightarrow> fd_op list \<Rightarrow> 's \<Rightarrow> (int list \<times> 's) outcome" where
  "registry_run st cl dl [] s = Done ([], s)"
| "registry_run st cl dl (c # cs) s =
     (case registry_step st cl dl c s of
        Inl f \<Rightarrow> Inl f
      | Inr (r, s') \<Rightarrow> map_sum id (\<lambda>(rs, s''). (r # rs, s'')) (registry_run st cl dl cs s'))"

locale fd_registry =
  fixes flags :: "'s \<Rightarrow> int \<Rightarrow> int"
    and ok :: "'s \<Rightarrow> bool"
    and usable :: "int \<Rightarrow> bool"
    and set_fd :: "int \<Rightarrow> int \<Rightarrow> 's \<Rightarrow> (int \<times> 's) outcome"
    and clr_fd :: "int \<Rightarrow> int \<Rightarrow> 's \<Rightarrow> (int \<times> 's) outcome"
    and del_fd :: "int \<Rightarrow> 's \<Rightarrow> (int \<times> 's) outcome"
  assumes set_law: "ok s \<Longrightarrow> usable fd \<Longrightarrow> fl \<in> event_flags \<Longrightarrow>
      \<exists>s'. set_fd fd fl s = Done (0, s') \<and> ok s' \<and> flags s' = subscribe (Set_op fd fl) (flags s)"
    and clr_law: "ok s \<Longrightarrow> usable fd \<Longrightarrow> fl \<in> event_flags \<Longrightarrow> \<exists>a. a \<noteq> fd \<and> flags s a \<noteq> 0 \<Longrightarrow>
      \<exists>s'. clr_fd fd fl s = Done (0, s') \<and> ok s' \<and> flags s' = subscribe (Clr_op fd fl) (flags s)"
    and del_law: "ok s \<Longrightarrow> usable fd \<Longrightarrow> flags s fd \<noteq> 0 \<Longrightarrow>
      \<exists>s'. del_fd fd s = Done (0, s') \<and> ok s' \<and> flags s' = subscribe (Del_op fd) (flags s)"
begin

lemma step_ok:
  assumes "ok s" and "flags s a \<noteq> 0" and "sensible_op a usable c (flags s)"
  shows "\<exists>s'. registry_step set_fd clr_fd del_fd c s = Done (0, s') \<and> ok s' \<and>
    flags s' = subscribe c (flags s) \<and> flags s' a = flags s a"
proof (cases c)
  case (Set_op fd fl)
  with assms set_law [of s fd fl] show ?thesis by fastforce
next
  case (Clr_op fd fl)
  with assms clr_law [of s fd fl] show ?thesis by fastforce
next
  case (Del_op fd)
  with assms del_law [of s fd] show ?thesis by fastforce
qed

lemma run_ok:
  "ok s \<Longrightarrow> flags s a \<noteq> 0 \<Longrightarrow> sensible a usable cs (flags s) \<Longrightarrow>
   \<exists>s'. registry_run set_fd clr_fd del_fd cs s = Done (replicate (length cs) 0, s') \<and> ok s' \<and>
     flags s' = fold subscribe cs (flags s)"
proof (induction cs arbitrary: s)
  case Nil
  then show ?case by simp
next
  case (Cons c cs)
  from step_ok [OF Cons.prems(1,2), of c] Cons.prems(3) obtain s1 where
    s1: "registry_step set_fd clr_fd del_fd c s = Done (0, s1)" "ok s1"
      "flags s1 = subscribe c (flags s)" "flags s1 a = flags s a" by auto
  with Cons.IH [of s1] Cons.prems show ?case by auto
qed

end

section \<open>The epoll back end provides it\<close>

locale epoll_laws =
  fixes K :: "'k epoll" and interest :: "'k \<Rightarrow> int \<rightharpoonup> int"
  assumes create_law: "interest (epoll_create K) = Map.empty"
    and add_law: "epoll_ctl K EPOLL_CTL_ADD fd m k = (True, k') \<Longrightarrow>
      interest k fd = None \<and> interest k' = (interest k)(fd \<mapsto> m)"
    and mod_law: "epoll_ctl K EPOLL_CTL_MOD fd m k = (True, k') \<Longrightarrow>
      interest k fd \<noteq> None \<and> interest k' = (interest k)(fd \<mapsto> m)"
    and ctl_del_law: "epoll_ctl K EPOLL_CTL_DEL fd m k = (True, k') \<Longrightarrow>
      interest k fd \<noteq> None \<and> interest k' = (interest k)(fd := None)"
    and fail_law: "epoll_ctl K cmd fd m k = (False, k') \<Longrightarrow> interest k' = interest k"

locale reliable_epoll = epoll_laws +
  assumes add_works: "0 \<le> fd \<Longrightarrow> interest k fd = None \<Longrightarrow> fst (epoll_ctl K EPOLL_CTL_ADD fd m k)"
    and mod_works: "interest k fd \<noteq> None \<Longrightarrow> fst (epoll_ctl K EPOLL_CTL_MOD fd m k)"
    and del_works: "interest k fd \<noteq> None \<Longrightarrow> fst (epoll_ctl K EPOLL_CTL_DEL fd m k)"

definition epoll_flags :: "('p, 'k) epoll_fdes \<Rightarrow> int \<Rightarrow> int" where
  "epoll_flags S = flags_of (ep_table S)"

text \<open>The invariant: the kernel watches exactly what \<open>s_flags\<close> records.\<close>

definition epoll_ok :: "('k \<Rightarrow> int \<rightharpoonup> int) \<Rightarrow> ('p, 'k) epoll_fdes \<Rightarrow> bool" where
  "epoll_ok interest S \<longleftrightarrow>
     (\<forall>fd. subscription (epoll_flags S fd) \<and>
        interest (ep_fd S) fd = (if epoll_flags S fd = 0 then None else Some (epoll_flags S fd)))"

lemma epoll_okD:
  "epoll_ok interest S \<Longrightarrow> subscription (epoll_flags S fd)"
  "epoll_ok interest S \<Longrightarrow>
     interest (ep_fd S) fd = (if epoll_flags S fd = 0 then None else Some (epoll_flags S fd))"
  by (simp_all add: epoll_ok_def)

lemma epoll_ok_update:
  assumes "epoll_ok interest S" and "epoll_flags S' = (epoll_flags S)(fd := x)" and "subscription x"
    and "interest (ep_fd S') = (interest (ep_fd S))(fd := if x = 0 then None else Some x)"
  shows "epoll_ok interest S'"
  using assms unfolding epoll_ok_def by (auto simp: subscription_def)

context reliable_epoll
begin

lemma ctl_runs:
  assumes "fst (epoll_ctl K c fd m k)"
  obtains k' where "epoll_ctl K c fd m k = (True, k')"
  using assms by (cases "epoll_ctl K c fd m k") auto

lemma epoll_set_ok:
  assumes "epoll_ok interest S" and "0 \<le> fd" and "fl \<in> event_flags"
  shows "\<exists>S'. epoll_set K fd fl num ptr S = Done (0, S') \<and> epoll_ok interest S' \<and>
    epoll_flags S' = subscribe (Set_op fd fl) (epoll_flags S)"
proof -
  from get_fde_ok [OF assms(2), of "ep_table S"] obtain fde evs where
    g: "get_fde fd (ep_table S) = Done (fde, evs)" "nat fd < length evs"
      "s_flags fde = epoll_flags S fd" "flags_of evs = epoll_flags S"
    by (auto simp: epoll_flags_def)
  show ?thesis
  proof (cases "epoll_flags S fd AND fl \<noteq> 0")
    case True
    with g assms(1) show ?thesis
      by (auto simp: epoll_set_def epoll_flags_def epoll_ok_def)
  next
    case False
    let ?x = "epoll_flags S fd OR fl"
    note bits = subscription_ops [OF epoll_okD(1) [OF assms(1), of fd] assms(3)]
    let ?op = "if epoll_flags S fd \<noteq> 0 then EPOLL_CTL_MOD else EPOLL_CTL_ADD"
    have "fst (epoll_ctl K ?op fd ?x (ep_fd S))"
      using add_works [OF assms(2)] mod_works epoll_okD(2) [OF assms(1), of fd] by simp
    then obtain k' where k': "epoll_ctl K ?op fd ?x (ep_fd S) = (True, k')" by (rule ctl_runs)
    have i: "interest k' = (interest (ep_fd S))(fd \<mapsto> ?x)"
      using k' add_law mod_law by (auto split: if_splits)
    let ?S = "S\<lparr>ep_table := evs[nat fd := fde\<lparr>s_flags := ?x, data_num := num, data_ptr := ptr\<rparr>],
        ep_fd := k'\<rparr>"
    have "epoll_set K fd fl num ptr S = Done (0, ?S)"
      using False g bits(5) k' by (simp add: epoll_set_def Let_def)
    moreover have fl: "epoll_flags ?S = (epoll_flags S)(fd := ?x)"
      using flags_of_update [OF assms(2) g(2)] g(4) by (simp add: epoll_flags_def)
    moreover have "epoll_ok interest ?S"
      by (rule epoll_ok_update [OF assms(1) fl bits(1)]) (simp add: i bits(3))
    ultimately show ?thesis using False by simp
  qed
qed

lemma epoll_clr_ok:
  assumes "epoll_ok interest S" and "0 \<le> fd" and "fl \<in> event_flags"
  shows "\<exists>S'. epoll_clr K fd fl S = Done (0, S') \<and> epoll_ok interest S' \<and>
    epoll_flags S' = subscribe (Clr_op fd fl) (epoll_flags S)"
proof -
  from get_fde_ok [OF assms(2), of "ep_table S"] obtain fde evs where
    g: "get_fde fd (ep_table S) = Done (fde, evs)" "nat fd < length evs"
      "s_flags fde = epoll_flags S fd" "flags_of evs = epoll_flags S"
    by (auto simp: epoll_flags_def)
  show ?thesis
  proof (cases "epoll_flags S fd AND fl = 0")
    case True
    with g assms(1) show ?thesis
      by (auto simp: epoll_clr_def epoll_flags_def epoll_ok_def)
  next
    case False
    let ?x = "epoll_flags S fd AND NOT fl"
    note bits = subscription_ops [OF epoll_okD(1) [OF assms(1), of fd] assms(3)]
    let ?op = "if ?x \<noteq> 0 then EPOLL_CTL_MOD else EPOLL_CTL_DEL"
    have "epoll_flags S fd \<noteq> 0" using False by auto
    then have there: "interest (ep_fd S) fd \<noteq> None" using epoll_okD(2) [OF assms(1), of fd] by simp
    then have "fst (epoll_ctl K ?op fd ?x (ep_fd S))" using mod_works del_works by simp
    then obtain k' where k': "epoll_ctl K ?op fd ?x (ep_fd S) = (True, k')" by (rule ctl_runs)
    have i: "interest k' = (interest (ep_fd S))(fd := if ?x = 0 then None else Some ?x)"
      using k' ctl_del_law mod_law by (auto split: if_splits)
    let ?S = "S\<lparr>ep_table := evs[nat fd := fde\<lparr>s_flags := ?x\<rparr>], ep_fd := k'\<rparr>"
    have "epoll_clr K fd fl S = Done (0, ?S)"
      using False g bits(6) k' by (simp add: epoll_clr_def Let_def)
    moreover have fl: "epoll_flags ?S = (epoll_flags S)(fd := ?x)"
      using flags_of_update [OF assms(2) g(2)] g(4) by (simp add: epoll_flags_def)
    moreover have "epoll_ok interest ?S"
      by (rule epoll_ok_update [OF assms(1) fl bits(2)]) (simp add: i)
    ultimately show ?thesis using False by simp
  qed
qed

lemma epoll_del_ok:
  assumes "epoll_ok interest S" and "0 \<le> fd" and "epoll_flags S fd \<noteq> 0"
  shows "\<exists>S'. epoll_del K fd S = Done (0, S') \<and> epoll_ok interest S' \<and>
    epoll_flags S' = subscribe (Del_op fd) (epoll_flags S)"
proof -
  from get_fde_ok [OF assms(2), of "ep_table S"] obtain fde evs where
    g: "get_fde fd (ep_table S) = Done (fde, evs)" "nat fd < length evs"
      "flags_of evs = epoll_flags S"
    by (auto simp: epoll_flags_def)
  have there: "interest (ep_fd S) fd \<noteq> None" using assms(3) epoll_okD(2) [OF assms(1), of fd] by simp
  obtain k' where k': "epoll_ctl K EPOLL_CTL_DEL fd 0 (ep_fd S) = (True, k')"
    using ctl_runs [OF del_works [OF there, of 0]] by blast
  have i: "interest k' = (interest (ep_fd S))(fd := None)" using ctl_del_law [OF k'] by simp
  let ?S = "S\<lparr>ep_fd := k', ep_table := evs[nat fd := fde\<lparr>s_flags := 0\<rparr>]\<rparr>"
  have "epoll_del K fd S = Done (0, ?S)" using g k' by (simp add: epoll_del_def Let_def)
  moreover have fl: "epoll_flags ?S = (epoll_flags S)(fd := 0)"
    using flags_of_update [OF assms(2) g(2)] g(3) by (simp add: epoll_flags_def)
  moreover have "epoll_ok interest ?S"
    by (rule epoll_ok_update [OF assms(1) fl]) (simp_all add: i subscription_def)
  ultimately show ?thesis by simp
qed

lemma epoll_new_ok: "epoll_ok interest (epoll_new K)" "epoll_flags (epoll_new K) = (\<lambda>fd. 0)"
  by (auto simp: epoll_ok_def epoll_flags_def epoll_new_def flags_of_def create_law subscription_def)

end

sublocale reliable_epoll \<subseteq> epoll: fd_registry epoll_flags "epoll_ok interest" "\<lambda>fd. 0 \<le> fd"
  "\<lambda>fd fl. epoll_set K fd fl n p" "epoll_clr K" "epoll_del K" for n p
  by unfold_locales (use epoll_set_ok epoll_clr_ok epoll_del_ok in blast)+

lemma epoll_registry:
  assumes "reliable_epoll K interest"
  shows "fd_registry epoll_flags (epoll_ok interest) (\<lambda>fd. 0 \<le> fd)
    (\<lambda>fd fl. epoll_set K fd fl n p) (epoll_clr K) (epoll_del K)"
  by unfold_locales
    (use reliable_epoll.epoll_set_ok [OF assms] reliable_epoll.epoll_clr_ok [OF assms]
      reliable_epoll.epoll_del_ok [OF assms] in blast)+

text \<open>An instance that keeps the promises: the interest list itself.\<close>

definition map_epoll :: "(int \<rightharpoonup> int) epoll" where
  "map_epoll =
     \<lparr>epoll_create = Map.empty,
      epoll_ctl = (\<lambda>c fd m k.
        case c of
          EPOLL_CTL_ADD \<Rightarrow> if fd < 0 \<or> k fd \<noteq> None then (False, k) else (True, k(fd \<mapsto> m))
        | EPOLL_CTL_MOD \<Rightarrow> if k fd = None then (False, k) else (True, k(fd \<mapsto> m))
        | EPOLL_CTL_DEL \<Rightarrow> if k fd = None then (False, k) else (True, k(fd := None)))\<rparr>"

interpretation kernel: reliable_epoll map_epoll "\<lambda>k. k"
  by unfold_locales (auto simp: map_epoll_def split: if_splits ctl_op.splits)

section \<open>The select back end provides it\<close>

definition select_flags :: "'p select_fdes \<Rightarrow> int \<Rightarrow> int" where
  "select_flags S = flags_of (sel_table S)"

definition select_ok :: "'p select_fdes \<Rightarrow> bool" where
  "select_ok S \<longleftrightarrow>
     (\<forall>fd. subscription (select_flags S fd) \<and>
        (fd \<in> readset S \<longleftrightarrow> select_flags S fd AND FDEVENT_IN \<noteq> 0) \<and>
        (fd \<in> writeset S \<longleftrightarrow> select_flags S fd AND FDEVENT_OUT \<noteq> 0)) \<and>
     -1 \<le> maxfd S \<and> maxfd S < int (length (sel_table S)) \<and>
     (\<forall>fd. select_flags S fd \<noteq> 0 \<longrightarrow> fd \<le> maxfd S)"

lemma select_okD:
  assumes "select_ok S"
  shows "subscription (select_flags S fd)"
    "fd \<in> readset S \<longleftrightarrow> select_flags S fd AND FDEVENT_IN \<noteq> 0"
    "fd \<in> writeset S \<longleftrightarrow> select_flags S fd AND FDEVENT_OUT \<noteq> 0"
    "-1 \<le> maxfd S" "maxfd S < int (length (sel_table S))"
    "select_flags S fd \<noteq> 0 \<Longrightarrow> fd \<le> maxfd S"
  using assms unfolding select_ok_def by blast+

lemma flags_of_nth: "0 \<le> m \<Longrightarrow> nat m < length evs \<Longrightarrow> s_flags (evs ! nat m) = flags_of evs m"
  by (simp add: flags_of_def)

lemma lower_ok:
  "m < int (length evs) \<Longrightarrow> flags_of evs a \<noteq> 0 \<Longrightarrow> a \<le> m \<Longrightarrow>
   \<exists>m'. lower evs m = Done m' \<and> 0 \<le> m' \<and> m' \<le> m \<and>
     (\<forall>fd. flags_of evs fd \<noteq> 0 \<longrightarrow> fd \<le> m \<longrightarrow> fd \<le> m')"
proof (induction evs m rule: lower.induct)
  case (1 evs m)
  have a: "0 \<le> a" using "1.prems"(2) by (auto simp: flags_of_def split: if_splits)
  with "1.prems" have range: "\<not> (m < 0 \<or> nat m \<ge> length evs)" by auto
  then have fl: "s_flags (evs ! nat m) = flags_of evs m" by (simp add: flags_of_nth)
  show ?case
  proof (cases "flags_of evs m = 0")
    case True
    with "1.prems" have "a \<le> m - 1" by (cases "a = m") auto
    with "1.IH" [OF range] "1.prems" True fl obtain m' where
      m': "lower evs (m - 1) = Done m'" "0 \<le> m'" "m' \<le> m - 1"
        "\<forall>fd. flags_of evs fd \<noteq> 0 \<longrightarrow> fd \<le> m - 1 \<longrightarrow> fd \<le> m'" by auto
    have "fd \<le> m'" if "flags_of evs fd \<noteq> 0" "fd \<le> m" for fd
      using that m'(4) True by (cases "fd = m") auto
    with m' range fl True show ?thesis by (subst lower.simps) auto
  next
    case False
    with range fl show ?thesis by (subst lower.simps) auto
  qed
qed

lemma lower_checked_ok:
  "-1 \<le> m \<Longrightarrow> m < int (length evs) \<Longrightarrow>
   \<exists>m'. lower_checked evs m = Done m' \<and> -1 \<le> m' \<and> m' \<le> m \<and>
     (\<forall>fd. flags_of evs fd \<noteq> 0 \<longrightarrow> fd \<le> m \<longrightarrow> fd \<le> m')"
proof (induction evs m rule: lower_checked.induct)
  case (1 evs m)
  show ?case
  proof (cases "m < 0")
    case True
    with "1.prems" show ?thesis by (subst lower_checked.simps) auto
  next
    case False
    with "1.prems" have range: "\<not> nat m \<ge> length evs" by auto
    with False have fl: "s_flags (evs ! nat m) = flags_of evs m" by (simp add: flags_of_nth)
    show ?thesis
    proof (cases "flags_of evs m = 0")
      case True
      with "1.IH" [OF False range] "1.prems" False fl obtain m' where
        m': "lower_checked evs (m - 1) = Done m'" "-1 \<le> m'" "m' \<le> m - 1"
          "\<forall>fd. flags_of evs fd \<noteq> 0 \<longrightarrow> fd \<le> m - 1 \<longrightarrow> fd \<le> m'" by auto
      have "fd \<le> m'" if "flags_of evs fd \<noteq> 0" "fd \<le> m" for fd
        using that m'(4) True by (cases "fd = m") auto
      with m' range fl True False show ?thesis by (subst lower_checked.simps) auto
    next
      case nz: False
      with False range fl show ?thesis by (subst lower_checked.simps) auto
    qed
  qed
qed

lemma select_set_ok:
  assumes "select_ok S" and "in_fd_set fd" and "fl \<in> event_flags"
  shows "\<exists>S'. select_set fd fl num ptr S = Done (0, S') \<and> select_ok S' \<and>
    select_flags S' = subscribe (Set_op fd fl) (select_flags S)"
proof -
  have fd: "0 \<le> fd" "\<not> fd > FD_SETSIZE - 1" using assms(2) by (auto simp: in_fd_set_def)
  from get_fde_ok [OF fd(1), of "sel_table S"] obtain fde evs where
    g: "get_fde fd (sel_table S) = Done (fde, evs)" "nat fd < length evs"
      "length (sel_table S) \<le> length evs" "s_flags fde = select_flags S fd"
      "flags_of evs = select_flags S"
    by (auto simp: select_flags_def)
  note ok = select_okD [OF assms(1)]
  show ?thesis
  proof (cases "select_flags S fd AND fl \<noteq> 0")
    case True
    have "select_ok (S\<lparr>sel_table := evs\<rparr>)"
      unfolding select_ok_def select_flags_def
      using ok g(3) by (simp add: g(5))
    with True g fd show ?thesis by (simp add: select_set_def select_flags_def)
  next
    case False
    let ?x = "select_flags S fd OR fl"
    note bits = subscription_ops [OF ok(1) [of fd] assms(3)]
    let ?S = "S\<lparr>readset := (if fl AND FDEVENT_IN \<noteq> 0 then insert fd (readset S) else readset S),
        writeset := (if fl AND FDEVENT_OUT \<noteq> 0 then insert fd (writeset S) else writeset S),
        sel_table := evs[nat fd := fde\<lparr>s_flags := ?x, data_num := num, data_ptr := ptr\<rparr>],
        maxfd := (if fd > maxfd S then fd else maxfd S)\<rparr>"
    have run: "select_set fd fl num ptr S = Done (0, ?S)"
      using False g fd by (simp add: select_set_def)
    have flags: "select_flags ?S = (select_flags S)(fd := ?x)"
      using flags_of_update [OF fd(1) g(2)] g(5) by (simp add: select_flags_def)
    have "select_ok ?S"
      unfolding select_ok_def flags
    proof (intro conjI allI impI)
      fix h
      show "subscription (((select_flags S)(fd := ?x)) h)" using bits(1) ok(1) by simp
      show "h \<in> readset ?S \<longleftrightarrow> ((select_flags S)(fd := ?x)) h AND FDEVENT_IN \<noteq> 0"
        using ok(2) [of h] bits(7) by auto
      show "h \<in> writeset ?S \<longleftrightarrow> ((select_flags S)(fd := ?x)) h AND FDEVENT_OUT \<noteq> 0"
        using ok(3) [of h] bits(8) by auto
      show "((select_flags S)(fd := ?x)) h \<noteq> 0 \<Longrightarrow> h \<le> maxfd ?S"
        using ok(6) [of h] by (auto split: if_splits)
    qed (use ok(4,5) g(2,3) fd(1) in auto)
    with run flags False show ?thesis by simp
  qed
qed

text \<open>\<open>clr\<close> and \<open>del\<close> both store fewer flags and lower \<open>maxfd\<close>.\<close>

lemma select_shrink:
  assumes "select_ok S" and "in_fd_set fd" and "nat fd < length evs"
    and "length (sel_table S) \<le> length evs" and "flags_of evs = select_flags S"
    and "subscription (s_flags fde)" and "select_flags S fd \<noteq> 0"
    and "\<forall>h. h \<in> R \<longleftrightarrow> ((select_flags S)(fd := s_flags fde)) h AND FDEVENT_IN \<noteq> 0"
    and "\<forall>h. h \<in> W \<longleftrightarrow> ((select_flags S)(fd := s_flags fde)) h AND FDEVENT_OUT \<noteq> 0"
    and "-1 \<le> m" and "m \<le> maxfd S"
    and "\<forall>h. flags_of (evs[nat fd := fde]) h \<noteq> 0 \<longrightarrow> h \<le> maxfd S \<longrightarrow> h \<le> m"
  shows "select_ok (S\<lparr>readset := R, writeset := W, sel_table := evs[nat fd := fde], maxfd := m\<rparr>)"
    and "select_flags (S\<lparr>readset := R, writeset := W, sel_table := evs[nat fd := fde], maxfd := m\<rparr>) =
      (select_flags S)(fd := s_flags fde)"
proof -
  have fd: "0 \<le> fd" using assms(2) by (simp add: in_fd_set_def)
  note ok = select_okD [OF assms(1)]
  let ?S = "S\<lparr>readset := R, writeset := W, sel_table := evs[nat fd := fde], maxfd := m\<rparr>"
  have upd: "flags_of (evs[nat fd := fde]) = (select_flags S)(fd := s_flags fde)"
    using flags_of_update [OF fd assms(3)] assms(5) by simp
  then show flags: "select_flags ?S = (select_flags S)(fd := s_flags fde)"
    by (simp add: select_flags_def)
  show "select_ok ?S"
    unfolding select_ok_def flags
  proof (intro conjI allI impI)
    fix h
    show "subscription (((select_flags S)(fd := s_flags fde)) h)" using ok(1) assms(6) by simp
    show "h \<in> readset ?S \<longleftrightarrow> ((select_flags S)(fd := s_flags fde)) h AND FDEVENT_IN \<noteq> 0"
      using assms(8) by simp
    show "h \<in> writeset ?S \<longleftrightarrow> ((select_flags S)(fd := s_flags fde)) h AND FDEVENT_OUT \<noteq> 0"
      using assms(9) by simp
    assume "((select_flags S)(fd := s_flags fde)) h \<noteq> 0"
    then show "h \<le> maxfd ?S"
      using assms(12) ok(6) [of h] ok(6) [of fd] assms(7) upd by (auto split: if_splits)
  qed (use ok(5) assms(4,10,11) in auto)
qed

lemma select_clr_ok:
  assumes "select_ok S" and "in_fd_set fd" and "fl \<in> event_flags"
    and "\<exists>a. a \<noteq> fd \<and> select_flags S a \<noteq> 0"
  shows "\<exists>S'. select_clr fd fl S = Done (0, S') \<and> select_ok S' \<and>
    select_flags S' = subscribe (Clr_op fd fl) (select_flags S)"
proof -
  have fd: "0 \<le> fd" using assms(2) by (simp add: in_fd_set_def)
  from get_fde_ok [OF fd, of "sel_table S"] obtain fde evs where
    g: "get_fde fd (sel_table S) = Done (fde, evs)" "nat fd < length evs"
      "length (sel_table S) \<le> length evs" "s_flags fde = select_flags S fd"
      "flags_of evs = select_flags S"
    by (auto simp: select_flags_def)
  note ok = select_okD [OF assms(1)]
  show ?thesis
  proof (cases "select_flags S fd AND fl = 0")
    case True
    have "select_ok (S\<lparr>sel_table := evs\<rparr>)"
      unfolding select_ok_def select_flags_def
      using ok g(3) by (simp add: g(5))
    with True g show ?thesis by (simp add: select_clr_def select_flags_def)
  next
    case False
    let ?x = "select_flags S fd AND NOT fl"
    let ?fde = "fde\<lparr>s_flags := ?x\<rparr>"
    note bits = subscription_ops [OF ok(1) [of fd] assms(3)]
    have nz: "select_flags S fd \<noteq> 0" using False by auto
    obtain a where a: "a \<noteq> fd" "select_flags S a \<noteq> 0" using assms(4) by blast
    have upd: "flags_of (evs[nat fd := ?fde]) = (select_flags S)(fd := ?x)"
      using flags_of_update [OF fd g(2)] g(5) by simp
    have "maxfd S < int (length (evs[nat fd := ?fde]))" using ok(5) g(3) by simp
    from lower_ok [OF this, of a] a ok(6) [of a] upd obtain m where
      m: "lower (evs[nat fd := ?fde]) (maxfd S) = Done m" "0 \<le> m" "m \<le> maxfd S"
        "\<forall>h. flags_of (evs[nat fd := ?fde]) h \<noteq> 0 \<longrightarrow> h \<le> maxfd S \<longrightarrow> h \<le> m" by auto
    let ?R = "if fl AND FDEVENT_IN \<noteq> 0 then readset S - {fd} else readset S"
    let ?W = "if fl AND FDEVENT_OUT \<noteq> 0 then writeset S - {fd} else writeset S"
    have "\<forall>h. h \<in> ?R \<longleftrightarrow> ((select_flags S)(fd := s_flags ?fde)) h AND FDEVENT_IN \<noteq> 0"
      using ok(2) bits(9) by auto
    moreover have "\<forall>h. h \<in> ?W \<longleftrightarrow> ((select_flags S)(fd := s_flags ?fde)) h AND FDEVENT_OUT \<noteq> 0"
      using ok(3) bits(10) by auto
    moreover have "select_clr fd fl S = Done (0, S\<lparr>readset := ?R, writeset := ?W,
        sel_table := evs[nat fd := ?fde], maxfd := m\<rparr>)"
      using False g m(1) by (simp add: select_clr_def Let_def)
    ultimately show ?thesis
      using select_shrink [OF assms(1,2) g(2,3,5), of ?fde ?R ?W m] bits(2) nz m(2,3,4) False
      by simp
  qed
qed

lemma select_del_ok:
  assumes "select_ok S" and "in_fd_set fd" and "select_flags S fd \<noteq> 0"
  shows "\<exists>S'. select_del fd S = Done (0, S') \<and> select_ok S' \<and>
    select_flags S' = subscribe (Del_op fd) (select_flags S)"
proof -
  have fd: "0 \<le> fd" using assms(2) by (simp add: in_fd_set_def)
  from get_fde_ok [OF fd, of "sel_table S"] obtain fde evs where
    g: "get_fde fd (sel_table S) = Done (fde, evs)" "nat fd < length evs"
      "length (sel_table S) \<le> length evs" "flags_of evs = select_flags S"
    by (auto simp: select_flags_def)
  note ok = select_okD [OF assms(1)]
  let ?fde = "fde\<lparr>s_flags := FDEVENT_NONE\<rparr>"
  have "maxfd S < int (length (evs[nat fd := ?fde]))" using ok(5) g(3) by simp
  from lower_checked_ok [OF ok(4) this] obtain m where
    m: "lower_checked (evs[nat fd := ?fde]) (maxfd S) = Done m" "-1 \<le> m" "m \<le> maxfd S"
      "\<forall>h. flags_of (evs[nat fd := ?fde]) h \<noteq> 0 \<longrightarrow> h \<le> maxfd S \<longrightarrow> h \<le> m" by blast
  have "select_del fd S = Done (0, S\<lparr>readset := readset S - {fd}, writeset := writeset S - {fd},
      sel_table := evs[nat fd := ?fde], maxfd := m\<rparr>)"
    using g m(1) assms(2) by (simp add: select_del_def Let_def)
  moreover have "\<forall>h. h \<in> readset S - {fd} \<longleftrightarrow>
      ((select_flags S)(fd := s_flags ?fde)) h AND FDEVENT_IN \<noteq> 0"
    using ok(2) by auto
  moreover have "\<forall>h. h \<in> writeset S - {fd} \<longleftrightarrow>
      ((select_flags S)(fd := s_flags ?fde)) h AND FDEVENT_OUT \<noteq> 0"
    using ok(3) by auto
  ultimately show ?thesis
    using select_shrink [OF assms(1,2) g(2,3,4), of ?fde "readset S - {fd}" "writeset S - {fd}" m]
      assms(3) m(2,3,4)
    by (simp add: subscription_def)
qed

lemma select_new_ok: "select_ok select_new" "select_flags select_new = (\<lambda>fd. 0)"
  by (auto simp: select_ok_def select_flags_def select_new_def flags_of_def subscription_def)

interpretation sel: fd_registry select_flags select_ok in_fd_set
  "\<lambda>fd fl. select_set fd fl n p" select_clr select_del for n p
  by unfold_locales (use select_set_ok select_clr_ok select_del_ok in blast)+

lemma lower_none:
  "\<forall>fd. flags_of evs fd = 0 \<Longrightarrow> lower evs m = Fault Out_of_bounds"
proof (induction evs m rule: lower.induct)
  case (1 evs m)
  show ?case
  proof (cases "m < 0 \<or> nat m \<ge> length evs")
    case True
    then show ?thesis by (subst lower.simps) simp
  next
    case False
    then have "s_flags (evs ! nat m) = 0" using "1.prems" flags_of_nth [of m evs] by simp
    with "1.IH" [OF False this "1.prems"] False show ?thesis by (subst lower.simps) simp
  qed
qed

lemma sensible_mono:
  "(\<And>fd. P fd \<Longrightarrow> Q fd) \<Longrightarrow> sensible a P cs m \<Longrightarrow> sensible a Q cs m"
proof (induction cs arbitrary: m)
  case Nil
  then show ?case by simp
next
  case (Cons c cs)
  then show ?case by (cases c) auto
qed

section \<open>Properties\<close>

text \<open>C18. Seen through the interface, the two back ends are the same: after the listening socket is
  watched, every sensible sequence of \<open>set\<close>, \<open>clr\<close> and \<open>del\<close> succeeds on both, both record the same
  subscriptions, the epoll instance watches exactly these, and the two sets that \<open>select\<close> is called
  with hold exactly the descriptors with \<open>FDEVENT_IN\<close> and \<open>FDEVENT_OUT\<close>. (The kernel's \<open>epoll_ctl\<close>
  succeeds whenever its documented preconditions hold.)\<close>

theorem backends_agree:
  assumes "reliable_epoll K interest" and "in_fd_set a"
    and "sensible a in_fd_set cs ((\<lambda>fd. 0)(a := FDEVENT_IN))"
  shows "\<exists>E S.
    registry_run (\<lambda>fd fl. epoll_set K fd fl n p) (epoll_clr K) (epoll_del K)
      (Set_op a FDEVENT_IN # cs) (epoll_new K) = Done (replicate (Suc (length cs)) 0, E) \<and>
    registry_run (\<lambda>fd fl. select_set fd fl n p) select_clr select_del
      (Set_op a FDEVENT_IN # cs) select_new = Done (replicate (Suc (length cs)) 0, S) \<and>
    epoll_flags E = select_flags S \<and>
    (\<forall>fd. interest (ep_fd E) fd =
       (if select_flags S fd = 0 then None else Some (select_flags S fd))) \<and>
    readset S = {fd. select_flags S fd AND FDEVENT_IN \<noteq> 0} \<and>
    writeset S = {fd. select_flags S fd AND FDEVENT_OUT \<noteq> 0}"
proof -
  let ?m = "(\<lambda>fd. 0)(a := FDEVENT_IN) :: int \<Rightarrow> int"
  note ep = reliable_epoll.epoll_new_ok [OF assms(1)] and se = select_new_ok
  have a: "0 \<le> a" "FDEVENT_IN \<in> event_flags" using assms(2) by (auto simp: in_fd_set_def event_flags_cases)
  from reliable_epoll.epoll_set_ok [OF assms(1) ep(1) a, of n p] obtain E0 where E0: "epoll_set K a FDEVENT_IN n p (epoll_new K) = Done (0, E0)"
    "epoll_ok interest E0" "epoll_flags E0 = ?m" by (auto simp: ep(2))
  from select_set_ok [OF se(1) assms(2) a(2), of n p] obtain S0 where
    S0: "select_set a FDEVENT_IN n p select_new = Done (0, S0)" "select_ok S0" "select_flags S0 = ?m"
    by (auto simp: se(2))
  have sens: "sensible a (\<lambda>fd. 0 \<le> fd) cs ?m"
    using sensible_mono [OF _ assms(3)] by (auto simp: in_fd_set_def)
  have fdr: "fd_registry epoll_flags (epoll_ok interest) (\<lambda>fd. 0 \<le> fd)
      (\<lambda>fd fl. epoll_set K fd fl n p) (epoll_clr K) (epoll_del K)"
    using assms(1) by (rule epoll_registry)
  from fd_registry.run_ok [OF fdr E0(2), of a cs] E0(3) sens obtain E where
    E: "registry_run (\<lambda>fd fl. epoll_set K fd fl n p) (epoll_clr K) (epoll_del K) cs E0 =
        Done (replicate (length cs) 0, E)" "epoll_ok interest E" "epoll_flags E = fold subscribe cs ?m"
    by auto
  from sel.run_ok [OF S0(2), of a cs n p] S0(3) assms(3) obtain S where
    S: "registry_run (\<lambda>fd fl. select_set fd fl n p) select_clr select_del cs S0 =
        Done (replicate (length cs) 0, S)" "select_ok S" "select_flags S = fold subscribe cs ?m"
    by auto
  show ?thesis
    using E S E0(1) S0(1) epoll_okD(2) [OF E(2)] select_okD(2,3) [OF S(2)]
    by (intro exI [of _ E] exI [of _ S]) (simp add: set_eq_iff)
qed

theorem backends_agree_witness:
  "\<exists>E S. registry_run (\<lambda>fd fl. epoll_set map_epoll fd fl 1 (None :: nat option)) (epoll_clr map_epoll) (epoll_del map_epoll)
      [Set_op 3 1, Set_op 5 1, Set_op 5 4, Clr_op 5 1] (epoll_new map_epoll) = Done ([0, 0, 0, 0], E) \<and>
    registry_run (\<lambda>fd fl. select_set fd fl 1 (None :: nat option)) select_clr select_del
      [Set_op 3 1, Set_op 5 1, Set_op 5 4, Clr_op 5 1] select_new = Done ([0, 0, 0, 0], S) \<and>
    epoll_flags E = select_flags S"
proof -
  let ?cs = "[Set_op 5 1, Set_op 5 4, Clr_op 5 1]"
  have a: "in_fd_set 3" and s: "sensible 3 in_fd_set ?cs ((\<lambda>fd. 0)(3 := FDEVENT_IN))"
    by (simp_all add: in_fd_set_def event_flags_cases)
  have r: "replicate (Suc (length ?cs)) (0 :: int) = [0, 0, 0, 0]" by simp
  show ?thesis
    using backends_agree [OF kernel.reliable_epoll_axioms a s, of 1 "None :: nat option"]
    unfolding r by blast
qed

text \<open>\<open>clr\<close> of the \<open>select\<close> back end has no lower bound in the loop that lowers \<open>maxfd\<close>: taking
  the last flags off the last watched descriptor reads \<open>events[-1]\<close>.\<close>

theorem select_last_clr_underruns:
  assumes "in_fd_set fd" and "select_flags S fd AND fl \<noteq> 0" and "select_flags S fd AND NOT fl = 0"
    and "\<forall>h. h \<noteq> fd \<longrightarrow> select_flags S h = 0"
  shows "select_clr fd fl S = Fault Out_of_bounds"
proof -
  have fd: "0 \<le> fd" using assms(1) by (simp add: in_fd_set_def)
  from get_fde_ok [OF fd, of "sel_table S"] obtain fde evs where
    g: "get_fde fd (sel_table S) = Done (fde, evs)" "nat fd < length evs"
      "s_flags fde = select_flags S fd" "flags_of evs = select_flags S"
    by (auto simp: select_flags_def)
  have "\<forall>h. flags_of (evs[nat fd := fde\<lparr>s_flags := 0\<rparr>]) h = 0"
    using flags_of_update [OF fd g(2), of "fde\<lparr>s_flags := 0\<rparr>"] g(4) assms(4) by simp
  from lower_none [OF this] show ?thesis
    using g assms(2,3) by (simp add: select_clr_def Let_def)
qed

theorem select_last_clr_underruns_witness:
  "case select_set 3 FDEVENT_IN 0 (None :: nat option) select_new of
     Inl f \<Rightarrow> False | Inr (r, S) \<Rightarrow> select_clr 3 FDEVENT_IN S = Fault Out_of_bounds"
proof -
  obtain S where S: "select_set 3 FDEVENT_IN 0 (None :: nat option) select_new = Done (0, S)"
    "select_flags S = (\<lambda>fd. 0)(3 := FDEVENT_IN)"
    using select_set_ok [OF select_new_ok(1), of 3 FDEVENT_IN 0 "None :: nat option"]
    by (auto simp: in_fd_set_def event_flags_cases select_new_ok(2))
  then show ?thesis using select_last_clr_underruns [of 3 S FDEVENT_IN] by (simp add: in_fd_set_def)
qed

text \<open>When the kernel refuses a subscription, \<open>Fdevents::set\<close> on epoll returns \<open>-1\<close> but keeps the
  flags: the kernel does not watch the descriptor for them, \<open>isset\<close> says that it does, and trying
  again reports success without asking the kernel.\<close>

theorem failed_set_recorded:
  assumes "epoll_laws K interest" and "0 \<le> fd" and "fl \<in> event_flags"
    and "epoll_set K fd fl n p S = Done (-1, S')"
  shows "interest (ep_fd S') = interest (ep_fd S) \<and>
    (\<exists>S''. epoll_isset fd fl S' = Done (True, S'')) \<and>
    (\<exists>S''. epoll_set K fd fl n p S' = Done (0, S'') \<and> ep_fd S'' = ep_fd S')"
proof -
  from get_fde_ok [OF assms(2), of "ep_table S"] obtain fde evs where
    g: "get_fde fd (ep_table S) = Done (fde, evs)" "nat fd < length evs" by blast
  let ?x = "s_flags fde OR fl"
  from assms(4) g obtain cmd k where
    k: "epoll_ctl K cmd fd (epoll_mask ?x) (ep_fd S) = (False, k)"
      "S' = S\<lparr>ep_table := evs[nat fd := fde\<lparr>s_flags := ?x, data_num := n, data_ptr := p\<rparr>], ep_fd := k\<rparr>"
    by (auto simp: epoll_set_def Let_def split: if_splits prod.splits)
  have "flags_of (ep_table S') fd = ?x"
    using flags_of_update [OF assms(2) g(2)] k(2) by simp
  moreover have "?x AND fl = fl" by (rule bit_eqI) (auto simp: bit_simps)
  then have "?x AND fl \<noteq> 0" using assms(3) by (auto simp: event_flags_cases)
  moreover from get_fde_ok [OF assms(2), of "ep_table S'"] obtain fde2 evs2 where
    "get_fde fd (ep_table S') = Done (fde2, evs2)" "s_flags fde2 = flags_of (ep_table S') fd" by blast
  ultimately show ?thesis
    using epoll_laws.fail_law [OF assms(1) k(1)] k(2)
    by (auto simp: epoll_isset_def epoll_set_def)
qed

theorem failed_set_recorded_witness:
  "\<exists>S'' :: (nat, int \<rightharpoonup> int) epoll_fdes.
     epoll_set \<lparr>epoll_create = Map.empty, epoll_ctl = (\<lambda>c fd m k. (False, k))\<rparr> 0 FDEVENT_IN 0 None
       (snd (projr (epoll_set \<lparr>epoll_create = Map.empty, epoll_ctl = (\<lambda>c fd m k. (False, k))\<rparr> 0
          FDEVENT_IN 0 None
          (epoll_new \<lparr>epoll_create = Map.empty, epoll_ctl = (\<lambda>c fd m k. (False, k))\<rparr>)))) = Done (0, S'')"
proof -
  let ?K = "\<lparr>epoll_create = Map.empty, epoll_ctl = (\<lambda>c fd m k. (False, k))\<rparr> :: (int \<rightharpoonup> int) epoll"
  have "epoll_laws ?K (\<lambda>k. k)" by unfold_locales simp_all
  moreover obtain S' where "epoll_set ?K 0 FDEVENT_IN 0 None (epoll_new ?K :: (nat, int \<rightharpoonup> int) epoll_fdes) = Done (-1, S')"
    by (simp add: epoll_set_def get_fde_def epoll_new_def new_fde_def)
  ultimately show ?thesis
    using failed_set_recorded [of ?K "\<lambda>k. k" 0 FDEVENT_IN 0 None "epoll_new ?K" S']
    by (auto simp: event_flags_cases)
qed

end
