(* ===== verification/Server.thy ===== *)
theory Server
  imports KvStore LinkExchange Fdevents
begin

text \<open>
  \<open>server-5204/net.cpp\<close>, \<open>msg.cpp\<close> and \<open>server.cpp\<close>: the epoll server. Links are never freed by the
  code, so a pointer to a link is its number in the list of all links made. \<open>msg.cpp\<close> calls
  \<open>kvstore_process_packet\<close> with two arguments, a request and a response to fill in, while the library
  under \<open>kvstorelib/\<close> declares and defines it with one (the second is left as a comment in the
  header): the function the server calls is not in the repository, and is a parameter.
\<close>

section \<open>State\<close>

record ('k, 'st) NetworkServer =
  fdes :: "(nat, 'k) epoll_fdes"
  client_conn :: nat
  conn_count :: int
  conns :: "Link list"
  store :: 'st

text \<open>What the kernel has for the server: connections to accept, bytes to read and room to write, by
  descriptor; and what was sent so far.\<close>

record env =
  accepts :: "accept_event list"
  reads :: "int \<Rightarrow> read_event list"
  writes :: "int \<Rightarrow> write_event list"
  sent :: "int \<Rightarrow> string"

abbreviation (input) CO_OK :: int where "CO_OK \<equiv> 0"
abbreviation (input) CO_ERR :: int where "CO_ERR \<equiv> -1"

definition and_then ::
  "'a outcome option \<Rightarrow> ('a \<Rightarrow> 'b outcome option) \<Rightarrow> 'b outcome option" where
  "and_then m g =
     (case m of None \<Rightarrow> None | Some (Inl f) \<Rightarrow> Some (Inl f) | Some (Inr x) \<Rightarrow> g x)"

lemma and_then_simps [simp]:
  "and_then None g = None" "and_then (Some (Inl f)) g = Some (Inl f)"
  "and_then (Some (Inr x)) g = g x"
  by (simp_all add: and_then_def)

definition put_conn :: "nat \<Rightarrow> Link \<Rightarrow> ('k, 'st) NetworkServer \<Rightarrow> ('k, 'st) NetworkServer" where
  "put_conn c L S = S\<lparr>conns := (conns S)[c := L]\<rparr>"

section \<open>Requests (msg.cpp)\<close>

text \<open>\<open>process req old st\<close>: the store and the response written over \<open>old\<close>.\<close>

type_synonym 'st handler = "string \<Rightarrow> string \<Rightarrow> 'st \<Rightarrow> ('st \<times> string) outcome"

definition frame :: "nat \<Rightarrow> string \<Rightarrow> string" where
  "frame i bs = span (MESSAGE_SIZE * i) MESSAGE_SIZE bs"

fun process_all :: "'st handler \<Rightarrow> string \<Rightarrow> string \<Rightarrow> nat list \<Rightarrow> 'st \<Rightarrow> ('st \<times> string list) outcome" where
  "process_all process msgs resp_msgs [] st = Done (st, [])"
| "process_all process msgs resp_msgs (i # is) st =
     (case process (frame i msgs) (frame i resp_msgs) st of
        Inl f \<Rightarrow> Inl f
      | Inr (st', r) \<Rightarrow>
          map_sum id (\<lambda>(st'', rs). (st'', r # rs)) (process_all process msgs resp_msgs is st'))"

definition req_recv ::
  "heap \<Rightarrow> 'k epoll \<Rightarrow> 'st handler \<Rightarrow> nat \<Rightarrow> ('k, 'st) NetworkServer \<Rightarrow> env \<Rightarrow>
   (int \<times> ('k, 'st) NetworkServer \<times> env) outcome option" where
  "req_recv H K process c S E =
     (let conn = conns S ! c; fd = sock conn in
      and_then (Link_msg_read H (reads E fd) conn) (\<lambda>(msg, left).
        let E1 = E\<lparr>reads := (reads E)(fd := left)\<rparr> in
        case msg of
          None \<Rightarrow>
            (let S1 = put_conn c (mark_error conn) S in
             and_then (Some (epoll_del K fd (fdes S1))) (\<lambda>(_, F). Some (Done (CO_ERR, S1\<lparr>fdes := F\<rparr>, E1))))
        | Some b \<Rightarrow>
            (let num_msgs = nat (data_size b) div MESSAGE_SIZE mod 65536 in
             and_then (Some (process_all process (queued b) (fresh H (num_msgs * MESSAGE_SIZE))
                              [0..<num_msgs] (store S))) (\<lambda>(st, rs).
               let rsp = Buffer_wrap (concat rs);
                   S1 = (put_conn c (conn\<lparr>omsg_q := omsg_q conn @ [rsp]\<rparr>) S)\<lparr>store := st\<rparr> in
               and_then (Some (epoll_set K fd FDEVENT_OUT 1 (Some c) (fdes S1)))
                 (\<lambda>(_, F). Some (Done (CO_OK, S1\<lparr>fdes := F\<rparr>, E1)))))))"

definition rsp_send ::
  "heap \<Rightarrow> 'k epoll \<Rightarrow> nat \<Rightarrow> ('k, 'st) NetworkServer \<Rightarrow> env \<Rightarrow>
   (int \<times> ('k, 'st) NetworkServer \<times> env) outcome option" where
  "rsp_send H K c S E =
     (let conn = conns S ! c; fd = sock conn in
      case omsg_q conn of
        [] \<Rightarrow> and_then (Some (epoll_clr K fd FDEVENT_OUT (fdes S)))
                (\<lambda>(_, F). Some (Done (CO_OK, S\<lparr>fdes := F\<rparr>, E)))
      | smsg # q \<Rightarrow>
          (let conn1 = conn\<lparr>omsg_q := q\<rparr> in
           and_then (Link_msg_write H (writes E fd) conn1 smsg) (\<lambda>(len, b, out, left).
             let E1 = E\<lparr>writes := (writes E)(fd := left), sent := (sent E)(fd := sent E fd @ out)\<rparr> in
             if len \<le> 0 then Some (Done (CO_ERR, put_conn c (mark_error conn1) S, E1))
             else Some (Done (CO_OK, put_conn c conn1 S, E1)))))"

section \<open>The event loop (net.cpp)\<close>

definition server_recv ::
  "heap \<Rightarrow> 'k epoll \<Rightarrow> 'st handler \<Rightarrow> nat option \<Rightarrow> ('k, 'st) NetworkServer \<Rightarrow> env \<Rightarrow>
   (int \<times> ('k, 'st) NetworkServer \<times> env) outcome option" where
  "server_recv H K process ptr S E =
     (case ptr of
        None \<Rightarrow> Some (Fault Null_deref)
      | Some c \<Rightarrow>
          if error_flag (conns S ! c) then Some (Done (CO_ERR, S, E)) else req_recv H K process c S E)"

definition server_send ::
  "heap \<Rightarrow> 'k epoll \<Rightarrow> nat option \<Rightarrow> ('k, 'st) NetworkServer \<Rightarrow> env \<Rightarrow>
   (int \<times> ('k, 'st) NetworkServer \<times> env) outcome option" where
  "server_send H K ptr S E =
     (case ptr of
        None \<Rightarrow> Some (Fault Null_deref)
      | Some c \<Rightarrow>
          if error_flag (conns S ! c) then Some (Done (CO_ERR, S, E)) else rsp_send H K c S E)"

definition accept_conn ::
  "heap \<Rightarrow> ('k, 'st) NetworkServer \<Rightarrow> env \<Rightarrow> (nat option \<times> ('k, 'st) NetworkServer \<times> env) option" where
  "accept_conn H S E =
     (case Link_accept H (accepts E) of
        None \<Rightarrow> None
      | Some (None, left) \<Rightarrow> Some (None, S, E\<lparr>accepts := left\<rparr>)
      | Some (Some L, left) \<Rightarrow>
          Some (Some (length (conns S)), S\<lparr>conns := conns S @ [noblock True L]\<rparr>, E\<lparr>accepts := left\<rparr>))"

text \<open>The body of the loop for one ready descriptor.\<close>

definition handle_event ::
  "heap \<Rightarrow> 'k epoll \<Rightarrow> 'st handler \<Rightarrow> int \<Rightarrow> ('k, 'st) NetworkServer \<Rightarrow> env \<Rightarrow>
   (('k, 'st) NetworkServer \<times> env) outcome option" where
  "handle_event H K process fd S E =
     (let fde = ep_table (fdes S) ! nat fd in
      if data_ptr fde = Some (client_conn S) then
        (case accept_conn H S E of
           None \<Rightarrow> None
         | Some (None, S1, E1) \<Rightarrow> Some (Done (S1, E1))
         | Some (Some c, S1, E1) \<Rightarrow>
             and_then (Some (epoll_set K (sock (conns S1 ! c)) FDEVENT_IN 1 (Some c) (fdes S1)))
               (\<lambda>(_, F). Some (Done (S1\<lparr>conn_count := conn_count S1 + 1, fdes := F\<rparr>, E1))))
      else if ev_flags fde AND FDEVENT_IN \<noteq> 0 then
        and_then (server_recv H K process (data_ptr fde) S E) (\<lambda>(_, S1, E1). Some (Done (S1, E1)))
      else if ev_flags fde AND FDEVENT_OUT \<noteq> 0 then
        and_then (server_send H K (data_ptr fde) S E) (\<lambda>(_, S1, E1). Some (Done (S1, E1)))
      else Some (Done (S, E)))"

fun handle_events ::
  "heap \<Rightarrow> 'k epoll \<Rightarrow> 'st handler \<Rightarrow> int list \<Rightarrow> ('k, 'st) NetworkServer \<Rightarrow> env \<Rightarrow>
   (('k, 'st) NetworkServer \<times> env) outcome option" where
  "handle_events H K process [] S E = Some (Done (S, E))"
| "handle_events H K process (fd # ready) S E =
     and_then (handle_event H K process fd S E) (\<lambda>(S1, E1). handle_events H K process ready S1 E1)"

text \<open>The loop over the answers of \<open>wait\<close>; it ends only when \<open>wait\<close> fails.\<close>

fun serve ::
  "heap \<Rightarrow> 'k epoll \<Rightarrow> 'st handler \<Rightarrow> wait_answer list \<Rightarrow> ('k, 'st) NetworkServer \<Rightarrow> env \<Rightarrow>
   (int \<times> ('k, 'st) NetworkServer \<times> env) outcome option" where
  "serve H K process [] S E = None"
| "serve H K process (a # as) S E =
     (case epoll_wait a (fdes S) of
        (None, F) \<Rightarrow> Some (Done (CO_ERR, S\<lparr>fdes := F\<rparr>, E))
      | (Some ready, F) \<Rightarrow>
          and_then (handle_events H K process ready (S\<lparr>fdes := F\<rparr>) E)
            (\<lambda>(S1, E1). serve H K process as S1 E1))"

definition main_loop ::
  "heap \<Rightarrow> 'k epoll \<Rightarrow> 'st handler \<Rightarrow> wait_answer list \<Rightarrow> ('k, 'st) NetworkServer \<Rightarrow> env \<Rightarrow>
   (int \<times> ('k, 'st) NetworkServer \<times> env) outcome option" where
  "main_loop H K process as S E =
     and_then (Some (epoll_set K (sock (conns S ! client_conn S)) FDEVENT_IN 0 (Some (client_conn S)) (fdes S)))
       (\<lambda>(_, F). serve H K process as (S\<lparr>fdes := F\<rparr>) E)"

text \<open>The constructor exits when the listening socket cannot be made; \<open>main\<close> first makes the store.\<close>

definition NetworkServer_new ::
  "heap \<Rightarrow> 'k epoll \<Rightarrow> socket_answers \<Rightarrow> 'st \<Rightarrow> ('k, 'st) NetworkServer outcome" where
  "NetworkServer_new H K a st =
     (case Link_listen H a ''192.168.0.151'' 12345 of
        (None, closed) \<Rightarrow> Fault (Exit 1)
      | (Some L, closed) \<Rightarrow>
          Done \<lparr>fdes = epoll_new K, client_conn = 0, conn_count = 0, conns = [L], store = st\<rparr>)"

definition server_main ::
  "heap \<Rightarrow> 'k epoll \<Rightarrow> 'h cuckoo \<Rightarrow> 'h store_ptr handler \<Rightarrow> socket_answers \<Rightarrow> wait_answer list \<Rightarrow> env \<Rightarrow>
   (int \<times> ('k, 'h store_ptr) NetworkServer \<times> env) outcome option" where
  "server_main H K ck process a as E =
     and_then (Some (NetworkServer_new H K a (snd (kvstore_create ck Null))))
       (\<lambda>S. and_then (main_loop H K process as S E) (\<lambda>(_, S1, E1). Some (Done (0, S1, E1))))"

section \<open>One exchange\<close>

text \<open>A non-blocking \<open>msg_read\<close> of what one segment brought.\<close>

lemma msg_read_segment:
  assumes "noblock_flag L" and "bs \<noteq> []" and "length bs < 8192" and "\<forall>n. can_alloc H n"
  shows "\<exists>b. Link_msg_read H (Arrived bs # Read_err EWOULDBLOCK # evs) L = Some (Done (Some b, evs)) \<and>
    queued b = bs \<and> data_size b = int (length bs)"
proof -
  let ?b0 = "Buffer_new H INIT_BUFFER_SIZE"
  let ?b1 = "?b0\<lparr>buf := buf ?b0 @ fresh H (8192 - 1024), total_size := 8192\<rparr>"
  have g: "first_grow H ?b0 = Done ?b1"
    using assms(4) by (simp add: first_grow_def grow_def grow_size_def Buffer_new_def Let_def)
  have n: "nice ?b1 = Done ?b1" by (simp add: nice_def Buffer_new_def)
  have wf: "wf_buffer ?b1" by (simp add: wf_buffer_def Buffer_new_def)
  have sp: "space ?b1 = 8192" by (simp add: space_def Buffer_new_def)
  have "int (length bs) \<le> space ?b1" using sp assms(3) by simp
  from write_slot_ok [OF wf this] obtain b2 where b2: "write_slot bs ?b1 = Done b2" "wf_buffer b2"
    "queued b2 = queued ?b1 @ bs" by blast
  have q: "queued b2 = bs" using b2(3) by (simp add: queued_def Buffer_new_def)
  have "data_size b2 = int (length bs)" using length_queued [OF b2(2)] q by simp
  moreover have "space b2 = 8192 - int (length bs)"
    using b2(1) by (auto simp: write_slot_def space_def Buffer_new_def split: if_splits)
  then have "\<not> space b2 \<le> 0" using assms(3) by simp
  then have "read_loop True (Arrived bs # Read_err EWOULDBLOCK # evs) 0 ?b1 =
      Some (Done (Got (int (length bs)), b2, evs))"
    using sp assms(2,3) b2(1) by (subst read_loop_arrived) (simp_all add: read_loop_err Let_def)
  ultimately show ?thesis
    using g n q assms(1) by (simp add: Link_msg_read_def)
qed

text \<open>Sending a queued response when the kernel takes all of it, or only a part.\<close>

lemma write_buffer_all:
  assumes "wf_buffer b" and "0 < data_size b" and "data_size b \<le> int m" and "total_size b \<noteq> 1024"
  shows "\<exists>b'. write_buffer H True (Accepts m # evs) b =
    Some (Done (data_size b, b', queued b, evs))"
proof -
  let ?n = "nat (data_size b)"
  have len: "min m ?n = ?n" "int ?n = data_size b" using assms(2,3) by auto
  have q: "take ?n (queued b) = queued b" using length_queued_nat [OF assms(1)] by simp
  have wf: "wf_buffer (decr (data_size b) b)" using assms(1,2) by (simp add: wf_decr)
  have zero: "data_size (decr (data_size b) b) = 0" by (simp add: decr_def)
  from nice_ok [OF wf] obtain b' where "nice (decr (data_size b) b) = Done b'" by blast
  with assms(2,4) len q zero show ?thesis
    by (cases evs) (auto simp: write_buffer_def first_grow_def Let_def)
qed

lemma write_buffer_part:
  assumes "wf_buffer b" and "0 < m" and "int m < data_size b" and "total_size b \<noteq> 1024"
  shows "\<exists>b'. write_buffer H True (Accepts m # Write_err EWOULDBLOCK # evs) b =
    Some (Done (int m, b', take m (queued b), evs))"
proof -
  have len: "min m (nat (data_size b)) = m" using assms(3) by simp
  have wf: "wf_buffer (decr (int m) b)" using assms by (simp add: wf_decr)
  have pos: "0 < data_size (decr (int m) b)" using assms(3) by (simp add: decr_def)
  from nice_ok [OF wf] obtain b' where "nice (decr (int m) b) = Done b'" by blast
  with assms(2,3,4) len pos show ?thesis
    by (auto simp: write_buffer_def first_grow_def Let_def)
qed

lemma epoll_set_runs: "0 \<le> fd \<Longrightarrow> \<exists>r F'. epoll_set K fd fl n p F = Done (r, F')"
  using get_fde_ok [of fd "ep_table F"] by (auto simp: epoll_set_def Let_def split: prod.splits)

text \<open>Whatever it calls in the kernel, \<open>set\<close> leaves every other subscription alone and adds its flags to
  that of the descriptor.\<close>

lemma epoll_set_flags:
  assumes "0 \<le> fd" and "epoll_set K fd fl n p F = Done (r, F')"
  shows "flags_of (ep_table F') = subscribe (Set_op fd fl) (flags_of (ep_table F))"
proof -
  from get_fde_ok [OF assms(1), of "ep_table F"] obtain fde evs where
    g: "get_fde fd (ep_table F) = Done (fde, evs)" "nat fd < length evs"
      "s_flags fde = flags_of (ep_table F) fd" "flags_of evs = flags_of (ep_table F)" by blast
  with assms(2) flags_of_update [OF assms(1) g(2)] show ?thesis
    by (auto simp: epoll_set_def Let_def split: if_splits prod.splits)
qed

lemma subscribe_keeps: "m fd AND g \<noteq> 0 \<Longrightarrow> subscribe (Set_op fd fl) m fd AND g \<noteq> 0"
  by (auto simp: bit.conj_disj_distrib2 or_eq_0_iff)

lemma subscribe_adds: "subscribe (Set_op fd FDEVENT_OUT) m fd AND FDEVENT_OUT \<noteq> 0"
  by (auto simp: bit.conj_disj_distrib2)

lemma req_recv_runs:
  assumes "conns S ! c = L" and "noblock_flag L"
    and "bs \<noteq> []" and "length bs < 8192" and "\<forall>n. can_alloc H n"
    and "reads E (sock L) = Arrived bs # Read_err EWOULDBLOCK # evs"
    and "process_all process bs (fresh H (length bs div MESSAGE_SIZE * MESSAGE_SIZE))
      [0..<length bs div MESSAGE_SIZE] (store S) = Done (st, rs)"
    and F: "epoll_set K (sock L) FDEVENT_OUT 1 (Some c) (fdes S) = Done (r, F)"
  shows "req_recv H K process c S E =
    Some (Done (CO_OK, (put_conn c (L\<lparr>omsg_q := omsg_q L @ [Buffer_wrap (concat rs)]\<rparr>) S)
      \<lparr>store := st, fdes := F\<rparr>, E\<lparr>reads := (reads E)(sock L := evs)\<rparr>))"
proof -
  from msg_read_segment [OF assms(2-5), of evs] obtain b where
    b: "Link_msg_read H (Arrived bs # Read_err EWOULDBLOCK # evs) L = Some (Done (Some b, evs))"
      "queued b = bs" "data_size b = int (length bs)" by blast
  have n: "nat (data_size b) div MESSAGE_SIZE mod 65536 = length bs div MESSAGE_SIZE"
    using assms(4) b(3) by simp
  show ?thesis
    unfolding req_recv_def Let_def assms(1,6) b(1) and_then_simps prod.case option.case b(2) n assms(7)
    using F by (simp add: put_conn_def)
qed

lemma req_recv_segment:
  assumes "c < length (conns S)" and "conns S ! c = L" and "noblock_flag L" and "0 \<le> sock L"
    and "bs \<noteq> []" and "length bs < 8192" and "\<forall>n. can_alloc H n"
    and "reads E (sock L) = Arrived bs # Read_err EWOULDBLOCK # evs"
    and "process_all process bs (fresh H (length bs div MESSAGE_SIZE * MESSAGE_SIZE))
      [0..<length bs div MESSAGE_SIZE] (store S) = Done (st, rs)"
  shows "\<exists>S' E'. req_recv H K process c S E = Some (Done (CO_OK, S', E')) \<and>
    conns S' = (conns S)[c := L\<lparr>omsg_q := omsg_q L @ [Buffer_wrap (concat rs)]\<rparr>] \<and>
    (\<exists>r. epoll_set K (sock L) FDEVENT_OUT 1 (Some c) (fdes S) = Done (r, fdes S')) \<and>
    store S' = st \<and> reads E' (sock L) = evs \<and> writes E' = writes E \<and> sent E' = sent E"
proof -
  from epoll_set_runs [OF assms(4), of K FDEVENT_OUT 1 "Some c" "fdes S"] obtain r F where
    "epoll_set K (sock L) FDEVENT_OUT 1 (Some c) (fdes S) = Done (r, F)" by blast
  with req_recv_runs [OF assms(2,3,5-9) this] show ?thesis by (simp add: put_conn_def)
qed

text \<open>A queued response that the socket takes whole.\<close>

lemma rsp_send_runs:
  assumes "conns S ! c = L" and "noblock_flag L" and "omsg_q L = Buffer_wrap bs # q"
    and "bs \<noteq> []" and "length bs \<le> m" and "length bs \<noteq> 1024" and "int (length bs) \<le> INT_MAX"
    and "writes E (sock L) = Accepts m # wevs"
  shows "rsp_send H K c S E =
    Some (Done (CO_OK, put_conn c (L\<lparr>omsg_q := q\<rparr>) S,
      E\<lparr>writes := (writes E)(sock L := wevs),
        sent := (sent E)(sock L := sent E (sock L) @ bs)\<rparr>))"
proof -
  let ?b = "Buffer_wrap bs"
  have "wf_buffer ?b" by (rule wf_Buffer_wrap) (rule assms(7))
  moreover have "data_size ?b = int (length bs)" "total_size ?b = int (length bs)"
    by (simp_all add: Buffer_wrap_def)
  moreover have "int (length bs) \<noteq> 1024" "0 < int (length bs)" using assms(4,6) by simp_all
  ultimately obtain b' where w: "write_buffer H True (Accepts m # wevs) ?b =
      Some (Done (int (length bs), b', bs, wevs))"
    using write_buffer_all [of ?b m H wevs] assms(5) by auto
  with assms show ?thesis by (simp add: rsp_send_def Link_msg_write_def Let_def)
qed

section \<open>A sample server\<close>

text \<open>A server with one non-blocking connection on descriptor 7, for concrete instances.\<close>

definition sample_heap :: heap where
  "sample_heap = \<lparr>can_alloc = \<lambda>n. True, junk = \<lambda>n. CHR ''?''\<rparr>"

definition sample_link :: Link where
  "sample_link = noblock True (Link_new sample_heap)\<lparr>sock := 7\<rparr>"

definition sample_server :: "Link \<Rightarrow> (int \<rightharpoonup> int, unit) NetworkServer" where
  "sample_server L =
     \<lparr>fdes = epoll_new map_epoll, client_conn = 1, conn_count = 1, conns = [L], store = ()\<rparr>"

definition sample_env :: "read_event list \<Rightarrow> write_event list \<Rightarrow> env" where
  "sample_env rs ws = \<lparr>accepts = [], reads = (\<lambda>fd. rs), writes = (\<lambda>fd. ws), sent = (\<lambda>fd. [])\<rparr>"

lemma sample_simps [simp]:
  "sock sample_link = 7" "noblock_flag sample_link" "omsg_q sample_link = []"
  "conns (sample_server L) = [L]" "store (sample_server L) = ()" "can_alloc sample_heap n"
  "reads (sample_env rs ws) fd = rs" "writes (sample_env rs ws) fd = ws" "sent (sample_env rs ws) fd = []"
  by (simp_all add: sample_link_def sample_server_def sample_heap_def sample_env_def noblock_def
      Link_new_def)

section \<open>Properties\<close>

text \<open>A segment of whole requests is answered in order: when it holds 1 to 163 requests of 50
  bytes, \<open>req_recv\<close> hands each one to the handler, in order, and queues the responses as one message;
  when the socket takes it, \<open>rsp_send\<close> sends exactly these bytes and empties the queue.\<close>

theorem requests_answered_in_order:
  assumes "c < length (conns S)" and "conns S ! c = L" and "noblock_flag L" and "0 \<le> sock L"
    and "omsg_q L = []" and "length bs = MESSAGE_SIZE * n" and "0 < n" and "n \<le> 163"
    and "\<forall>n. can_alloc H n" and "reads E (sock L) = Arrived bs # Read_err EWOULDBLOCK # evs"
    and "process_all process bs (fresh H (MESSAGE_SIZE * n)) [0..<n] (store S) = Done (st, rs)"
    and "\<forall>r \<in> set rs. length r = MESSAGE_SIZE" and "length rs = n"
    and "writes E (sock L) = Accepts m # wevs" and "MESSAGE_SIZE * n \<le> m"
  shows "\<exists>S1 E1 S2 E2. req_recv H K process c S E = Some (Done (CO_OK, S1, E1)) \<and> store S1 = st \<and>
    rsp_send H K c S1 E1 = Some (Done (CO_OK, S2, E2)) \<and>
    sent E2 (sock L) = sent E (sock L) @ concat rs \<and> omsg_q (conns S2 ! c) = []"
proof -
  have div: "length bs div MESSAGE_SIZE = n" using assms(6) by simp
  have "bs \<noteq> []" "length bs < 8192" using assms(6,7,8) by auto
  from req_recv_segment [OF assms(1-4) this assms(9,10), of process st rs K] assms(11) div obtain S1 E1
    where 1: "req_recv H K process c S E = Some (Done (CO_OK, S1, E1))"
      "conns S1 = (conns S)[c := L\<lparr>omsg_q := [Buffer_wrap (concat rs)]\<rparr>]" "store S1 = st"
      "writes E1 = writes E" "sent E1 = sent E"
    by (auto simp: assms(5) mult.commute)
  have len: "length (concat rs) = MESSAGE_SIZE * n"
    using assms(12) unfolding assms(13) [symmetric] by (induction rs) auto
  moreover have "length (concat rs) \<noteq> 1024" unfolding len by presburger
  moreover have "conns S1 ! c = L\<lparr>omsg_q := [Buffer_wrap (concat rs)]\<rparr>" using 1(2) assms(1) by simp
  ultimately have "rsp_send H K c S1 E1 =
      Some (Done (CO_OK, put_conn c (L\<lparr>omsg_q := []\<rparr>) S1,
        E1\<lparr>writes := (writes E1)(sock L := wevs),
           sent := (sent E1)(sock L := sent E1 (sock L) @ concat rs)\<rparr>))"
    using rsp_send_runs [of S1 c "L\<lparr>omsg_q := [Buffer_wrap (concat rs)]\<rparr>" "concat rs" "[]" m E1 wevs H K]
      assms(3,7,8,14,15) 1(4) by fastforce
  with 1 assms(1) show ?thesis by (auto simp: put_conn_def)
qed

theorem requests_answered_in_order_witness:
  "\<exists>S1 E1 S2 E2.
    req_recv sample_heap map_epoll (\<lambda>req old st. Done (st, req)) 0 (sample_server sample_link)
      (sample_env [Arrived (replicate 50 CHR ''a''), Read_err EWOULDBLOCK] [Accepts 64]) =
        Some (Done (CO_OK, S1, E1)) \<and>
    rsp_send sample_heap map_epoll 0 S1 E1 = Some (Done (CO_OK, S2, E2)) \<and>
    sent E2 7 = replicate 50 CHR ''a''"
proof -
  let ?bs = "replicate 50 CHR ''a''"
  let ?E = "sample_env [Arrived ?bs, Read_err EWOULDBLOCK] [Accepts 64]"
  have "process_all (\<lambda>req old st. Done (st, req)) ?bs (fresh sample_heap (MESSAGE_SIZE * 1)) [0..<1] () =
      Done ((), [?bs])"
    by (simp add: frame_def span_def)
  with requests_answered_in_order [of 0 "sample_server sample_link" sample_link ?bs 1 sample_heap ?E "[]"
      "\<lambda>req old st. Done (st, req)" "()" "[?bs]" 64 "[]" map_epoll]
  show ?thesis by simp blast
qed

text \<open>C19. A response that the socket takes only in part is lost: \<open>rsp_send\<close> has already removed it
  from the queue and frees it, reports success, and no state of the server holds the rest.\<close>

theorem partial_write_loses_rest:
  assumes "c < length (conns S)" and "conns S ! c = L" and "noblock_flag L"
    and "omsg_q L = [Buffer_wrap bs]" and "0 < m" and "m < length bs" and "length bs \<noteq> 1024"
    and "int (length bs) \<le> INT_MAX"
    and "writes E (sock L) = Accepts m # Write_err EWOULDBLOCK # wevs"
  shows "\<exists>S' E'. rsp_send H K c S E = Some (Done (CO_OK, S', E')) \<and>
    sent E' (sock L) = sent E (sock L) @ take m bs \<and>
    conns S' = (conns S)[c := L\<lparr>omsg_q := []\<rparr>]"
proof -
  let ?b = "Buffer_wrap bs"
  from write_buffer_part [of ?b m H wevs] wf_Buffer_wrap [OF assms(8)] assms(5,6,7) obtain b' where
    w: "write_buffer H True (Accepts m # Write_err EWOULDBLOCK # wevs) ?b =
      Some (Done (int m, b', take m bs, wevs))"
    by (auto simp: Buffer_wrap_def [THEN arg_cong, of data_size] Buffer_wrap_def [THEN arg_cong, of total_size])
  then show ?thesis
    using assms by (simp add: rsp_send_def Link_msg_write_def Let_def put_conn_def)
qed

theorem partial_write_loses_rest_witness:
  "\<exists>S' E'. rsp_send sample_heap map_epoll 0
      (sample_server (sample_link\<lparr>omsg_q := [Buffer_wrap ''abcd'']\<rparr>))
      (sample_env [] [Accepts 1, Write_err EWOULDBLOCK]) = Some (Done (CO_OK, S', E')) \<and>
    sent E' 7 = ''a''"
  using partial_write_loses_rest [of 0 "sample_server (sample_link\<lparr>omsg_q := [Buffer_wrap ''abcd'']\<rparr>)"
      "sample_link\<lparr>omsg_q := [Buffer_wrap ''abcd'']\<rparr>" "''abcd''" 1
      "sample_env [] [Accepts 1, Write_err EWOULDBLOCK]" "[]" sample_heap map_epoll]
  by auto

text \<open>C20. A segment that ends inside its first request (1 to 49 bytes) kills the connection without
  an answer: \<open>req_recv\<close> drops the bytes and queues an empty response, \<open>rsp_send\<close> takes the empty
  write for an error and marks the link, and from then on every \<open>recv\<close> and \<open>send\<close> fails without
  touching anything. All that happens to the event set is \<open>set(FDEVENT_OUT)\<close>: the link keeps its
  descriptor, which is now watched for writing and still for whatever it was watched for before, and
  the subscriptions of the other descriptors are those of the start.\<close>

theorem short_segment_kills_link:
  assumes "c < length (conns S)" and "conns S ! c = L" and "noblock_flag L" and "0 \<le> sock L"
    and "omsg_q L = []" and "0 < length bs" and "length bs < MESSAGE_SIZE" and "\<forall>n. can_alloc H n"
    and "reads E (sock L) = Arrived bs # Read_err EWOULDBLOCK # evs"
    and "writes E (sock L) = wevs"
  shows "\<exists>S1 E1 S2 E2. req_recv H K process c S E = Some (Done (CO_OK, S1, E1)) \<and>
    rsp_send H K c S1 E1 = Some (Done (CO_ERR, S2, E2)) \<and> sent E2 (sock L) = sent E (sock L) \<and>
    reads E2 (sock L) = evs \<and> store S2 = store S \<and>
    conns S2 = (conns S)[c := mark_error L] \<and> sock (conns S2 ! c) = sock L \<and>
    (\<exists>r. epoll_set K (sock L) FDEVENT_OUT 1 (Some c) (fdes S) = Done (r, fdes S2)) \<and>
    flags_of (ep_table (fdes S2)) (sock L) AND FDEVENT_OUT \<noteq> 0 \<and>
    (\<forall>fl. flags_of (ep_table (fdes S)) (sock L) AND fl \<noteq> 0 \<longrightarrow>
       flags_of (ep_table (fdes S2)) (sock L) AND fl \<noteq> 0) \<and>
    (\<forall>fd. fd \<noteq> sock L \<longrightarrow> flags_of (ep_table (fdes S2)) fd = flags_of (ep_table (fdes S)) fd) \<and>
    server_recv H K process (Some c) S2 E2 = Some (Done (CO_ERR, S2, E2)) \<and>
    server_send H K (Some c) S2 E2 = Some (Done (CO_ERR, S2, E2))"
proof -
  have div: "length bs div MESSAGE_SIZE = 0" using assms(7) by simp
  have "bs \<noteq> []" "length bs < 8192" using assms(6,7) by auto
  from req_recv_segment [OF assms(1-4) this assms(8,9), of process "store S" "[]" K] div obtain S1 E1 r
    where 1: "req_recv H K process c S E = Some (Done (CO_OK, S1, E1))"
      "conns S1 = (conns S)[c := L\<lparr>omsg_q := [Buffer_wrap []]\<rparr>]" "store S1 = store S"
      "reads E1 (sock L) = evs" "writes E1 = writes E" "sent E1 = sent E"
      and F: "epoll_set K (sock L) FDEVENT_OUT 1 (Some c) (fdes S) = Done (r, fdes S1)"
    by (auto simp: assms(5))
  define S2 where "S2 = put_conn c (mark_error (L\<lparr>omsg_q := []\<rparr>)) S1"
  define E2 where
    "E2 = E1\<lparr>writes := (writes E1)(sock L := wevs), sent := (sent E1)(sock L := sent E1 (sock L) @ [])\<rparr>"
  have w: "write_buffer H True wevs (Buffer_wrap []) =
      Some (Done (0, Buffer_wrap [], [], wevs))"
    by (cases wevs) (simp_all add: write_buffer_def first_grow_def Buffer_wrap_def nice_def)
  have "conns S1 ! c = L\<lparr>omsg_q := [Buffer_wrap []]\<rparr>" using 1(2) assms(1) by simp
  with w 1(4,5,6) assms(3,10) 1(2) assms(1) have
    2: "rsp_send H K c S1 E1 = Some (Done (CO_ERR, S2, E2))"
    by (simp add: rsp_send_def Link_msg_write_def Let_def S2_def E2_def)
  have E2: "sent E2 (sock L) = sent E (sock L)" "reads E2 (sock L) = evs"
    using 1(4,6) by (simp_all add: E2_def)
  have "mark_error (L\<lparr>omsg_q := []\<rparr>) = mark_error L" using assms(5) by (cases L) simp
  with 1(2,3) have S2: "conns S2 = (conns S)[c := mark_error L]" "fdes S2 = fdes S1" "store S2 = store S"
    by (simp_all add: put_conn_def S2_def)
  then have dead: "sock (conns S2 ! c) = sock L" "error_flag (conns S2 ! c)"
    using assms(1) by (simp_all add: mark_error_def)
  from epoll_set_flags [OF assms(4) F] have
    fl: "flags_of (ep_table (fdes S2)) = subscribe (Set_op (sock L) FDEVENT_OUT) (flags_of (ep_table (fdes S)))"
    using S2(2) by simp
  have "server_recv H K process (Some c) S2 E2 = Some (Done (CO_ERR, S2, E2))"
    "server_send H K (Some c) S2 E2 = Some (Done (CO_ERR, S2, E2))"
    using dead(2) by (simp_all add: server_recv_def server_send_def)
  moreover have "\<forall>fd. fd \<noteq> sock L \<longrightarrow> flags_of (ep_table (fdes S2)) fd = flags_of (ep_table (fdes S)) fd"
    "flags_of (ep_table (fdes S2)) (sock L) AND FDEVENT_OUT \<noteq> 0"
    "\<forall>fl. flags_of (ep_table (fdes S)) (sock L) AND fl \<noteq> 0 \<longrightarrow>
       flags_of (ep_table (fdes S2)) (sock L) AND fl \<noteq> 0"
    unfolding fl using subscribe_adds subscribe_keeps by (simp, blast+)
  moreover have "\<exists>r. epoll_set K (sock L) FDEVENT_OUT 1 (Some c) (fdes S) = Done (r, fdes S2)"
    using F S2(2) by auto
  ultimately show ?thesis using 1(1) 2 E2 S2(1,3) dead(1) by blast
qed

theorem short_segment_kills_link_witness:
  "\<exists>S1 E1 S2 E2.
    req_recv sample_heap map_epoll (\<lambda>req old st. Done (st, req)) 0 (sample_server sample_link)
      (sample_env [Arrived ''abc'', Read_err EWOULDBLOCK] [Accepts 64]) = Some (Done (CO_OK, S1, E1)) \<and>
    rsp_send sample_heap map_epoll 0 S1 E1 = Some (Done (CO_ERR, S2, E2))"
  using short_segment_kills_link [of 0 "sample_server sample_link" sample_link "''abc''" sample_heap
      "sample_env [Arrived ''abc'', Read_err EWOULDBLOCK] [Accepts 64]" "[]" "[Accepts 64]" map_epoll
      "\<lambda>req old st. Done (st, req)"]
  by auto

end
