(* ===== verification/MtcpServer.thy ===== *)
theory MtcpServer
  imports KvStore
begin

text \<open>
  \<open>mtcp_kvstore/kvstore.c\<close>: the server on the mTCP stack. What the stack answers to each call is
  explicit: for every socket the results of its reads and writes, for the listener the results of
  \<open>mtcp_accept\<close>; a loop that would wait because its list is used up has the value \<open>None\<close>. The calls
  that change the stack's state are recorded in order. \<open>errno\<close> is part of the state, because the code
  reads it after calls that need not set it.
\<close>

section \<open>State\<close>

datatype mread = MData string | MEof | MRead_err int
datatype mwrite = MAccept nat | MWrite_err int
datatype maccept = MConn int | MAccept_err int

datatype mtcp_call =
    Ctl_add int
  | Ctl_mod int
  | Ctl_del int
  | Close_sock int
  | Nonblock int

record 'h thread =
  errno :: int
  kv :: "'h store_ptr"
  num_pkts_recvd :: "64 word"
  num_pkts_writ :: "64 word"
  rx :: "int \<Rightarrow> mread list"
  tx :: "int \<Rightarrow> mwrite list"
  acc :: "maccept list"
  out :: "int \<Rightarrow> string"
  calls :: "mtcp_call list"

abbreviation (input) EAGAIN :: int where "EAGAIN \<equiv> 11"
abbreviation (input) EINTR_NO :: int where "EINTR_NO \<equiv> 4"
abbreviation (input) ENOTCONN :: int where "ENOTCONN \<equiv> 107"
abbreviation (input) KVSTORE_CONTENT_LEN :: nat where "KVSTORE_CONTENT_LEN \<equiv> 50"
abbreviation (input) MAX_FLOW_NUM :: int where "MAX_FLOW_NUM \<equiv> 10000"
abbreviation (input) MAX_CPUS :: nat where "MAX_CPUS \<equiv> 16"

definition call :: "mtcp_call list \<Rightarrow> 'h thread \<Rightarrow> 'h thread" where
  "call cs T = T\<lparr>calls := calls T @ cs\<rparr>"

definition CloseConnection :: "int \<Rightarrow> 'h thread \<Rightarrow> 'h thread" where
  "CloseConnection sockid T = call [Ctl_del sockid, Close_sock sockid] T"

section \<open>One request\<close>

text \<open>How the read loop ends: with the whole request, or with a connection that is gone.\<close>

datatype read_result = Request string | Gone

text \<open>The loop that fills \<open>buf\<close>: \<open>got\<close> is what was read so far. A result of 0 does not set \<open>errno\<close>.\<close>

function read_request ::
  "mread list \<Rightarrow> string \<Rightarrow> int \<Rightarrow> (read_result \<times> mread list \<times> int) outcome option" where
  "read_request evs got err =
     (if length got = KVSTORE_CONTENT_LEN then Some (Done (Request got, evs, err))
      else case evs of
        [] \<Rightarrow> None
      | MData bs # evs' \<Rightarrow>
          (let want = KVSTORE_CONTENT_LEN - length got; rd = take want bs;
               left = (if length bs \<le> want then evs' else MData (drop want bs) # evs')
           in if rd = [] then
                (if err = EAGAIN then read_request evs' got err
                 else if err = ENOTCONN then Some (Done (Gone, evs', err))
                 else Some (Fault (Exit 1)))
              else read_request left (got @ rd) err)
      | MEof # evs' \<Rightarrow>
          (if err = EAGAIN then read_request evs' got err
           else if err = ENOTCONN then Some (Done (Gone, evs', err))
           else Some (Fault (Exit 1)))
      | MRead_err e # evs' \<Rightarrow>
          (if e = EAGAIN then read_request evs' got e
           else if e = ENOTCONN then Some (Done (Gone, evs', e))
           else Some (Fault (Exit 1))))"
  by pat_completeness auto

fun mread_size :: "mread list \<Rightarrow> nat" where
  "mread_size [] = 0"
| "mread_size (MData bs # evs) = Suc (length bs + mread_size evs)"
| "mread_size (MEof # evs) = Suc (mread_size evs)"
| "mread_size (MRead_err e # evs) = Suc (mread_size evs)"

termination read_request
  by (relation "measure (\<lambda>(evs, got, err). mread_size evs)") auto

declare read_request.simps [simp del]

text \<open>The loop that writes the reply: \<open>True\<close> when all of it went out.\<close>

fun write_reply ::
  "mwrite list \<Rightarrow> string \<Rightarrow> int \<Rightarrow> (bool \<times> string \<times> mwrite list \<times> int) outcome option" where
  "write_reply evs [] err = Some (Done (True, [], evs, err))"
| "write_reply [] (b # bs) err = None"
| "write_reply (MAccept n # evs) (b # bs) err =
     map_option (map_sum id (\<lambda>(ok, w, left, e). (ok, take n (b # bs) @ w, left, e)))
       (write_reply evs (drop n (b # bs)) err)"
| "write_reply (MWrite_err e # evs) (b # bs) err =
     (if e = EAGAIN then write_reply evs (b # bs) e
      else if e = ENOTCONN then Some (Done (False, [], evs, e))
      else Some (Fault (Exit 1)))"

definition HandleReadEvent ::
  "'h cuckoo \<Rightarrow> int \<Rightarrow> 'h thread \<Rightarrow> (int \<times> 'h thread) outcome option" where
  "HandleReadEvent ck sockid T =
     (case read_request (rx T sockid) [] (errno T) of
        None \<Rightarrow> None
      | Some (Inl f) \<Rightarrow> Some (Inl f)
      | Some (Inr (Gone, left, e)) \<Rightarrow>
          Some (Done (0, CloseConnection sockid (T\<lparr>rx := (rx T)(sockid := left), errno := e\<rparr>)))
      | Some (Inr (Request req, left, e)) \<Rightarrow>
          (let T1 = T\<lparr>rx := (rx T)(sockid := left), errno := e, num_pkts_recvd := num_pkts_recvd T + 1\<rparr>;
               keepalive = schar (req ! 1)
           in case kvstore_process_packet ck (kv T1) req of
                Inl f \<Rightarrow> Some (Inl f)
              | Inr (_, p, reply) \<Rightarrow>
                  (case write_reply (tx T1 sockid) reply (errno T1) of
                     None \<Rightarrow> None
                   | Some (Inl f) \<Rightarrow> Some (Inl f)
                   | Some (Inr (all_out, w, wleft, e2)) \<Rightarrow>
                       (let T2 = T1\<lparr>kv := p, tx := (tx T1)(sockid := wleft), errno := e2,
                                    out := (out T1)(sockid := out T1 sockid @ w)\<rparr> in
                        if \<not> all_out then Some (Done (0, CloseConnection sockid T2))
                        else
                          (let T3 = call [Ctl_mod sockid]
                                      (T2\<lparr>num_pkts_writ := num_pkts_writ T2 + 1\<rparr>) in
                           Some (Done (keepalive,
                             if keepalive = 0 then CloseConnection sockid T3 else T3)))))))"

section \<open>Accepting\<close>

definition AcceptConnection :: "'h thread \<Rightarrow> (int \<times> 'h thread) option" where
  "AcceptConnection T =
     (case acc T of
        [] \<Rightarrow> None
      | MConn c # as \<Rightarrow>
          (if c \<ge> MAX_FLOW_NUM then Some (-1, T\<lparr>acc := as\<rparr>)
           else Some (c, call [Nonblock c, Ctl_add c] (T\<lparr>acc := as\<rparr>)))
      | MAccept_err e # as \<Rightarrow> Some (-1, T\<lparr>acc := as, errno := e\<rparr>))"

function accept_all :: "'h thread \<Rightarrow> 'h thread option" where
  "accept_all T =
     (case AcceptConnection T of
        None \<Rightarrow> None
      | Some (ret, T') \<Rightarrow> if ret < 0 then Some T' else accept_all T')"
  by pat_completeness auto
termination
  by (relation "measure (\<lambda>T. length (acc T))")
    (auto simp: AcceptConnection_def call_def split: list.splits maccept.splits if_splits)

declare accept_all.simps [simp del]

section \<open>The event loop of a server thread\<close>

text \<open>\<open>MTCP_EPOLLIN\<close> is 1 and \<open>MTCP_EPOLLERR\<close> is 8, as flags of an event.\<close>

record mtcp_event =
  ev_sock :: int
  ev_in :: bool
  ev_err :: bool

definition handle_one ::
  "'h cuckoo \<Rightarrow> int \<Rightarrow> mtcp_event \<Rightarrow> bool \<Rightarrow> 'h thread \<Rightarrow> (bool \<times> 'h thread) outcome option" where
  "handle_one ck listener ev do_accept T =
     (if ev_sock ev = listener then Some (Done (True, T))
      else if ev_err ev then Some (Done (do_accept, CloseConnection (ev_sock ev) T))
      else if ev_in ev then
        (case HandleReadEvent ck (ev_sock ev) T of
           None \<Rightarrow> None
         | Some (Inl f) \<Rightarrow> Some (Inl f)
         | Some (Inr (ret, T1)) \<Rightarrow>
             Some (Done (do_accept,
               if ret = 0 then CloseConnection (ev_sock ev) T1
               else if ret < 0 \<and> errno T1 \<noteq> EAGAIN then CloseConnection (ev_sock ev) T1
               else T1)))
      else Some (Done (do_accept, T)))"

fun handle_evs ::
  "'h cuckoo \<Rightarrow> int \<Rightarrow> mtcp_event list \<Rightarrow> bool \<Rightarrow> 'h thread \<Rightarrow> (bool \<times> 'h thread) outcome option" where
  "handle_evs ck listener [] do_accept T = Some (Done (do_accept, T))"
| "handle_evs ck listener (ev # evs) do_accept T =
     (case handle_one ck listener ev do_accept T of
        None \<Rightarrow> None
      | Some (Inl f) \<Rightarrow> Some (Inl f)
      | Some (Inr (acc', T1)) \<Rightarrow> handle_evs ck listener evs acc' T1)"

text \<open>\<open>mtcp_epoll_wait\<close> fails, or gives events. The flag of the thread, which the signal handler
  sets, is read before every wait.\<close>

datatype mwait = MEvents "mtcp_event list" | MWait_err int

fun server_loop ::
  "'h cuckoo \<Rightarrow> int \<Rightarrow> (bool \<times> mwait) list \<Rightarrow> 'h thread \<Rightarrow> 'h thread outcome option" where
  "server_loop ck listener [] T = None"
| "server_loop ck listener ((done_flag, w) # ws) T =
     (if done_flag then Some (Done T)
      else case w of
        MWait_err e \<Rightarrow> Some (Done (T\<lparr>errno := e\<rparr>))
      | MEvents evs \<Rightarrow>
          (case handle_evs ck listener evs False T of
             None \<Rightarrow> None
           | Some (Inl f) \<Rightarrow> Some (Inl f)
           | Some (Inr (do_accept, T1)) \<Rightarrow>
               (if do_accept then
                  (case accept_all T1 of None \<Rightarrow> None | Some T2 \<Rightarrow> server_loop ck listener ws T2)
                else server_loop ck listener ws T1)))"

text \<open>What the stack answers when a thread sets up; a failure after \<open>calloc\<close> leaks the context.\<close>

record stack_setup =
  has_ctx :: bool
  has_mctx :: bool
  ep_desc :: int
  listen_sock :: int
  nonblock_ret :: int
  bind_ret :: int
  listen_ret :: int
  has_events :: bool

definition InitializeServerThread :: "stack_setup \<Rightarrow> bool" where
  "InitializeServerThread s =
     (if \<not> has_ctx s then False else if \<not> has_mctx s then False else if ep_desc s < 0 then False else True)"

definition CreateListeningSocket :: "stack_setup \<Rightarrow> 'h thread \<Rightarrow> int \<times> 'h thread" where
  "CreateListeningSocket s T =
     (if listen_sock s < 0 then (-1, T)
      else let T1 = call [Nonblock (listen_sock s)] T in
        if nonblock_ret s < 0 then (-1, T1)
        else if bind_ret s < 0 then (-1, T1)
        else if listen_ret s < 0 then (-1, T1)
        else (listen_sock s, call [Ctl_add (listen_sock s)] T1))"

definition RunServerThread ::
  "'h cuckoo \<Rightarrow> stack_setup \<Rightarrow> (bool \<times> mwait) list \<Rightarrow> 'h thread \<Rightarrow> 'h thread outcome option" where
  "RunServerThread ck s ws T =
     (if \<not> InitializeServerThread s then Some (Done T)
      else if \<not> has_events s then Some (Fault (Exit (-1)))
      else
        (let (listener, T1) = CreateListeningSocket s T in
         if listener < 0 then Some (Fault (Exit (-1))) else server_loop ck listener ws T1))"

section \<open>Signals and start-up\<close>

text \<open>\<open>SignalHandler\<close> on the thread with handle \<open>self\<close>: the flags and the threads signalled.\<close>

fun SignalHandler :: "nat \<Rightarrow> nat \<Rightarrow> nat list \<Rightarrow> bool list \<Rightarrow> (bool list \<times> nat list) outcome" where
  "SignalHandler 0 self threads flags = Done (flags, [])"
| "SignalHandler (Suc n) self threads flags =
     (case SignalHandler n self threads flags of
        Inl f \<Rightarrow> Inl f
      | Inr (flags', killed) \<Rightarrow>
          if n \<ge> length threads \<or> n \<ge> length flags' then Fault Out_of_bounds
          else if threads ! n = self then Done (flags'[n := True], killed)
          else if \<not> flags' ! n then Done (flags', killed @ [threads ! n])
          else Done (flags', killed))"

datatype opt = Opt_N string | Opt_f string | Opt_h

text \<open>\<open>getopt\<close>'s results, \<open>core_limit\<close> and \<open>conf_file\<close>; the last component is \<open>main\<close>'s early
  return value.\<close>

fun parse_options :: "int \<Rightarrow> opt list \<Rightarrow> int \<Rightarrow> string option \<Rightarrow> (int \<times> string option \<times> int option) outcome" where
  "parse_options num_cores [] core_limit conf_file = Done (core_limit, conf_file, None)"
| "parse_options num_cores (Opt_N a # os) core_limit conf_file =
     (if atoi a > num_cores then Done (atoi a, conf_file, Some 0)
      else parse_options num_cores os (atoi a) conf_file)"
| "parse_options num_cores (Opt_f a # os) core_limit conf_file =
     parse_options num_cores os core_limit (Some a)"
| "parse_options num_cores (Opt_h # os) core_limit conf_file = Fault (Exit 0)"

text \<open>The loop that starts the threads stores into three arrays of \<open>MAX_CPUS\<close> elements;
  \<open>created i\<close> tells whether \<open>pthread_create\<close> succeeds.\<close>

fun start_threads :: "(nat \<Rightarrow> bool) \<Rightarrow> nat \<Rightarrow> nat \<Rightarrow> nat list \<Rightarrow> nat list outcome" where
  "start_threads created 0 i cores = Done cores"
| "start_threads created (Suc n) i cores =
     (if i \<ge> MAX_CPUS then Fault Out_of_bounds
      else if \<not> created i then Fault (Exit 1)
      else start_threads created n (Suc i) (cores @ [i]))"

definition mtcp_main ::
  "'h cuckoo \<Rightarrow> int \<Rightarrow> opt list \<Rightarrow> int \<Rightarrow> (nat \<Rightarrow> bool) \<Rightarrow> (int \<times> 'h store_ptr) outcome" where
  "mtcp_main ck num_cores os init_ret created =
     (case parse_options num_cores os num_cores None of
        Inl f \<Rightarrow> Inl f
      | Inr (core_limit, conf_file, Some r) \<Rightarrow> Done (r, Null)
      | Inr (core_limit, conf_file, None) \<Rightarrow>
          (if conf_file = None then Fault (Exit 1)
           else if init_ret \<noteq> 0 then Fault (Exit 1)
           else
             (let (_, p) = kvstore_create ck Null in
              case start_threads created (nat core_limit) 0 [] of
                Inl f \<Rightarrow> Inl f
              | Inr cores \<Rightarrow>
                  (case kvstore_destroy p of Inl f \<Rightarrow> Inl f | Inr (_, p') \<Rightarrow> Done (0, p')))))"

section \<open>Reading a request in pieces, writing a reply in pieces\<close>

text \<open>Results of \<open>mtcp_read\<close> that bring exactly \<open>s\<close>, with retries in between.\<close>

fun delivers :: "mread list \<Rightarrow> string \<Rightarrow> bool" where
  "delivers [] s \<longleftrightarrow> s = []"
| "delivers (MData bs # evs) s \<longleftrightarrow>
     bs \<noteq> [] \<and> length bs \<le> length s \<and> take (length bs) s = bs \<and> delivers evs (drop (length bs) s)"
| "delivers (MEof # evs) s \<longleftrightarrow> False"
| "delivers (MRead_err e # evs) s \<longleftrightarrow> e = EAGAIN \<and> delivers evs s"

text \<open>Results of \<open>mtcp_write\<close> that take at least \<open>n\<close> bytes, with retries in between.\<close>

fun takes :: "mwrite list \<Rightarrow> nat \<Rightarrow> bool" where
  "takes [] n \<longleftrightarrow> n = 0"
| "takes (MAccept k # evs) n \<longleftrightarrow> takes evs (n - k)"
| "takes (MWrite_err e # evs) n \<longleftrightarrow> n = 0 \<or> e = EAGAIN \<and> takes evs n"

lemma read_request_pieces:
  "delivers evs s \<Longrightarrow> length got + length s = KVSTORE_CONTENT_LEN \<Longrightarrow>
   \<exists>left e. read_request (evs @ rest) got err = Some (Done (Request (got @ s), left, e)) \<and>
     (\<exists>retries. left = retries @ rest \<and> set retries \<subseteq> {MRead_err EAGAIN})"
proof (induction evs s arbitrary: got err rule: delivers.induct)
  case (1 s)
  then show ?case by (subst read_request.simps) simp
next
  case (2 bs evs s)
  then have "bs \<noteq> []" "length bs \<le> length s" "length got + length s = KVSTORE_CONTENT_LEN" by simp_all
  then have len: "length bs \<le> KVSTORE_CONTENT_LEN - length got" "length got \<noteq> KVSTORE_CONTENT_LEN"
    "\<not> KVSTORE_CONTENT_LEN \<le> length got"
    by (simp_all add: less_eq_Suc_le [symmetric]) (cases bs; simp)+
  have s: "bs @ drop (length bs) s = s" using 2(2) by (metis append_take_drop_id delivers.simps(2))
  have "read_request ((MData bs # evs) @ rest) got err = read_request (evs @ rest) (got @ bs) err"
    using len 2(2) by (subst read_request.simps) (simp add: Let_def)
  with "2.IH" [of "got @ bs" err] 2(2,3) s show ?case by simp
next
  case (3 evs s)
  then show ?case by simp
next
  case (4 e evs s)
  show ?case
  proof (cases "length got = KVSTORE_CONTENT_LEN")
    case True
    then have "s = []" using 4(3) by simp
    with True 4(2) show ?thesis
    proof -
      have all: "delivers evs [] \<Longrightarrow> set evs \<subseteq> {MRead_err EAGAIN}" for evs
        by (induction evs "[] :: string" rule: delivers.induct) auto
      have "read_request ((MRead_err e # evs) @ rest) got err =
          Some (Done (Request (got @ s), (MRead_err e # evs) @ rest, err))"
        using True \<open>s = []\<close> by (subst read_request.simps) simp
      moreover have "set (MRead_err e # evs) \<subseteq> {MRead_err EAGAIN}"
        using all [of evs] 4(2) \<open>s = []\<close> by auto
      ultimately show ?thesis by blast
    qed
  next
    case False
    with 4(2) have "read_request ((MRead_err e # evs) @ rest) got err = read_request (evs @ rest) got e"
      by (subst read_request.simps) simp
    with "4.IH" [of got e] 4(2,3) show ?thesis by simp
  qed
qed

lemma write_reply_pieces:
  "takes evs (length bs) \<Longrightarrow>
   \<exists>left e. write_reply (evs @ rest) bs err = Some (Done (True, bs, left, e))"
proof (induction evs "length bs" arbitrary: bs err rule: takes.induct)
  case 1
  then show ?case by simp
next
  case (2 k evs)
  show ?case
  proof (cases bs)
    case Nil
    then show ?thesis by simp
  next
    case (Cons b bs')
    have "\<exists>left e. write_reply (evs @ rest) (drop k bs) err = Some (Done (True, drop k bs, left, e))"
      using 2 by simp
    then show ?thesis
      using append_take_drop_id [of k bs] by (auto simp: Cons)
  qed
next
  case (3 e evs)
  show ?case
  proof (cases bs)
    case Nil
    then show ?thesis by simp
  next
    case (Cons b bs')
    with 3 show ?thesis by simp
  qed
qed

text \<open>A return value of 0 means that the connection is already closed; any other, that it is not.\<close>

lemma read_event_calls:
  assumes "HandleReadEvent ck s T = Some (Done (ret, T1))"
  shows "\<exists>cs. calls T1 = calls T @ cs \<and>
    (if ret = 0 then \<exists>cs'. cs = cs' @ [Ctl_del s, Close_sock s] \<and> set cs' \<subseteq> {Ctl_mod s}
     else cs = [Ctl_mod s])"
  using assms
  by (auto simp: HandleReadEvent_def CloseConnection_def call_def Let_def
      split: option.splits sum.splits prod.splits read_result.splits if_splits)

lemma start_threads_ok:
  assumes "\<forall>i. created i"
  shows "i + n \<le> MAX_CPUS \<Longrightarrow> start_threads created n i cores = Done (cores @ [i..<i + n])"
    and "i \<le> MAX_CPUS \<Longrightarrow> MAX_CPUS < i + n \<Longrightarrow> start_threads created n i cores = Fault Out_of_bounds"
proof (induction n arbitrary: i cores)
  case 0
  {
    case 1
    then show ?case by simp
  next
    case 2
    then show ?case by simp
  }
next
  case (Suc n)
  {
    case 1
    then show ?case using assms Suc.IH(1) [of "Suc i"] by (simp add: upt_conv_Cons)
  next
    case 2
    then show ?case using assms Suc.IH(2) [of "Suc i"] by simp
  }
qed

text \<open>One request from the socket to the store and back.\<close>

lemma request_served:
  assumes "cuckoohash_map ck contents valid" and "valid h" and "kv T = Live h"
    and "wf_send q" and "operation_of (operation q) = Some cmd"
    and "kv_spec (contents h) cmd (key q) (msg_value q) = (ok, m', v)"
    and "wide_values (contents h)"
    and "rx T s = evs @ rest" and "delivers evs (encode_send q)"
    and "tx T s = wevs @ wrest" and "takes wevs KVSTORE_CONTENT_LEN"
  shows "\<exists>h' T'. HandleReadEvent ck s T = Some (Done (schar (keepalive q), T')) \<and>
    kv T' = Live h' \<and> valid h' \<and> contents h' = m' \<and>
    out T' s = out T s @ encode_send (spec_reply ok v q) \<and>
    (\<exists>retries. rx T' s = retries @ rest \<and> set retries \<subseteq> {MRead_err EAGAIN}) \<and>
    num_pkts_recvd T' = num_pkts_recvd T + 1 \<and> num_pkts_writ T' = num_pkts_writ T + 1"
proof -
  from cuckoohash_map.packet_refines [OF assms(1,2,4,5,6)] obtain h' where
    p: "kvstore_process_packet ck (Live h) (encode_send q) =
        Done (if ok then 1 else 0, Live h', encode_send (spec_reply ok v q))"
    and h': "valid h'" "contents h' = m'" by blast
  have "length (encode_send q) = KVSTORE_CONTENT_LEN" using assms(4) by simp
  with read_request_pieces [OF assms(9), of "[]" rest "errno T"] obtain left e retries where
    r: "read_request (evs @ rest) [] (errno T) = Some (Done (Request (encode_send q), left, e))"
      "left = retries @ rest" "set retries \<subseteq> {MRead_err EAGAIN}" by auto
  have "length v = 32"
    using length_spec_value [OF assms(7), of "msg_value q" cmd "key q"] assms(4,6)
    by (simp add: wf_send_def)
  then have "length (encode_send (spec_reply ok v q)) = KVSTORE_CONTENT_LEN"
    using assms(4) by (simp add: wf_send_def spec_reply_def encode_send_def)
  with write_reply_pieces [of wevs "encode_send (spec_reply ok v q)" wrest e] assms(11)
  obtain wleft e2 where
    w: "write_reply (wevs @ wrest) (encode_send (spec_reply ok v q)) e =
      Some (Done (True, encode_send (spec_reply ok v q), wleft, e2))" by auto
  have k: "encode_send q ! Suc 0 = keepalive q" by (simp add: encode_send_def)
  show ?thesis
    using r p w h' assms(3,8,10)
    by (simp add: HandleReadEvent_def Let_def k call_def CloseConnection_def)
qed

text \<open>A thread with a live, empty store, for concrete instances.\<close>

definition sample_thread :: "int \<Rightarrow> mread list \<Rightarrow> (string \<times> string) list thread" where
  "sample_thread e evs =
     \<lparr>errno = e, kv = Live [], num_pkts_recvd = 0, num_pkts_writ = 0, rx = (\<lambda>s. evs), tx = (\<lambda>s. []),
      acc = [], out = (\<lambda>s. []), calls = []\<rparr>"

section \<open>Properties\<close>

text \<open>The mTCP server implements the key-value map: for every hash table that keeps libcuckoo's
  promises, a valid request that arrives in any pieces, with any retries, on a thread with a live
  store is answered by exactly the reply frame of the abstract map operation, whatever pieces the
  stack takes; the store follows the map, both counters advance, what comes after the request stays
  to be read, and the result is the keep-alive byte as a signed number.\<close>

theorem mtcp_serves_map:
  assumes "cuckoohash_map ck contents valid" and "valid h" and "kv T = Live h"
    and "wf_send q" and "operation_of (operation q) = Some cmd"
    and "kv_spec (contents h) cmd (key q) (msg_value q) = (ok, m', v)"
    and "wide_values (contents h)"
    and "rx T s = evs @ rest" and "delivers evs (encode_send q)"
    and "tx T s = wevs @ wrest" and "takes wevs KVSTORE_CONTENT_LEN"
  shows "\<exists>h' T'. HandleReadEvent ck s T = Some (Done (schar (keepalive q), T')) \<and>
    kv T' = Live h' \<and> valid h' \<and> contents h' = m' \<and>
    out T' s = out T s @ encode_send (spec_reply ok v q) \<and>
    (\<exists>retries. rx T' s = retries @ rest \<and> set retries \<subseteq> {MRead_err EAGAIN}) \<and>
    num_pkts_recvd T' = num_pkts_recvd T + 1 \<and> num_pkts_writ T' = num_pkts_writ T + 1"
  by (rule request_served [OF assms])

theorem mtcp_serves_map_witness:
  "\<exists>h' T'. HandleReadEvent alist_cuckoo 5
      \<lparr>errno = 0, kv = Live [], num_pkts_recvd = 0, num_pkts_writ = 0,
       rx = (\<lambda>s. [MData (take 20 (encode_send \<lparr>operation = CHR 0x01, keepalive = CHR 0x01,
                key = replicate 16 CHR ''k'', msg_value = replicate 32 CHR ''v''\<rparr>)),
              MRead_err EAGAIN,
              MData (drop 20 (encode_send \<lparr>operation = CHR 0x01, keepalive = CHR 0x01,
                key = replicate 16 CHR ''k'', msg_value = replicate 32 CHR ''v''\<rparr>))]),
       tx = (\<lambda>s. [MAccept 7, MAccept 100]), acc = [], out = (\<lambda>s. []), calls = []\<rparr> =
      Some (Done (1, T')) \<and> kv T' = Live h' \<and>
    map_of h' = [replicate 16 CHR ''k'' \<mapsto> replicate 32 CHR ''v'']"
proof -
  let ?q = "\<lparr>operation = CHR 0x01, keepalive = CHR 0x01, key = replicate 16 CHR ''k'',
      msg_value = replicate 32 CHR ''v''\<rparr>"
  let ?evs = "[MData (take 20 (encode_send ?q)), MRead_err EAGAIN, MData (drop 20 (encode_send ?q))]"
  let ?T = "\<lparr>errno = 0, kv = Live [], num_pkts_recvd = 0, num_pkts_writ = 0, rx = (\<lambda>s. ?evs),
      tx = (\<lambda>s. [MAccept 7, MAccept 100]), acc = [], out = (\<lambda>s. []), calls = []\<rparr>"
  have q: "wf_send ?q" by (simp add: wf_send_def)
  have c: "operation_of (operation ?q) = Some PUT" "schar (keepalive ?q) = 1"
    by (simp_all add: operation_of_def schar_def code_of_def)
  have d: "delivers ?evs (encode_send ?q)"
    using q by (simp del: length_encode_send add: length_encode_send [OF q]) (auto simp: encode_send_def)
  show ?thesis
    using mtcp_serves_map [OF ref.cuckoohash_map_axioms, of "[]" ?T ?q PUT True
        "[replicate 16 CHR ''k'' \<mapsto> replicate 32 CHR ''v'']" "replicate 32 CHR ''v''" 5 ?evs "[]"
        "[MAccept 7, MAccept 100]" "[]"] q c d
    by (auto simp: alist_distinct_def wide_values_def)
qed

text \<open>Connections are closed twice: whenever \<open>HandleReadEvent\<close> returns 0 it has just removed the
  socket from the event set and closed it, and the event loop does both again; the second pair of
  calls hits a socket number that the stack may have given to a new connection.\<close>

theorem zero_return_closes_twice:
  assumes "HandleReadEvent ck s T = Some (Done (0, T1))" and "s \<noteq> listener"
  shows "\<exists>T2 cs. handle_one ck listener \<lparr>ev_sock = s, ev_in = True, ev_err = False\<rparr> do_accept T =
      Some (Done (do_accept, T2)) \<and>
    calls T2 = calls T @ cs @ [Ctl_del s, Close_sock s, Ctl_del s, Close_sock s]"
proof -
  from read_event_calls [OF assms(1)] obtain cs' where
    "calls T1 = calls T @ cs' @ [Ctl_del s, Close_sock s]" by auto
  then show ?thesis
    using assms by (auto simp: handle_one_def CloseConnection_def call_def)
qed

theorem zero_return_closes_twice_witness:
  "\<exists>T2 cs. handle_one alist_cuckoo 3 \<lparr>ev_sock = 5, ev_in = True, ev_err = False\<rparr> False
      (sample_thread 0 [MRead_err ENOTCONN]) = Some (Done (False, T2)) \<and>
    calls T2 = cs @ [Ctl_del 5, Close_sock 5, Ctl_del 5, Close_sock 5]"
proof -
  have "read_request [MRead_err ENOTCONN] [] 0 = Some (Done (Gone, [], ENOTCONN))"
    by (subst read_request.simps) simp
  then obtain T1 where "HandleReadEvent alist_cuckoo 5 (sample_thread 0 [MRead_err ENOTCONN]) =
      Some (Done (0, T1))"
    by (simp add: HandleReadEvent_def sample_thread_def)
  from zero_return_closes_twice [OF this, of 3 False] show ?thesis
    by (simp add: sample_thread_def)
qed

text \<open>What an orderly close by the peer does depends on an \<open>errno\<close> that the read did not set: if
  it is left at \<open>EAGAIN\<close> (as it is after every round of accepts), the thread spins on the connection
  for ever; if it is \<open>ENOTCONN\<close>, the connection is closed; with any other value the whole server
  process exits.\<close>

theorem peer_close_depends_on_stale_errno:
  assumes "rx T s = replicate (Suc n) MEof"
  shows "HandleReadEvent ck s T =
    (if errno T = EAGAIN then None
     else if errno T = ENOTCONN
     then Some (Done (0, CloseConnection s (T\<lparr>rx := (rx T)(s := replicate n MEof), errno := ENOTCONN\<rparr>)))
     else Some (Fault (Exit 1)))"
proof -
  have spin: "read_request (replicate k MEof) [] EAGAIN = None" for k
    by (induction k) (subst read_request.simps, simp)+
  show ?thesis
  proof (cases "errno T = EAGAIN")
    case True
    with spin [of "Suc n"] assms show ?thesis by (simp add: HandleReadEvent_def)
  next
    case False
    then have "read_request (replicate (Suc n) MEof) [] (errno T) =
        (if errno T = ENOTCONN then Some (Done (Gone, replicate n MEof, errno T))
         else Some (Fault (Exit 1)))"
      by (subst read_request.simps) simp
    with False assms show ?thesis by (simp add: HandleReadEvent_def)
  qed
qed

theorem peer_close_depends_on_stale_errno_witness:
  "HandleReadEvent alist_cuckoo 5 (sample_thread EAGAIN [MEof]) = None \<and>
   HandleReadEvent alist_cuckoo 5 (sample_thread 0 [MEof]) = Some (Fault (Exit 1))"
  using peer_close_depends_on_stale_errno [of "sample_thread EAGAIN [MEof]" 5 0 alist_cuckoo]
    peer_close_depends_on_stale_errno [of "sample_thread 0 [MEof]" 5 0 alist_cuckoo]
  by (simp add: sample_thread_def)

text \<open>\<open>main\<close> stores past the end of its arrays exactly when it is to start more than 16 threads,
  which the option check does not exclude on a machine with more cores; otherwise, when everything
  it calls succeeds, it starts one thread per core and ends with status 0, the store pointer
  dangling.\<close>

theorem too_many_cores_overrun:
  assumes "\<forall>i. created i"
  shows "mtcp_main ck num_cores [Opt_N a, Opt_f conf] 0 created =
    (if atoi a > num_cores then Done (0, Null)
     else if atoi a > 16 then Fault Out_of_bounds
     else Done (0, Dangling))"
proof -
  have "start_threads created (nat (atoi a)) 0 [] =
      (if atoi a > 16 then Fault Out_of_bounds else Done [0..<nat (atoi a)])"
    using start_threads_ok(1) [OF assms, of 0 "nat (atoi a)" "[]"]
      start_threads_ok(2) [OF assms, of 0 "nat (atoi a)" "[]"] by auto
  then show ?thesis by (simp add: mtcp_main_def)
qed

theorem too_many_cores_overrun_witness:
  "mtcp_main alist_cuckoo 64 [Opt_N (show_int 32), Opt_f ''x''] 0 (\<lambda>i. True) = Fault Out_of_bounds"
  using too_many_cores_overrun [of "\<lambda>i. True" alist_cuckoo 64 "show_int 32" "''x''"] by simp

end
