(* ===== verification/MtcpCores.thy ===== *)
theory MtcpCores
  imports MtcpServer "HOL-Library.Sublist"
begin

text \<open>
  \<open>mtcp_kvstore/kvstore.c\<close> as the process it is: \<open>main\<close> creates the store, starts one server thread per
  core, waits for all of them and destroys the store. The threads share the store and two counters,
  everything else (their sockets, their event set) is their own. A step of the process is a step of
  \<open>main\<close> or of one thread, between two accesses to what is shared; libcuckoo's operations are atomic,
  as its documentation promises, the increments of the counters are a load and a store. A thread that
  ends the process (\<open>exit\<close>) has no further step.
\<close>

section \<open>One thread\<close>

record 'h shared_state =
  store :: "'h store_ptr"
  pkts_recvd :: "64 word"
  pkts_writ :: "64 word"

text \<open>Where a thread is: before its set-up, before the test of \<open>done\<close>, in the loop over the events; with
  a request in \<open>buf\<close> before and within the increment of \<open>num_pkts_recvd\<close> and before
  \<open>kvstore_process_packet\<close>; with a reply in \<open>buf\<close> before the writing loop; before and within the
  increment of \<open>num_pkts_writ\<close>; at its end.\<close>

datatype position =
    Set_up
  | Poll
  | Next_event
  | Received int string
  | Counting_recvd int string "64 word"
  | Counted int string
  | Replying int int string
  | Replied int int
  | Counting_writ int int "64 word"
  | Stopped

text \<open>A thread has the answers of the stack of \<open>MtcpServer\<close>, of which it does not use the fields that
  stand for shared variables, its listener, and the events left of the round it is in.\<close>

record 'h core =
  start_up :: stack_setup
  waits :: "(bool \<times> mwait) list"
  listener :: int
  todo :: "mtcp_event list"
  do_accept :: bool
  position :: position
  locals :: "'h thread"

definition close_twice :: "int \<Rightarrow> 'h thread \<Rightarrow> 'h thread" where
  "close_twice s T = CloseConnection s (CloseConnection s T)"

text \<open>\<open>HandleReadEvent\<close> after the second counter, and what its caller does with the result.\<close>

definition finish_reply :: "int \<Rightarrow> int \<Rightarrow> 'h thread \<Rightarrow> 'h thread" where
  "finish_reply s ka T =
     (let T' = call [Ctl_mod s] T in
      if ka = 0 then close_twice s T'
      else if ka < 0 \<and> errno T' \<noteq> EAGAIN then CloseConnection s T'
      else T')"

definition set_up_step :: "'h core \<Rightarrow> 'h core outcome" where
  "set_up_step C =
     (if \<not> InitializeServerThread (start_up C) then Done (C\<lparr>position := Stopped\<rparr>)
      else if \<not> has_events (start_up C) then Fault (Exit (-1))
      else
        (let (l, T) = CreateListeningSocket (start_up C) (locals C) in
         if l < 0 then Fault (Exit (-1))
         else Done (C\<lparr>listener := l, locals := T, position := Poll\<rparr>)))"

definition poll_step :: "'h core \<Rightarrow> 'h core option" where
  "poll_step C =
     (case waits C of
        [] \<Rightarrow> None
      | (done_flag, w) # ws \<Rightarrow>
          (if done_flag then Some (C\<lparr>waits := ws, position := Stopped\<rparr>)
           else case w of
             MWait_err e \<Rightarrow> Some (C\<lparr>waits := ws, locals := (locals C)\<lparr>errno := e\<rparr>, position := Stopped\<rparr>)
           | MEvents evs \<Rightarrow>
               Some (C\<lparr>waits := ws, todo := evs, do_accept := False, position := Next_event\<rparr>)))"

definition event_step :: "'h core \<Rightarrow> 'h core outcome option" where
  "event_step C =
     (case todo C of
        [] \<Rightarrow>
          (if do_accept C
           then map_option (\<lambda>T. Done (C\<lparr>locals := T, position := Poll\<rparr>)) (accept_all (locals C))
           else Some (Done (C\<lparr>position := Poll\<rparr>)))
      | ev # evs \<Rightarrow>
          (let s = ev_sock ev; T = locals C in
           if s = listener C then Some (Done (C\<lparr>todo := evs, do_accept := True\<rparr>))
           else if ev_err ev then Some (Done (C\<lparr>todo := evs, locals := CloseConnection s T\<rparr>))
           else if ev_in ev then
             (case read_request (rx T s) [] (errno T) of
                None \<Rightarrow> None
              | Some (Inl f) \<Rightarrow> Some (Inl f)
              | Some (Inr (Gone, left, e)) \<Rightarrow>
                  Some (Done (C\<lparr>todo := evs,
                    locals := close_twice s (T\<lparr>rx := (rx T)(s := left), errno := e\<rparr>)\<rparr>))
              | Some (Inr (Request req, left, e)) \<Rightarrow>
                  Some (Done (C\<lparr>todo := evs, locals := T\<lparr>rx := (rx T)(s := left), errno := e\<rparr>,
                    position := Received s req\<rparr>)))
           else Some (Done (C\<lparr>todo := evs\<rparr>))))"

definition reply_step :: "int \<Rightarrow> int \<Rightarrow> string \<Rightarrow> 'h core \<Rightarrow> 'h core outcome option" where
  "reply_step s ka reply C =
     (let T = locals C in
      case write_reply (tx T s) reply (errno T) of
        None \<Rightarrow> None
      | Some (Inl f) \<Rightarrow> Some (Inl f)
      | Some (Inr (all_out, w, left, e)) \<Rightarrow>
          (let T' = T\<lparr>tx := (tx T)(s := left), errno := e, out := (out T)(s := out T s @ w)\<rparr> in
           Some (Done
             (if all_out then C\<lparr>locals := T', position := Replied s ka\<rparr>
              else C\<lparr>locals := close_twice s T', position := Next_event\<rparr>))))"

text \<open>One step of a thread; \<^const>\<open>None\<close> when it has none.\<close>

fun step_at ::
  "'h cuckoo \<Rightarrow> position \<Rightarrow> 'h shared_state \<Rightarrow> 'h core \<Rightarrow> ('h shared_state \<times> 'h core) outcome option" where
  "step_at ck Set_up G C = Some (map_sum id (Pair G) (set_up_step C))"
| "step_at ck Poll G C = map_option (\<lambda>C'. Done (G, C')) (poll_step C)"
| "step_at ck Next_event G C = map_option (map_sum id (Pair G)) (event_step C)"
| "step_at ck (Received s req) G C =
     Some (Done (G, C\<lparr>position := Counting_recvd s req (pkts_recvd G)\<rparr>))"
| "step_at ck (Counting_recvd s req n) G C =
     Some (Done (G\<lparr>pkts_recvd := n + 1\<rparr>, C\<lparr>position := Counted s req\<rparr>))"
| "step_at ck (Counted s req) G C =
     (case kvstore_process_packet ck (store G) req of
        Inl f \<Rightarrow> Some (Inl f)
      | Inr (_, p, reply) \<Rightarrow>
          Some (Done (G\<lparr>store := p\<rparr>, C\<lparr>position := Replying s (schar (req ! 1)) reply\<rparr>)))"
| "step_at ck (Replying s ka reply) G C =
     map_option (map_sum id (Pair G)) (reply_step s ka reply C)"
| "step_at ck (Replied s ka) G C =
     Some (Done (G, C\<lparr>position := Counting_writ s ka (pkts_writ G)\<rparr>))"
| "step_at ck (Counting_writ s ka n) G C =
     Some (Done (G\<lparr>pkts_writ := n + 1\<rparr>,
       C\<lparr>locals := finish_reply s ka (locals C), position := Next_event\<rparr>))"
| "step_at ck Stopped G C = None"

definition core_step ::
  "'h cuckoo \<Rightarrow> 'h shared_state \<Rightarrow> 'h core \<Rightarrow> ('h shared_state \<times> 'h core) outcome option" where
  "core_step ck G C = step_at ck (position C) G C"

section \<open>The process\<close>

text \<open>How far \<open>main\<close> is: the threads it has started and joined, and whether the store is destroyed.\<close>

record 'h process =
  shared :: "'h shared_state"
  cores :: "nat \<Rightarrow> 'h core"
  started :: nat
  joined :: nat
  destroyed :: bool

definition process_new :: "'h cuckoo \<Rightarrow> (nat \<Rightarrow> 'h core) \<Rightarrow> 'h process" where
  "process_new ck cs =
     \<lparr>shared = \<lparr>store = snd (kvstore_create ck Null), pkts_recvd = 0, pkts_writ = 0\<rparr>,
      cores = cs, started = 0, joined = 0, destroyed = False\<rparr>"

inductive process_step :: "'h cuckoo \<Rightarrow> nat \<Rightarrow> 'h process \<Rightarrow> 'h process \<Rightarrow> bool"
  for ck :: "'h cuckoo" and core_limit :: nat where
  start: "started P < core_limit \<Longrightarrow> started P < MAX_CPUS \<Longrightarrow>
    process_step ck core_limit P (P\<lparr>started := Suc (started P)\<rparr>)"
| work: "i < started P \<Longrightarrow> core_step ck (shared P) (cores P i) = Some (Done (G, C)) \<Longrightarrow>
    process_step ck core_limit P (P\<lparr>shared := G, cores := (cores P)(i := C)\<rparr>)"
| join: "started P = core_limit \<Longrightarrow> joined P < core_limit \<Longrightarrow>
    position (cores P (joined P)) = Stopped \<Longrightarrow>
    process_step ck core_limit P (P\<lparr>joined := Suc (joined P)\<rparr>)"
| destroy: "started P = core_limit \<Longrightarrow> joined P = core_limit \<Longrightarrow> \<not> destroyed P \<Longrightarrow>
    kvstore_destroy (store (shared P)) = Done (r, p) \<Longrightarrow>
    process_step ck core_limit P (P\<lparr>shared := (shared P)\<lparr>store := p\<rparr>, destroyed := True\<rparr>)"

inductive process_reachable :: "'h cuckoo \<Rightarrow> nat \<Rightarrow> 'h process \<Rightarrow> 'h process \<Rightarrow> bool"
  for ck :: "'h cuckoo" and core_limit :: nat and P0 :: "'h process" where
  here: "process_reachable ck core_limit P0 P0"
| later: "process_reachable ck core_limit P0 P \<Longrightarrow> process_step ck core_limit P P' \<Longrightarrow>
    process_reachable ck core_limit P0 P'"

inductive_cases process_stepE: "process_step ck core_limit P P'"

lemma process_reachable_trans:
  "process_reachable ck core_limit P1 P2 \<Longrightarrow> process_reachable ck core_limit P0 P1 \<Longrightarrow>
   process_reachable ck core_limit P0 P2"
  by (induction rule: process_reachable.induct) (auto intro: process_reachable.later)

section \<open>What a thread has received and sent\<close>

definition data_of :: "mread list \<Rightarrow> string" where
  "data_of evs = concat (map (\<lambda>e. case e of MData bs \<Rightarrow> bs | _ \<Rightarrow> []) evs)"

text \<open>A client that neither closes nor fails: reads bring data or have to be tried again.\<close>

definition steady :: "mread list \<Rightarrow> bool" where
  "steady evs \<longleftrightarrow>
     (\<forall>e \<in> set evs. case e of MData bs \<Rightarrow> bs \<noteq> [] | MEof \<Rightarrow> False | MRead_err e \<Rightarrow> e = EAGAIN)"

text \<open>A request in \<open>buf\<close> that the store has not seen, and a reply of which nothing was written.\<close>

fun in_hand :: "position \<Rightarrow> int \<Rightarrow> string" where
  "in_hand (Received s req) x = (if x = s then req else [])"
| "in_hand (Counting_recvd s req n) x = (if x = s then req else [])"
| "in_hand (Counted s req) x = (if x = s then req else [])"
| "in_hand _ x = []"

fun unsent :: "position \<Rightarrow> int \<Rightarrow> string" where
  "unsent (Replying s ka reply) x = (if x = s then reply else [])"
| "unsent _ x = []"

fun whole_request :: "position \<Rightarrow> bool" where
  "whole_request (Received s req) \<longleftrightarrow> length req = KVSTORE_CONTENT_LEN"
| "whole_request (Counting_recvd s req n) \<longleftrightarrow> length req = KVSTORE_CONTENT_LEN"
| "whole_request (Counted s req) \<longleftrightarrow> length req = KVSTORE_CONTENT_LEN"
| "whole_request _ \<longleftrightarrow> True"

fun pending :: "position \<Rightarrow> int \<Rightarrow> string list" where
  "pending (Replying s ka reply) x = (if x = s then [reply] else [])"
| "pending _ x = []"

lemma unsent_pending: "unsent p x = concat (pending p x)"
  by (cases p) simp_all

text \<open>A client that is gone (\<open>ENOTCONN\<close>) gets only the beginning of the reply that is being written. What was
  sent over a socket is a beginning of every reply, one after the other, and all of them \<open>whole\<close> when
  no write on the socket ever fails so.\<close>

definition delivered :: "bool \<Rightarrow> string list \<Rightarrow> string \<Rightarrow> bool" where
  "delivered whole frames bs \<longleftrightarrow>
     (\<exists>ps. list_all2 prefix ps frames \<and> bs = concat ps \<and> (whole \<longrightarrow> ps = frames))"

lemma delivered_Nil [simp]: "delivered whole [] bs \<longleftrightarrow> bs = []"
  by (auto simp: delivered_def)

lemma delivered_snoc:
  assumes "delivered whole frames bs" and "prefix p f" and "whole \<Longrightarrow> p = f"
  shows "delivered whole (frames @ [f]) (bs @ p)"
proof -
  from assms(1) obtain ps where "list_all2 prefix ps frames" "bs = concat ps" "whole \<longrightarrow> ps = frames"
    by (auto simp: delivered_def)
  with assms(2,3) show ?thesis
    unfolding delivered_def by (intro exI [of _ "ps @ [p]"]) (auto intro: list_all2_appendI)
qed

definition lossless :: "'h core \<Rightarrow> int \<Rightarrow> bool" where
  "lossless C s \<longleftrightarrow> MWrite_err ENOTCONN \<notin> set (tx (locals C) s)"

definition writes_left :: "'h core \<Rightarrow> (int \<Rightarrow> mwrite list) \<Rightarrow> bool" where
  "writes_left C0 ws \<longleftrightarrow> (\<forall>s. set (ws s) \<subseteq> set (tx (locals C0) s))"

text \<open>A thread that began as \<open>C0\<close> and stands at \<open>C\<close> has taken the requests \<open>reqs\<close> to the store and got
  the replies \<open>reps\<close> from it.\<close>

definition core_follows :: "'h core \<Rightarrow> 'h core \<Rightarrow> (int \<Rightarrow> string) \<Rightarrow> (int \<Rightarrow> string list) \<Rightarrow> bool" where
  "core_follows C0 C reqs reps \<longleftrightarrow>
     whole_request (position C) \<and>
     writes_left C0 (tx (locals C)) \<and>
     (\<forall>s. \<exists>fs. reps s = fs @ pending (position C) s \<and> delivered (lossless C0 s) fs (out (locals C) s)) \<and>
     (\<forall>s. steady (rx (locals C0) s) \<longrightarrow>
        steady (rx (locals C) s) \<and>
        data_of (rx (locals C0) s) = reqs s @ in_hand (position C) s @ data_of (rx (locals C) s))"

lemma core_followsD:
  "core_follows C0 C reqs reps \<Longrightarrow>
   \<exists>fs. reps s = fs @ pending (position C) s \<and> delivered (lossless C0 s) fs (out (locals C) s)"
  by (simp add: core_follows_def)

lemma core_follows_sent:
  assumes "core_follows C0 C reqs reps"
  shows "delivered (lossless C0 s) (reps s) (out (locals C) s @ unsent (position C) s)"
proof -
  from core_followsD [OF assms] obtain fs where fs: "reps s = fs @ pending (position C) s"
    "delivered (lossless C0 s) fs (out (locals C) s)" by blast
  show ?thesis
  proof (cases "pending (position C) s")
    case Nil
    with fs show ?thesis by (simp add: unsent_pending)
  next
    case (Cons f gs)
    then have "gs = []" by (cases "position C") (simp_all split: if_splits)
    with fs Cons show ?thesis by (simp add: unsent_pending delivered_snoc)
  qed
qed

lemma data_of_simps [simp]:
  "data_of [] = []" "data_of (MData bs # evs) = bs @ data_of evs"
  "data_of (MEof # evs) = data_of evs" "data_of (MRead_err e # evs) = data_of evs"
  by (simp_all add: data_of_def)

lemma steady_simps [simp]:
  "steady []" "steady (MData bs # evs) \<longleftrightarrow> bs \<noteq> [] \<and> steady evs"
  "\<not> steady (MEof # evs)" "steady (MRead_err e # evs) \<longleftrightarrow> e = EAGAIN \<and> steady evs"
  by (auto simp: steady_def)

text \<open>The reading loop loses no byte unless the connection is gone, and a steady client is not.\<close>

lemma read_request_data:
  "read_request evs got err = Some (Done (Request r, left, e)) \<Longrightarrow> length got \<le> KVSTORE_CONTENT_LEN \<Longrightarrow>
   length r = KVSTORE_CONTENT_LEN \<and> got @ data_of evs = r @ data_of left"
proof (induction evs got err rule: read_request.induct)
  case (1 evs got err)
  note IH = "1.IH" and run = "1.prems"
  note run' = run(1) [unfolded read_request.simps [of evs got err]]
  show ?case
  proof (cases "length got = KVSTORE_CONTENT_LEN")
    case True
    with run' show ?thesis by simp
  next
    case False
    show ?thesis
    proof (cases evs)
      case Nil
      with False run' show ?thesis by simp
    next
      case (Cons e0 evs')
      show ?thesis
      proof (cases e0)
        case (MData bs)
        let ?want = "KVSTORE_CONTENT_LEN - length got"
        let ?left = "if length bs \<le> ?want then evs' else MData (drop ?want bs) # evs'"
        show ?thesis
        proof (cases "take ?want bs = []")
          case True
          then have "bs = []" using False run(2) by simp
          with IH(1) [OF False Cons MData refl refl refl True] True False run' run(2) Cons MData show ?thesis
            by (simp add: Let_def split: if_splits)
        next
          case more: False
          from run' False more Cons MData have
            "read_request ?left (got @ take ?want bs) err = Some (Done (Request r, left, e))"
            by (simp add: Let_def)
          with IH(2) [OF False Cons MData refl refl refl more] run(2)
          have "length r = KVSTORE_CONTENT_LEN" "(got @ take ?want bs) @ data_of ?left = r @ data_of left"
            by simp_all
          moreover have "take ?want bs @ data_of ?left = data_of evs"
            using Cons MData by (simp flip: append_assoc)
          ultimately show ?thesis by (simp only: append_assoc)
        qed
      next
        case MEof
        with run' run(2) False Cons IH show ?thesis
          by (simp split: if_splits)
      next
        case (MRead_err e1)
        with run' run(2) False Cons IH show ?thesis
          by (simp split: if_splits)
      qed
    qed
  qed
qed

lemma read_request_steady:
  "read_request evs got err = Some (Done (r, left, e)) \<Longrightarrow> length got \<le> KVSTORE_CONTENT_LEN \<Longrightarrow>
   steady evs \<Longrightarrow> steady left \<and> r \<noteq> Gone"
proof (induction evs got err rule: read_request.induct)
  case (1 evs got err)
  note IH = "1.IH" and run = "1.prems"
  note run' = run(1) [unfolded read_request.simps [of evs got err]]
  show ?case
  proof (cases "length got = KVSTORE_CONTENT_LEN")
    case True
    with run' run(3) show ?thesis by auto
  next
    case False
    then show ?thesis
    proof (cases evs)
      case (Cons e0 evs')
      show ?thesis
      proof (cases e0)
        case (MData bs)
        let ?want = "KVSTORE_CONTENT_LEN - length got"
        have more: "take ?want bs \<noteq> []" using False run(2,3) Cons MData by simp
        from run' False more Cons MData have
          "read_request (if length bs \<le> ?want then evs' else MData (drop ?want bs) # evs')
            (got @ take ?want bs) err = Some (Done (r, left, e))"
          by (simp add: Let_def)
        with IH(2) [OF False Cons MData refl refl refl more] run(2,3) Cons MData show ?thesis
          by (auto split: if_splits)
      qed (use run' run(2,3) False Cons IH in \<open>auto split: if_splits\<close>)
    qed (use run' in auto)
  qed
qed

lemma write_reply_data:
  "write_reply evs bs err = Some (Done (ok, w, left, e)) \<Longrightarrow>
   prefix w bs \<and> set left \<subseteq> set evs \<and> (ok \<longrightarrow> w = bs) \<and> (MWrite_err ENOTCONN \<notin> set evs \<longrightarrow> ok)"
proof (induction evs bs err arbitrary: w rule: write_reply.induct)
  case (3 n evs b bs err)
  then obtain z where "write_reply evs (drop n (b # bs)) err = Some z"
    "map_sum id (\<lambda>(ok, w, left, e). (ok, take n (b # bs) @ w, left, e)) z = Done (ok, w, left, e)"
    by auto
  then obtain w' where w': "write_reply evs (drop n (b # bs)) err = Some (Done (ok, w', left, e))"
    "w = take n (b # bs) @ w'"
    by (cases z) auto
  from "3.IH" [OF w'(1)] have "prefix (take n (b # bs) @ w') (take n (b # bs) @ drop n (b # bs))"
    by (simp only: same_prefix_prefix)
  with "3.IH" [OF w'(1)] w'(2) show ?case by (auto simp only: append_take_drop_id list.set)
qed (auto split: if_splits)

text \<open>Neither closing nor accepting touches what goes over the connections.\<close>

lemma close_streams [simp]:
  "rx (CloseConnection s T) = rx T" "tx (CloseConnection s T) = tx T" "out (CloseConnection s T) = out T"
  "rx (close_twice s T) = rx T" "tx (close_twice s T) = tx T" "out (close_twice s T) = out T"
  "rx (finish_reply s k T) = rx T" "tx (finish_reply s k T) = tx T" "out (finish_reply s k T) = out T"
  by (simp_all add: CloseConnection_def close_twice_def finish_reply_def call_def Let_def)

lemma accept_streams:
  "accept_all T = Some T' \<Longrightarrow> rx T' = rx T \<and> tx T' = tx T \<and> out T' = out T"
proof (induction T rule: accept_all.induct)
  case (1 T)
  from "1.prems" obtain r T1 where a: "AcceptConnection T = Some (r, T1)"
    "if r < 0 then T' = T1 else accept_all T1 = Some T'"
    by (subst (asm) accept_all.simps) (auto split: option.splits if_splits)
  then have "rx T1 = rx T \<and> tx T1 = tx T \<and> out T1 = out T"
    by (auto simp: AcceptConnection_def call_def split: list.splits maccept.splits if_splits)
  with a "1.IH" [OF a(1) refl] show ?case by (auto split: if_splits)
qed

lemma listen_streams:
  "CreateListeningSocket s T = (l, T') \<Longrightarrow> rx T' = rx T \<and> tx T' = tx T \<and> out T' = out T"
  by (auto simp: CreateListeningSocket_def call_def Let_def split: if_splits)

lemma follows_set_up:
  assumes "set_up_step C = Done C'" and "position C = Set_up" and "core_follows C0 C reqs reps"
  shows "core_follows C0 C' reqs reps"
  using assms listen_streams
  by (fastforce simp: set_up_step_def core_follows_def split: if_splits prod.splits)

lemma follows_poll:
  assumes "poll_step C = Some C'" and "position C = Poll" and "core_follows C0 C reqs reps"
  shows "core_follows C0 C' reqs reps"
  using assms
  by (auto simp: poll_step_def core_follows_def split: list.splits if_splits mwait.splits)

lemma follows_read:
  assumes "core_follows C0 C reqs reps" and "position C = Next_event"
    and r: "read_request (rx (locals C) s) [] (errno (locals C)) = Some (Done (res, left, e))"
    and T: "rx T = (rx (locals C))(s := left)" "tx T = tx (locals C)" "out T = out (locals C)"
    and p: "p = (case res of Request req \<Rightarrow> Received s req | Gone \<Rightarrow> Next_event)"
  shows "core_follows C0 (C\<lparr>todo := evs, locals := T, position := p\<rparr>) reqs reps"
proof (cases res)
  case (Request req)
  from read_request_data [OF r [unfolded Request]]
  have d: "length req = KVSTORE_CONTENT_LEN" "data_of (rx (locals C) s) = req @ data_of left" by simp_all
  with assms(1,2) T p Request read_request_steady [OF r] show ?thesis by (simp add: core_follows_def)
next
  case Gone
  with assms(1,2) T p read_request_steady [OF r] show ?thesis by (simp add: core_follows_def) blast
qed

lemma follows_event:
  assumes "event_step C = Some (Done C')" and "position C = Next_event" and "core_follows C0 C reqs reps"
  shows "core_follows C0 C' reqs reps"
proof (cases "todo C")
  case Nil
  with assms show ?thesis
    using accept_streams [of "locals C"] by (auto simp: event_step_def core_follows_def split: if_splits)
next
  case (Cons ev evs)
  let ?s = "ev_sock ev" and ?T = "locals C"
  show ?thesis
  proof (cases "?s \<noteq> listener C \<and> \<not> ev_err ev \<and> ev_in ev")
    case False
    with Cons assms show ?thesis by (auto simp: event_step_def core_follows_def Let_def split: if_splits)
  next
    case True
    with Cons assms(1) obtain res left e where
      r: "read_request (rx ?T ?s) [] (errno ?T) = Some (Done (res, left, e))"
      by (auto simp: event_step_def Let_def split: option.splits sum.splits)
    show ?thesis
    proof (cases res)
      case (Request req)
      with True Cons assms(1) r follows_read [OF assms(3,2) r _ _ _ refl, of "?T\<lparr>rx := (rx ?T)(?s := left), errno := e\<rparr>" evs]
      show ?thesis by (auto simp: event_step_def Let_def)
    next
      case Gone
      with True Cons assms(1,2) r
        follows_read [OF assms(3,2) r _ _ _ refl, of "close_twice ?s (?T\<lparr>rx := (rx ?T)(?s := left), errno := e\<rparr>)" evs]
      show ?thesis by (auto simp: event_step_def Let_def core_follows_def)
    qed
  qed
qed

lemma follows_reply:
  assumes "reply_step s k reply C = Some (Done C')" and "position C = Replying s k reply"
    and "core_follows C0 C reqs reps"
  shows "core_follows C0 C' reqs reps"
proof -
  let ?T = "locals C"
  from assms(1) obtain ok w left e where
    w: "write_reply (tx ?T s) reply (errno ?T) = Some (Done (ok, w, left, e))"
    by (auto simp: reply_step_def Let_def split: option.splits sum.splits)
  note d = write_reply_data [OF w]
  have C': "locals C' = close_twice s T \<or> locals C' = T" "whole_request (position C')"
    "pending (position C') = (\<lambda>x. [])" "in_hand (position C') = (\<lambda>x. [])"
    if "T = ?T\<lparr>tx := (tx ?T)(s := left), errno := e, out := (out ?T)(s := out ?T s @ w)\<rparr>" for T
    using assms(1) w that by (auto simp: reply_step_def Let_def fun_eq_iff split: if_splits)
  from assms(3) have tx: "set (tx ?T x) \<subseteq> set (tx (locals C0) x)" for x
    by (simp add: core_follows_def writes_left_def)
  have "delivered (lossless C0 x) (reps x) (out (locals C') x)" for x
  proof -
    from core_followsD [OF assms(3), of x] assms(2) obtain fs where
      fs: "reps x = fs @ (if x = s then [reply] else [])" "delivered (lossless C0 x) fs (out ?T x)" by auto
    have "lossless C0 s \<Longrightarrow> w = reply" using d tx [of s] by (auto simp: lossless_def)
    with fs d C'(1) [OF refl] show ?thesis by (auto simp: delivered_snoc)
  qed
  moreover have "writes_left C0 (tx (locals C'))"
  proof -
    have "tx (locals C') = (tx ?T)(s := left)" using C'(1) [OF refl] by auto
    moreover have "set left \<subseteq> set (tx (locals C0) s)" using d tx [of s] by blast
    ultimately show ?thesis using tx by (simp add: writes_left_def)
  qed
  moreover have "rx (locals C') = rx ?T" using C'(1) [OF refl] by auto
  ultimately show ?thesis using C'(2-4) [OF refl] assms(2,3) by (simp add: core_follows_def)
qed

lemma quiet_step:
  assumes "core_step ck G C = Some (Done (G', C'))" and "\<nexists>s req. position C = Counted s req"
    and "core_follows C0 C reqs reps"
  shows "store G' = store G \<and> core_follows C0 C' reqs reps"
proof (cases "position C")
  case Set_up
  with assms obtain C1 where "set_up_step C = Done C1" "G' = G" "C' = C1"
    by (cases "set_up_step C") (auto simp: core_step_def)
  with follows_set_up Set_up assms(3) show ?thesis by blast
next
  case Poll
  with assms follows_poll show ?thesis by (auto simp: core_step_def)
next
  case Next_event
  with assms obtain r where "event_step C = Some r" "map_sum id (Pair G) r = Done (G', C')"
    by (auto simp: core_step_def)
  with follows_event [of C] Next_event assms(3) show ?thesis by (cases r) auto
next
  case (Replying s k reply)
  with assms obtain r where "reply_step s k reply C = Some r" "map_sum id (Pair G) r = Done (G', C')"
    by (auto simp: core_step_def)
  with follows_reply [of s k reply C] Replying assms(3) show ?thesis by (cases r) auto
qed (use assms in \<open>auto simp: core_step_def core_follows_def\<close>)

text \<open>A thread faults only where it ends the process, as long as the store is alive.\<close>

lemma read_request_fault: "read_request evs got err = Some (Fault f) \<Longrightarrow> f = Exit 1"
proof (induction evs got err rule: read_request.induct)
  case (1 evs got err)
  note IH = "1.IH" and run' = "1.prems" [unfolded read_request.simps [of evs got err]]
  show ?case
  proof (cases "length got = KVSTORE_CONTENT_LEN")
    case False
    then show ?thesis
    proof (cases evs)
      case (Cons e0 evs')
      show ?thesis
      proof (cases e0)
        case (MData bs)
        with run' IH(1,2) [OF False Cons MData refl refl refl] False Cons show ?thesis
          by (auto simp: Let_def split: if_splits)
      qed (use run' False Cons IH in \<open>auto split: if_splits\<close>)
    qed (use run' in auto)
  qed (use run' in simp)
qed

lemma write_reply_fault: "write_reply evs bs err = Some (Fault f) \<Longrightarrow> f = Exit 1"
proof (induction evs bs err rule: write_reply.induct)
  case (3 n evs b bs err)
  then obtain z where "write_reply evs (drop n (b # bs)) err = Some z"
    "map_sum id (\<lambda>(ok, w, left, e). (ok, take n (b # bs) @ w, left, e)) z = Fault f" by auto
  with "3.IH" show ?case by (cases z) auto
qed (auto split: if_splits)

lemma packet_fault:
  assumes "kvstore_process_packet ck (Live h) req = Fault f" and "length req = KVSTORE_CONTENT_LEN"
  shows "f = Exit 1"
  using assms by (auto simp: kvstore_process_packet_def Let_def split: option.splits prod.splits)

lemma core_fault:
  assumes "core_step ck G C = Some (Fault f)" and "store G = Live h" and "whole_request (position C)"
  shows "\<exists>n. f = Exit n"
proof (cases "position C")
  case Set_up
  with assms(1) show ?thesis
    by (cases "set_up_step C") (auto simp: core_step_def set_up_step_def split: if_splits prod.splits)
next
  case Next_event
  with assms(1) obtain r where r: "event_step C = Some r" "map_sum id (Pair G) r = Fault f"
    by (auto simp: core_step_def)
  then have "event_step C = Some (Fault f)" by (cases r) auto
  then show ?thesis
    by (auto simp: event_step_def Let_def dest: read_request_fault
        split: list.splits if_splits option.splits sum.splits prod.splits read_result.splits)
next
  case (Counted s req)
  with assms show ?thesis
    by (auto simp: core_step_def dest: packet_fault split: sum.splits prod.splits)
next
  case (Replying s k reply)
  with assms(1) obtain r where r: "reply_step s k reply C = Some r" "map_sum id (Pair G) r = Fault f"
    by (auto simp: core_step_def)
  then have "reply_step s k reply C = Some (Fault f)" by (cases r) auto
  then show ?thesis
    by (auto simp: reply_step_def Let_def dest: write_reply_fault
        split: option.splits sum.splits prod.splits if_splits)
qed (use assms(1) in \<open>auto simp: core_step_def\<close>)

section \<open>Requests in one order\<close>

text \<open>The replies to one of several clients when all their requests run one after the other on a map.\<close>

fun replies_to :: "'c \<Rightarrow> (string \<rightharpoonup> string) \<Rightarrow> ('c \<times> send_message) list \<Rightarrow> send_message list" where
  "replies_to c m [] = []"
| "replies_to c m ((d, q) # log) =
     (let (m', rs) = spec_run m [q] in (if d = c then rs else []) @ replies_to c m' log)"

definition requests_of :: "'c \<Rightarrow> ('c \<times> send_message) list \<Rightarrow> send_message list" where
  "requests_of c log = map snd (filter (\<lambda>e. fst e = c) log)"

lemma replies_to_snoc:
  "replies_to c m (log @ [(d, q)]) =
     replies_to c m log @ (if d = c then snd (spec_run (fst (spec_run m (map snd log))) [q]) else [])"
  by (induction log arbitrary: m) (auto split: prod.splits)

lemma requests_of_snoc:
  "requests_of c (log @ [(d, q)]) = requests_of c log @ (if d = c then [q] else [])"
  by (simp add: requests_of_def)

text \<open>A process over a log of the requests in the order in which they reached the store, each with the
  thread and the socket it came from.\<close>

type_synonym request_log = "((nat \<times> int) \<times> send_message) list"

definition serialised ::
  "('h \<Rightarrow> string \<rightharpoonup> string) \<Rightarrow> ('h \<Rightarrow> bool) \<Rightarrow> nat \<Rightarrow> (nat \<Rightarrow> 'h core) \<Rightarrow> request_log \<Rightarrow> 'h process \<Rightarrow> bool"
where
  "serialised contents valid core_limit cs log P \<longleftrightarrow>
     (\<forall>e \<in> set log. valid_request (snd e)) \<and>
     (if destroyed P then store (shared P) = Dangling \<and> joined P = core_limit
      else \<exists>h. store (shared P) = Live h \<and> valid h \<and>
        contents h = fst (spec_run Map.empty (map snd log))) \<and>
     joined P \<le> started P \<and> started P \<le> core_limit \<and> (\<forall>i < joined P. position (cores P i) = Stopped) \<and>
     (\<forall>i. core_follows (cs i) (cores P i) (\<lambda>s. wire (requests_of (i, s) log))
        (\<lambda>s. map encode_send (replies_to (i, s) Map.empty log)))"

lemma serialised_sent:
  "serialised contents valid core_limit cs log P \<Longrightarrow>
   delivered (lossless (cs i) s) (map encode_send (replies_to (i, s) Map.empty log))
     (out (locals (cores P i)) s @ unsent (position (cores P i)) s)"
  using core_follows_sent [of "cs i" "cores P i" "\<lambda>s. wire (requests_of (i, s) log)"
      "\<lambda>s. map encode_send (replies_to (i, s) Map.empty log)" s]
  by (simp add: serialised_def)

lemma running_store:
  assumes "serialised contents valid core_limit cs log P" and "i < started P"
    and "position (cores P i) \<noteq> Stopped"
  shows "\<not> destroyed P"
  using assms by (auto simp: serialised_def)

context cuckoohash_map
begin

lemma store_step:
  assumes "core_step ck G C = Some (Done (G', C'))" and "position C = Counted s req"
    and "store G = Live h" and "valid h" and "core_follows C0 C reqs reps"
  shows "\<exists>q h'. req = encode_send q \<and> valid_request q \<and> store G' = Live h' \<and> valid h' \<and>
    contents h' = fst (spec_run (contents h) [q]) \<and>
    core_follows C0 C' (reqs(s := reqs s @ encode_send q))
      (reps(s := reps s @ map encode_send (snd (spec_run (contents h) [q]))))"
proof -
  let ?q = "decode_send req"
  have len: "length req = KVSTORE_CONTENT_LEN" using assms(2,5) by (simp add: core_follows_def)
  then have q: "wf_send ?q" "encode_send ?q = req" by (simp_all add: encode_decode_send)
  from assms(1-3) obtain r p reply where
    p: "kvstore_process_packet ck (Live h) req = Done (r, p, reply)"
    and G': "G' = G\<lparr>store := p\<rparr>" "C' = C\<lparr>position := Replying s (schar (req ! 1)) reply\<rparr>"
    by (auto simp: core_step_def split: sum.splits)
  from p len obtain op where op: "operation_of (operation ?q) = Some op"
    by (auto simp: kvstore_process_packet_def Let_def split: option.splits)
  obtain ok m' v where spec: "kv_spec (contents h) op (key ?q) (msg_value ?q) = (ok, m', v)"
    by (cases "kv_spec (contents h) op (key ?q) (msg_value ?q)") auto
  from packet_refines [OF assms(4) q(1) op spec] p q(2) obtain h' where
    h': "p = Live h'" "valid h'" "contents h' = m'" "reply = encode_send (spec_reply ok v ?q)" by auto
  have run: "spec_run (contents h) [?q] = (m', [spec_reply ok v ?q])" by (simp add: op spec)
  have "valid_request ?q" using q(1) op by (simp add: valid_request_def)
  moreover have "core_follows C0 C' (reqs(s := reqs s @ encode_send ?q))
      (reps(s := reps s @ map encode_send (snd (spec_run (contents h) [?q]))))"
    using assms(2,5) unfolding run G' by (simp add: core_follows_def h'(4) q(2))
  ultimately show ?thesis
    using h' q(2) run G' by (intro exI [of _ ?q] exI [of _ h']) simp
qed

lemma serialised_new:
  assumes "\<forall>i s. position (cs i) = Set_up \<and> out (locals (cs i)) s = []"
  shows "serialised contents valid core_limit cs [] (process_new ck cs)"
  using assms new_doc by (simp add: serialised_def process_new_def core_follows_def writes_left_def requests_of_def)

lemma serialised_work:
  assumes inv: "serialised contents valid core_limit cs log P" and i: "i < started P"
    and step: "core_step ck (shared P) (cores P i) = Some (Done (G, C))"
  shows "\<exists>log'. serialised contents valid core_limit cs log' (P\<lparr>shared := G, cores := (cores P)(i := C)\<rparr>)"
proof -
  have "position (cores P i) \<noteq> Stopped" using step by (auto simp: core_step_def)
  with running_store [OF inv i] inv have run: "\<not> destroyed P" "\<not> i < joined P"
    by (auto simp: serialised_def)
  with inv obtain h where h: "store (shared P) = Live h" "valid h"
    "contents h = fst (spec_run Map.empty (map snd log))" by (auto simp: serialised_def)
  have f: "core_follows (cs i) (cores P i) (\<lambda>s. wire (requests_of (i, s) log))
      (\<lambda>s. map encode_send (replies_to (i, s) Map.empty log))"
    using inv by (simp add: serialised_def)
  show ?thesis
  proof (cases "\<exists>s req. position (cores P i) = Counted s req")
    case False
    with quiet_step [OF step _ f] inv run h show ?thesis
      by (intro exI [of _ log]) (auto simp: serialised_def)
  next
    case True
    then obtain s req where "position (cores P i) = Counted s req" by blast
    from store_step [OF step this h(1,2) f] obtain q h' where
      q: "valid_request q" and h': "store G = Live h'" "valid h'" "contents h' = fst (spec_run (contents h) [q])"
      and f': "core_follows (cs i) C
        ((\<lambda>s. wire (requests_of (i, s) log))(s := wire (requests_of (i, s) log) @ encode_send q))
        ((\<lambda>s. map encode_send (replies_to (i, s) Map.empty log))
           (s := map encode_send (replies_to (i, s) Map.empty log) @ map encode_send (snd (spec_run (contents h) [q]))))"
      by blast
    let ?log = "log @ [((i, s), q)]"
    have "fst (spec_run Map.empty (map snd ?log)) = contents h'"
      unfolding h'(3) h(3) by (simp add: spec_run_append del: spec_run.simps split: prod.split)
    moreover have "(\<lambda>x. wire (requests_of (i, x) ?log)) = (\<lambda>x. wire (requests_of (i, x) log))
        (s := wire (requests_of (i, s) log) @ encode_send q)"
      by (auto simp: requests_of_snoc fun_eq_iff)
    moreover have "(\<lambda>x. map encode_send (replies_to (i, x) Map.empty ?log)) =
        (\<lambda>x. map encode_send (replies_to (i, x) Map.empty log))
        (s := map encode_send (replies_to (i, s) Map.empty log) @ map encode_send (snd (spec_run (contents h) [q])))"
      by (auto simp: replies_to_snoc h(3) fun_eq_iff simp del: spec_run.simps)
    moreover have "requests_of (j, x) ?log = requests_of (j, x) log"
      "replies_to (j, x) Map.empty ?log = replies_to (j, x) Map.empty log" if "j \<noteq> i" for j x
      using that by (simp_all add: requests_of_snoc replies_to_snoc)
    ultimately have "serialised contents valid core_limit cs ?log
        (P\<lparr>shared := G, cores := (cores P)(i := C)\<rparr>)"
      using inv run q h' f' by (auto simp: serialised_def simp del: spec_run.simps)
    then show ?thesis ..
  qed
qed

lemma serialised_step:
  assumes "process_step ck core_limit P P'" and inv: "serialised contents valid core_limit cs log P"
  shows "\<exists>log'. serialised contents valid core_limit cs log' P'"
  using assms(1)
proof cases
  case (work i G C)
  with serialised_work [OF inv work(2,3)] show ?thesis by simp
next
  case (destroy r p)
  with inv obtain h where "store (shared P) = Live h" by (auto simp: serialised_def)
  with destroy inv show ?thesis by (intro exI [of _ log]) (auto simp: serialised_def)
qed (use inv in \<open>auto simp: serialised_def less_Suc_eq intro!: exI [of _ log]\<close>)

lemma serialised_reachable:
  assumes "process_reachable ck core_limit (process_new ck cs) P"
    and "\<forall>i s. position (cs i) = Set_up \<and> out (locals (cs i)) s = []"
  shows "\<exists>log. serialised contents valid core_limit cs log P"
  using assms(1)
proof induction
  case here
  from serialised_new [OF assms(2)] show ?case ..
next
  case (later P P')
  then show ?case using serialised_step by blast
qed

end

section \<open>A thread on its own is the server thread of the sequential model\<close>

text \<open>What a thread comes to when no other runs.\<close>

inductive core_result :: "'h cuckoo \<Rightarrow> 'h shared_state \<Rightarrow> 'h core \<Rightarrow> ('h shared_state \<times> 'h core) outcome \<Rightarrow> bool"
  for ck :: "'h cuckoo" where
  stopped: "position C = Stopped \<Longrightarrow> core_result ck G C (Done (G, C))"
| fault: "core_step ck G C = Some (Fault f) \<Longrightarrow> core_result ck G C (Fault f)"
| step: "core_step ck G C = Some (Done (G', C')) \<Longrightarrow> core_result ck G' C' r \<Longrightarrow> core_result ck G C r"

lemma core_result_stopped: "core_result ck G C r \<Longrightarrow> r = Done (G', C') \<Longrightarrow> position C' = Stopped"
  by (induction rule: core_result.induct) auto

text \<open>The state of \<open>MtcpServer\<close>, in which the shared variables are fields of the thread.\<close>

definition view :: "'h shared_state \<Rightarrow> 'h thread \<Rightarrow> 'h thread" where
  "view G T = T\<lparr>kv := store G, num_pkts_recvd := pkts_recvd G, num_pkts_writ := pkts_writ G\<rparr>"

fun ends_as :: "'h thread outcome \<Rightarrow> ('h shared_state \<times> 'h core) outcome \<Rightarrow> bool" where
  "ends_as (Fault f) r \<longleftrightarrow> r = Fault f"
| "ends_as (Done T) r \<longleftrightarrow> (\<exists>G C. r = Done (G, C) \<and> T = view G (locals C))"

lemma view_fields [simp]:
  "rx (view G T) = rx T" "tx (view G T) = tx T" "out (view G T) = out T" "errno (view G T) = errno T"
  "acc (view G T) = acc T" "kv (view G T) = store G" "calls (view G T) = calls T"
  "num_pkts_recvd (view G T) = pkts_recvd G" "num_pkts_writ (view G T) = pkts_writ G"
  by (simp_all add: view_def)

lemma view_close [simp]: "CloseConnection s (view G T) = view G (CloseConnection s T)"
  by (simp add: CloseConnection_def call_def view_def)

lemma view_accept: "AcceptConnection (view G T) = map_option (map_prod id (view G)) (AcceptConnection T)"
  by (simp add: AcceptConnection_def call_def view_def split: list.split maccept.split)

lemma view_accept_all: "accept_all (view G T) = map_option (view G) (accept_all T)"
proof (induction T rule: accept_all.induct)
  case (1 T)
  show ?case
  proof (cases "AcceptConnection T")
    case None
    then show ?thesis by (simp add: accept_all.simps [of T] accept_all.simps [of "view G T"] view_accept)
  next
    case (Some p)
    obtain r T1 where p: "p = (r, T1)" by (cases p)
    with 1 [OF Some [unfolded p] refl] Some show ?thesis
      by (simp add: accept_all.simps [of T] accept_all.simps [of "view G T"] view_accept)
  qed
qed

lemma view_listen:
  "CreateListeningSocket s (view G T) = map_prod id (view G) (CreateListeningSocket s T)"
  by (simp add: CreateListeningSocket_def call_def view_def Let_def)

text \<open>A thread comes to a result that has a given property.\<close>

definition comes_to ::
  "'h cuckoo \<Rightarrow> 'h shared_state \<Rightarrow> 'h core \<Rightarrow> (('h shared_state \<times> 'h core) outcome \<Rightarrow> bool) \<Rightarrow> bool" where
  "comes_to ck G C Q \<longleftrightarrow> (\<exists>r. core_result ck G C r \<and> Q r)"

lemma comes_to_step:
  "core_step ck G C = Some (Done (G', C')) \<Longrightarrow> comes_to ck G' C' Q \<Longrightarrow> comes_to ck G C Q"
  by (auto simp: comes_to_def intro: core_result.step)

lemma comes_to_fault: "core_step ck G C = Some (Fault f) \<Longrightarrow> Q (Fault f) \<Longrightarrow> comes_to ck G C Q"
  by (auto simp: comes_to_def intro: core_result.fault)

lemma comes_to_stopped: "position C = Stopped \<Longrightarrow> Q (Done (G, C)) \<Longrightarrow> comes_to ck G C Q"
  by (auto simp: comes_to_def intro: core_result.stopped)

text \<open>After the reply is out, and from the reply on.\<close>

lemma result_replied:
  assumes "position C = Replied s k"
    and r: "comes_to ck (G\<lparr>pkts_writ := pkts_writ G + 1\<rparr>)
      (C\<lparr>locals := finish_reply s k (locals C), position := Next_event\<rparr>) Q"
  shows "comes_to ck G C Q"
proof -
  let ?C = "C\<lparr>position := Counting_writ s k (pkts_writ G)\<rparr>"
  have "core_step ck G C = Some (Done (G, ?C))" using assms(1) by (simp add: core_step_def)
  moreover have "core_step ck G ?C = Some (Done (G\<lparr>pkts_writ := pkts_writ G + 1\<rparr>,
      C\<lparr>locals := finish_reply s k (locals C), position := Next_event\<rparr>))"
    by (simp add: core_step_def)
  ultimately show ?thesis using r by (blast intro: comes_to_step)
qed

lemma result_counted:
  assumes "position C = Received s req"
    and r: "comes_to ck (G\<lparr>pkts_recvd := pkts_recvd G + 1\<rparr>) (C\<lparr>position := Counted s req\<rparr>) Q"
  shows "comes_to ck G C Q"
proof -
  let ?C = "C\<lparr>position := Counting_recvd s req (pkts_recvd G)\<rparr>"
  have "core_step ck G C = Some (Done (G, ?C))" using assms(1) by (simp add: core_step_def)
  moreover have "core_step ck G ?C =
      Some (Done (G\<lparr>pkts_recvd := pkts_recvd G + 1\<rparr>, C\<lparr>position := Counted s req\<rparr>))"
    by (simp add: core_step_def)
  ultimately show ?thesis using r by (blast intro: comes_to_step)
qed

text \<open>\<open>HandleReadEvent\<close> from \<open>kvstore_process_packet\<close> on, and what its caller adds.\<close>

definition serve_request :: "'h cuckoo \<Rightarrow> int \<Rightarrow> string \<Rightarrow> 'h thread \<Rightarrow> (int \<times> 'h thread) outcome option" where
  "serve_request ck s req T =
     (case kvstore_process_packet ck (kv T) req of
        Inl f \<Rightarrow> Some (Inl f)
      | Inr (_, p, reply) \<Rightarrow>
          (case write_reply (tx T s) reply (errno T) of
             None \<Rightarrow> None
           | Some (Inl f) \<Rightarrow> Some (Inl f)
           | Some (Inr (all_out, w, left, e)) \<Rightarrow>
               (let T2 = T\<lparr>kv := p, tx := (tx T)(s := left), errno := e, out := (out T)(s := out T s @ w)\<rparr> in
                if \<not> all_out then Some (Done (0, CloseConnection s T2))
                else
                  (let k = schar (req ! 1); T3 = call [Ctl_mod s] (T2\<lparr>num_pkts_writ := num_pkts_writ T2 + 1\<rparr>) in
                   Some (Done (k, if k = 0 then CloseConnection s T3 else T3))))))"

definition after_read :: "int \<Rightarrow> int \<Rightarrow> 'h thread \<Rightarrow> 'h thread" where
  "after_read s ret T =
     (if ret = 0 then CloseConnection s T
      else if ret < 0 \<and> errno T \<noteq> EAGAIN then CloseConnection s T
      else T)"

lemma finish_reply_after_read:
  "finish_reply s k T =
     after_read s k (if k = 0 then CloseConnection s (call [Ctl_mod s] T) else call [Ctl_mod s] T)"
  by (auto simp: after_read_def finish_reply_def close_twice_def Let_def)

lemma HandleReadEvent_serve:
  "read_request (rx T s) [] (errno T) = Some (Done (Request req, left, e)) \<Longrightarrow>
   HandleReadEvent ck s T =
     serve_request ck s req (T\<lparr>rx := (rx T)(s := left), errno := e, num_pkts_recvd := num_pkts_recvd T + 1\<rparr>)"
  unfolding HandleReadEvent_def serve_request_def Let_def by simp

lemma result_serve:
  assumes run: "serve_request ck s req (view G (locals C)) = Some x" and C: "position C = Counted s req"
    and cont: "\<And>ret G' T'. x = Done (ret, view G' T') \<Longrightarrow>
      comes_to ck G' (C\<lparr>locals := after_read s ret T', position := Next_event\<rparr>) Q"
    and faulty: "\<And>f. x = Fault f \<Longrightarrow> Q (Fault f)"
  shows "comes_to ck G C Q"
proof (cases "kvstore_process_packet ck (store G) req")
  case (Inl f)
  with run C faulty show ?thesis by (auto simp: serve_request_def core_step_def intro!: comes_to_fault)
next
  case (Inr y)
  obtain n p reply where y: "y = (n, p, reply)" by (cases y)
  let ?k = "schar (req ! 1)" and ?T = "locals C"
  let ?G = "G\<lparr>store := p\<rparr>" and ?C = "C\<lparr>position := Replying s ?k reply\<rparr>"
  have 1: "core_step ck G C = Some (Done (?G, ?C))" using C Inr y by (simp add: core_step_def)
  from run Inr y obtain w where w: "write_reply (tx ?T s) reply (errno ?T) = Some w"
    by (cases "write_reply (tx ?T s) reply (errno ?T)") (auto simp: serve_request_def)
  have "comes_to ck ?G ?C Q"
  proof (cases w)
    case (Inl f)
    with run Inr y w faulty have "Q (Fault f)" by (auto simp: serve_request_def)
    moreover have "core_step ck ?G ?C = Some (Fault f)"
      using w Inl by (simp add: core_step_def reply_step_def Let_def)
    ultimately show ?thesis by (simp add: comes_to_fault)
  next
    case (Inr z)
    obtain all_out v left e where z: "z = (all_out, v, left, e)" by (cases z)
    let ?T2 = "?T\<lparr>tx := (tx ?T)(s := left), errno := e, out := (out ?T)(s := out ?T s @ v)\<rparr>"
    note w = w [unfolded Inr z]
    note run = run [unfolded serve_request_def view_fields \<open>kvstore_process_packet ck (store G) req = Inr y\<close> y w]
    have v: "(view G ?T)\<lparr>kv := p, tx := (tx ?T)(s := left), errno := e, out := (out ?T)(s := out ?T s @ v)\<rparr> =
        view ?G ?T2" by (simp add: view_def)
    show ?thesis
    proof (cases all_out)
      case False
      have "core_step ck ?G ?C = Some (Done (?G, C\<lparr>locals := close_twice s ?T2, position := Next_event\<rparr>))"
        using w False by (simp add: core_step_def reply_step_def Let_def)
      moreover have "x = Done (0, view ?G (CloseConnection s ?T2))" using run False v w by simp
      from cont [OF this] have "comes_to ck ?G (C\<lparr>locals := close_twice s ?T2, position := Next_event\<rparr>) Q"
        by (simp add: after_read_def close_twice_def)
      ultimately show ?thesis by (rule comes_to_step)
    next
      case True
      let ?G3 = "?G\<lparr>pkts_writ := pkts_writ G + 1\<rparr>" and ?T3 = "call [Ctl_mod s] ?T2"
      have "core_step ck ?G ?C = Some (Done (?G, C\<lparr>locals := ?T2, position := Replied s ?k\<rparr>))"
        using w True by (simp add: core_step_def reply_step_def Let_def)
      moreover have v3: "call [Ctl_mod s] ((view G ?T)\<lparr>kv := p, tx := (tx ?T)(s := left), errno := e,
          out := (out ?T)(s := out ?T s @ v), num_pkts_writ := pkts_writ G + 1\<rparr>) = view ?G3 ?T3"
        by (simp add: call_def view_def)
      have "x = Done (?k, view ?G3 (if ?k = 0 then CloseConnection s ?T3 else ?T3))"
        using run True v3 w by (auto simp: Let_def)
      from cont [OF this]
      have "comes_to ck ?G3 (C\<lparr>locals := finish_reply s ?k ?T2, position := Next_event\<rparr>) Q"
        by (simp only: finish_reply_after_read)
      then have "comes_to ck ?G (C\<lparr>locals := ?T2, position := Replied s ?k\<rparr>) Q"
        by - (rule result_replied [of _ s ?k], simp_all)
      ultimately show ?thesis by (rule comes_to_step)
    qed
  qed
  with 1 show ?thesis by (rule comes_to_step)
qed

text \<open>A request that was read, up to the next event.\<close>

lemma result_request:
  assumes run: "HandleReadEvent ck s (view G (locals C)) = Some x"
    and y: "read_request (rx (locals C) s) [] (errno (locals C)) = Some (Done (Request req, left, e))"
    and C: "position C = Next_event"
    and cont: "\<And>ret G' T'. x = Done (ret, view G' T') \<Longrightarrow>
      comes_to ck G' (C\<lparr>todo := evs, locals := after_read s ret T'\<rparr>) Q"
    and faulty: "\<And>f. x = Fault f \<Longrightarrow> Q (Fault f)"
  shows "comes_to ck G (C\<lparr>todo := evs, locals := (locals C)\<lparr>rx := (rx (locals C))(s := left), errno := e\<rparr>,
    position := Received s req\<rparr>) Q"
proof -
  let ?T = "locals C" and ?G = "G\<lparr>pkts_recvd := pkts_recvd G + 1\<rparr>"
  let ?T1 = "?T\<lparr>rx := (rx ?T)(s := left), errno := e\<rparr>"
  let ?C = "C\<lparr>todo := evs, locals := ?T1, position := Received s req\<rparr>"
  have v: "(view G ?T)\<lparr>rx := (rx ?T)(s := left), errno := e, num_pkts_recvd := pkts_recvd G + 1\<rparr> =
      view ?G ?T1" by (simp add: view_def)
  have sv: "serve_request ck s req (view ?G ?T1) = Some x"
    using HandleReadEvent_serve [of "view G ?T" s req left e ck] run y v by simp
  have "comes_to ck ?G (?C\<lparr>position := Counted s req\<rparr>) Q"
  proof (rule result_serve [of ck s req ?G _ x])
    fix ret G' T'
    assume "x = Done (ret, view G' T')"
    moreover have "?C\<lparr>position := Counted s req, locals := T, position := Next_event\<rparr> =
        C\<lparr>todo := evs, locals := T\<rparr>" for T
      using C by (cases C) simp
    ultimately show "comes_to ck G' (?C\<lparr>position := Counted s req, locals := after_read s ret T',
        position := Next_event\<rparr>) Q" using cont by metis
  qed (use sv faulty in simp_all)
  then show ?thesis by - (rule result_counted, simp_all)
qed

text \<open>One event: whatever the thread comes to after the event, it comes to before it.\<close>

lemma result_read_event:
  assumes run: "HandleReadEvent ck (ev_sock ev) (view G (locals C)) = Some x"
    and ev: "ev_sock ev \<noteq> listener C \<and> \<not> ev_err ev \<and> ev_in ev"
    and C: "position C = Next_event" "todo C = ev # evs"
    and cont: "\<And>ret G' T'. x = Done (ret, view G' T') \<Longrightarrow>
      comes_to ck G' (C\<lparr>todo := evs, locals := after_read (ev_sock ev) ret T'\<rparr>) Q"
    and faulty: "\<And>f. x = Fault f \<Longrightarrow> Q (Fault f)"
  shows "comes_to ck G C Q"
proof -
  let ?s = "ev_sock ev" and ?T = "locals C"
  from run obtain y where y: "read_request (rx ?T ?s) [] (errno ?T) = Some y"
    by (cases "read_request (rx ?T ?s) [] (errno ?T)") (simp_all add: HandleReadEvent_def)
  show ?thesis
  proof (cases y)
    case (Inl f)
    with run y faulty have "Q (Fault f)" by (auto simp: HandleReadEvent_def)
    with ev C y Inl show ?thesis
      by (auto simp: core_step_def event_step_def Let_def intro!: comes_to_fault)
  next
    case (Inr z)
    obtain res left e where z: "z = (res, left, e)" by (cases z)
    note y = y [unfolded Inr z]
    let ?T1 = "?T\<lparr>rx := (rx ?T)(?s := left), errno := e\<rparr>"
    show ?thesis
    proof (cases res)
      case Gone
      have "(view G ?T)\<lparr>rx := (rx ?T)(?s := left), errno := e\<rparr> = view G ?T1" by (simp add: view_def)
      with run y Gone have "x = Done (0, view G (CloseConnection ?s ?T1))"
        by (simp add: HandleReadEvent_def)
      from cont [OF this] have "comes_to ck G (C\<lparr>todo := evs, locals := close_twice ?s ?T1\<rparr>) Q"
        by (simp add: after_read_def close_twice_def)
      with ev C y Gone show ?thesis
        by - (rule comes_to_step, simp_all add: core_step_def event_step_def Let_def)
    next
      case (Request req)
      from result_request [OF run y [unfolded Request] C(1) cont faulty] ev C y Request show ?thesis
        by - (rule comes_to_step, simp_all add: core_step_def event_step_def Let_def)
    qed
  qed
qed

lemma result_event:
  assumes run: "handle_one ck (listener C) ev (do_accept C) (view G (locals C)) = Some h"
    and C: "position C = Next_event" "todo C = ev # evs"
    and cont: "\<And>d G' T'. h = Done (d, view G' T') \<Longrightarrow>
      comes_to ck G' (C\<lparr>todo := evs, do_accept := d, locals := T'\<rparr>) Q"
    and faulty: "\<And>f. h = Fault f \<Longrightarrow> Q (Fault f)"
  shows "comes_to ck G C Q"
proof (cases "ev_sock ev \<noteq> listener C \<and> \<not> ev_err ev \<and> ev_in ev")
  case False
  then obtain d T' where h: "h = Done (d, view G T')"
    and e: "event_step C = Some (Done (C\<lparr>todo := evs, do_accept := d, locals := T'\<rparr>))"
    using run C by (fastforce simp: handle_one_def event_step_def split: if_splits)
  from cont [OF h] e C(1) show ?thesis
    by (intro comes_to_step [of ck G C G]) (simp_all add: core_step_def)
next
  case True
  let ?s = "ev_sock ev"
  have "(case HandleReadEvent ck ?s (view G (locals C)) of
      None \<Rightarrow> None | Some (Inl f) \<Rightarrow> Some (Inl f)
    | Some (Inr (ret, T1)) \<Rightarrow> Some (Done (do_accept C, after_read ?s ret T1))) = Some h"
    using run True unfolding handle_one_def after_read_def by simp
  note run = this
  then obtain x where x: "HandleReadEvent ck ?s (view G (locals C)) = Some x"
    by (cases "HandleReadEvent ck ?s (view G (locals C))") simp_all
  show ?thesis
  proof (rule result_read_event [OF x True C])
    fix ret G' T'
    assume "x = Done (ret, view G' T')"
    with run x have "h = Done (do_accept C, view G' (after_read ?s ret T'))"
      by (auto simp: after_read_def)
    from cont [OF this] show "comes_to ck G' (C\<lparr>todo := evs, locals := after_read ?s ret T'\<rparr>) Q"
      by simp
  next
    fix f
    assume "x = Fault f"
    with run x faulty show "Q (Fault f)" by simp
  qed
qed

lemma as_view: "\<exists>G T'. T = view G T'"
  by (rule exI [of _ "\<lparr>store = kv T, pkts_recvd = num_pkts_recvd T, pkts_writ = num_pkts_writ T\<rparr>"],
      rule exI [of _ T]) (simp add: view_def)

lemma result_events:
  assumes "handle_evs ck (listener C) evs (do_accept C) (view G (locals C)) = Some h"
    and "position C = Next_event" "todo C = evs"
    and "\<And>d G' T'. h = Done (d, view G' T') \<Longrightarrow>
      comes_to ck G' (C\<lparr>todo := [], do_accept := d, locals := T'\<rparr>) Q"
    and "\<And>f. h = Fault f \<Longrightarrow> Q (Fault f)"
  shows "comes_to ck G C Q"
  using assms
proof (induction evs arbitrary: G C)
  case Nil
  from Nil.prems(1) have "h = Done (do_accept C, view G (locals C))" by simp
  from Nil.prems(4) [OF this] Nil.prems(3) show ?case by (cases C) simp
next
  case (Cons ev evs)
  from Cons.prems(1) obtain x where x: "handle_one ck (listener C) ev (do_accept C) (view G (locals C)) = Some x"
    by (cases "handle_one ck (listener C) ev (do_accept C) (view G (locals C))") simp_all
  show ?case
  proof (rule result_event [OF x Cons.prems(2,3)])
    fix d G' T'
    assume "x = Done (d, view G' T')"
    with x Cons.prems(1) have "handle_evs ck (listener C) evs d (view G' T') = Some h" by simp
    with Cons.prems show "comes_to ck G' (C\<lparr>todo := evs, do_accept := d, locals := T'\<rparr>) Q"
      by - (rule Cons.IH, simp_all)
  next
    fix f
    assume "x = Fault f"
    with x Cons.prems(1,5) show "Q (Fault f)" by simp
  qed
qed

lemma result_loop:
  "server_loop ck (listener C) ws (view G (locals C)) = Some x \<Longrightarrow> position C = Poll \<Longrightarrow> waits C = ws \<Longrightarrow>
   comes_to ck G C (ends_as x)"
proof (induction ws arbitrary: G C)
  case (Cons p ws)
  obtain flag w where p: "p = (flag, w)" by (cases p)
  note run = Cons.prems(1) [unfolded p] and C = Cons.prems(2,3) [unfolded p]
  show ?case
  proof (cases "flag \<or> (\<exists>e. w = MWait_err e)")
    case True
    have "\<exists>T. x = Done (view G T) \<and>
        poll_step C = Some (C\<lparr>waits := ws, locals := T, position := Stopped\<rparr>)"
    proof (cases flag)
      case True
      with run C show ?thesis by (intro exI [of _ "locals C"]) (simp add: poll_step_def)
    next
      case False
      with \<open>flag \<or> (\<exists>e. w = MWait_err e)\<close> obtain e where "w = MWait_err e" by blast
      with False run C show ?thesis
        by (intro exI [of _ "(locals C)\<lparr>errno := e\<rparr>"]) (auto simp: poll_step_def view_def)
    qed
    then obtain T where T: "x = Done (view G T)"
      "poll_step C = Some (C\<lparr>waits := ws, locals := T, position := Stopped\<rparr>)" by blast
    then have "comes_to ck G (C\<lparr>waits := ws, locals := T, position := Stopped\<rparr>) (ends_as x)"
      by (intro comes_to_stopped) auto
    with T(2) C(1) show ?thesis by - (rule comes_to_step, simp_all add: core_step_def)
  next
    case False
    then obtain evs where w: "w = MEvents evs" "\<not> flag" by (cases w) auto
    let ?C = "C\<lparr>waits := ws, todo := evs, do_accept := False, position := Next_event\<rparr>"
    from run w obtain h where h: "handle_evs ck (listener C) evs False (view G (locals C)) = Some h"
      by (cases "handle_evs ck (listener C) evs False (view G (locals C))") simp_all
    have "comes_to ck G ?C (ends_as x)"
    proof (rule result_events [of _ _ evs _ h])
      fix d G' T'
      assume hd: "h = Done (d, view G' T')"
      let ?C' = "?C\<lparr>todo := [], do_accept := d, locals := T'\<rparr>"
      have "\<exists>T2. (if d then accept_all T' else Some T') = Some T2 \<and>
          server_loop ck (listener C) ws (view G' T2) = Some x"
        using run w h hd by (cases "accept_all T'") (simp_all add: view_accept_all split: if_splits)
      then obtain T2 where a: "(if d then accept_all T' else Some T') = Some T2"
        and loop: "server_loop ck (listener C) ws (view G' T2) = Some x" by blast
      have T2: "event_step ?C' = Some (Done (?C'\<lparr>locals := T2, position := Poll\<rparr>))"
        using a by (cases d) (simp_all add: event_step_def)
      have "comes_to ck G' (?C'\<lparr>locals := T2, position := Poll\<rparr>) (ends_as x)"
        by (rule Cons.IH) (use loop in simp_all)
      with T2 show "comes_to ck G' ?C' (ends_as x)"
        by - (rule comes_to_step, simp_all add: core_step_def)
    next
      fix f
      assume "h = Fault f"
      with run w h show "ends_as x (Fault f)" by auto
    qed (use h in simp_all)
    with w C show ?thesis by - (rule comes_to_step, simp_all add: core_step_def poll_step_def)
  qed
qed simp

lemma thread_alone:
  assumes run: "RunServerThread ck (start_up C) (waits C) (view G (locals C)) = Some x"
    and C: "position C = Set_up"
  shows "comes_to ck G C (ends_as x)"
proof (cases "InitializeServerThread (start_up C)")
  case False
  with run have "x = Done (view G (locals C))" by (simp add: RunServerThread_def)
  then have "comes_to ck G (C\<lparr>position := Stopped\<rparr>) (ends_as x)"
    by (intro comes_to_stopped) auto
  with False C show ?thesis by - (rule comes_to_step, simp_all add: core_step_def set_up_step_def)
next
  case True
  obtain l T where l: "CreateListeningSocket (start_up C) (locals C) = (l, T)"
    by (cases "CreateListeningSocket (start_up C) (locals C)")
  show ?thesis
  proof (cases "has_events (start_up C) \<and> 0 \<le> l")
    case False
    with True run l have "x = Fault (Exit (-1))"
      by (auto simp: RunServerThread_def view_listen split: if_splits)
    with False True l C show ?thesis
      by - (rule comes_to_fault, auto simp: core_step_def set_up_step_def)
  next
    case ok: True
    let ?C = "C\<lparr>listener := l, locals := T, position := Poll\<rparr>"
    from ok True run l have "server_loop ck (listener ?C) (waits C) (view G (locals ?C)) = Some x"
      by (simp add: RunServerThread_def view_listen)
    then have "comes_to ck G ?C (ends_as x)" by (rule result_loop) simp_all
    with ok True l C show ?thesis
      by - (rule comes_to_step, simp_all add: core_step_def set_up_step_def)
  qed
qed

text \<open>What a thread does alone it can do in the process.\<close>

lemma process_runs_core:
  assumes "core_result ck G C r" and "r = Done (G', C')" and "i < started P"
    and "shared P = G" and "cores P i = C"
  shows "process_reachable ck core_limit P (P\<lparr>shared := G', cores := (cores P)(i := C')\<rparr>)"
  using assms
proof (induction arbitrary: P rule: core_result.induct)
  case (stopped C G)
  then have same: "P\<lparr>shared := G', cores := (cores P)(i := C')\<rparr> = P" by auto
  show ?case unfolding same by (rule process_reachable.here)
next
  case (fault G C f)
  then show ?case by simp
next
  case (step G C G1 C1 r)
  let ?P = "P\<lparr>shared := G1, cores := (cores P)(i := C1)\<rparr>"
  from step.hyps(1) step.prems have "process_step ck core_limit P ?P"
    by (intro process_step.work) simp_all
  then have "process_reachable ck core_limit P ?P"
    by (blast intro: process_reachable.intros)
  moreover have "process_reachable ck core_limit ?P (?P\<lparr>shared := G', cores := (cores ?P)(i := C')\<rparr>)"
    using step.prems by (intro step.IH) simp_all
  ultimately show ?case using process_reachable_trans by fastforce
qed

section \<open>Two threads of one process\<close>

text \<open>A thread with one client on socket 5 that sends one request, until the thread is told to end.\<close>

definition sample_core :: "send_message \<Rightarrow> (string \<times> string) list core" where
  "sample_core q =
     \<lparr>start_up = \<lparr>has_ctx = True, has_mctx = True, ep_desc = 1, listen_sock = 3, nonblock_ret = 0,
        bind_ret = 0, listen_ret = 0, has_events = True\<rparr>,
      waits = [(False, MEvents [\<lparr>ev_sock = 5, ev_in = True, ev_err = False\<rparr>]), (True, MEvents [])],
      listener = 0, todo = [], do_accept = False, position = Set_up,
      locals = \<lparr>errno = 0, kv = Null, num_pkts_recvd = 0, num_pkts_writ = 0,
        rx = (\<lambda>s. if s = 5 then [MData (encode_send q)] else []), tx = (\<lambda>s. [MAccept 50]), acc = [], out = (\<lambda>s. []),
        calls = []\<rparr>\<rparr>"

lemma sample_core_alone:
  assumes q: "wf_send q" "operation_of (operation q) = Some cmd" and h: "alist_distinct h"
    and "wide_values (map_of h)" and spec: "kv_spec (map_of h) cmd (key q) (msg_value q) = (ok, m', v)"
    and k: "0 \<le> schar (keepalive q)" and G: "store G = Live h"
  shows "\<exists>G' C' h'. core_result alist_cuckoo G (sample_core q) (Done (G', C')) \<and>
    store G' = Live h' \<and> alist_distinct h' \<and> map_of h' = m' \<and> position C' = Stopped \<and>
    out (locals C') 5 = encode_send (spec_reply ok v q)"
proof -
  let ?C = "sample_core q"
  let ?T = "call [Nonblock 3, Ctl_add 3] (view G (locals ?C))"
  have ne: "encode_send q \<noteq> []" by (simp add: encode_send_def)
  from request_served [OF ref.cuckoohash_map_axioms h _ q spec assms(4), of ?T 5
      "[MData (encode_send q)]" "[]" "[MAccept 50]" "[]"] q(1) G ne
  obtain h' T' where T': "HandleReadEvent alist_cuckoo 5 ?T = Some (Done (schar (keepalive q), T'))"
    "kv T' = Live h'" "alist_distinct h'" "map_of h' = m'" "out T' 5 = encode_send (spec_reply ok v q)"
    by (auto simp: sample_core_def call_def)
  let ?T' = "if schar (keepalive q) = 0 then CloseConnection 5 T' else T'"
  have closed: "kv ?T' = kv T'" "out ?T' = out T'" by (simp_all add: CloseConnection_def call_def)
  have "RunServerThread alist_cuckoo (start_up ?C) (waits ?C) (view G (locals ?C)) = Some (Done ?T')"
    using T'(1) k
    by (simp add: sample_core_def RunServerThread_def InitializeServerThread_def
        CreateListeningSocket_def handle_one_def call_def Let_def)
  from thread_alone [OF this] obtain r where
    "core_result alist_cuckoo G ?C r" "ends_as (Done ?T') r"
    by (auto simp: sample_core_def comes_to_def)
  then show ?thesis using T' closed core_result_stopped by fastforce
qed

definition put_request :: send_message where
  "put_request = \<lparr>operation = CHR 0x01, keepalive = CHR 0x01, key = replicate 16 CHR ''k'',
     msg_value = replicate 32 CHR ''v''\<rparr>"

definition get_request :: send_message where
  "get_request = \<lparr>operation = CHR 0x00, keepalive = CHR 0x01, key = replicate 16 CHR ''k'',
     msg_value = replicate 32 CHR 0x00\<rparr>"

definition sample_cores :: "nat \<Rightarrow> (string \<times> string) list core" where
  "sample_cores i = sample_core (if i = 0 then put_request else get_request)"

lemma sample_cores_start:
  "\<forall>i s. position (sample_cores i) = Set_up \<and> out (locals (sample_cores i)) s = []"
  by (simp add: sample_cores_def sample_core_def)

lemma both_started:
  "process_reachable ck 2 (process_new ck cs) ((process_new ck cs)\<lparr>started := 2\<rparr>)"
proof -
  let ?P = "process_new ck cs"
  have 1: "process_step ck 2 ?P (?P\<lparr>started := Suc (started ?P)\<rparr>)"
    by (rule process_step.start) (simp_all add: process_new_def)
  have 2: "process_step ck 2 (?P\<lparr>started := Suc (started ?P)\<rparr>) (?P\<lparr>started := Suc (Suc (started ?P))\<rparr>)"
    using process_step.start [of "?P\<lparr>started := Suc (started ?P)\<rparr>" 2 ck] by (simp add: process_new_def)
  have "process_reachable ck 2 ?P (?P\<lparr>started := Suc (Suc (started ?P))\<rparr>)"
    by (rule process_reachable.later [OF process_reachable.later [OF process_reachable.here 1] 2])
  then show ?thesis by (simp add: process_new_def numeral_2_eq_2)
qed

text \<open>One client puts a value, then the other gets it.\<close>

lemma sample_process:
  "\<exists>P. process_reachable alist_cuckoo 2 (process_new alist_cuckoo sample_cores) P \<and>
     \<not> destroyed P \<and> position (cores P 0) = Stopped \<and> position (cores P 1) = Stopped \<and>
     out (locals (cores P 1)) 5 = encode_send (get_request\<lparr>msg_value := replicate 32 CHR ''v''\<rparr>)"
proof -
  let ?P0 = "(process_new alist_cuckoo sample_cores)\<lparr>started := 2\<rparr>"
  let ?m = "[replicate 16 CHR ''k'' \<mapsto> replicate 32 CHR ''v''] :: string \<rightharpoonup> string"
  let ?v = "replicate 32 CHR ''v''"
  have ops: "operation_of CHR 0x01 = Some PUT" "operation_of CHR 0x00 = Some GET" "0 \<le> schar CHR 0x01"
    by (simp_all add: operation_of_def schar_def code_of_def)
  have s0: "store (shared ?P0) = Live []" by (simp add: process_new_def alist_cuckoo_def)
  have "\<exists>G C h. core_result alist_cuckoo (shared ?P0) (sample_core put_request) (Done (G, C)) \<and>
      store G = Live h \<and> alist_distinct h \<and> map_of h = ?m \<and> position C = Stopped \<and>
      out (locals C) 5 = encode_send (spec_reply True ?v put_request)"
    by (rule sample_core_alone [OF _ _ _ _ _ _ s0, where cmd = PUT])
      (simp_all add: put_request_def wf_send_def ops alist_distinct_def wide_values_def)
  then obtain G C h where C: "core_result alist_cuckoo (shared ?P0) (sample_core put_request) (Done (G, C))"
    "store G = Live h" "alist_distinct h" "map_of h = ?m" "position C = Stopped" by blast
  let ?P1 = "?P0\<lparr>shared := G, cores := (cores ?P0)(0 := C)\<rparr>"
  have "process_reachable alist_cuckoo 2 ?P0 ?P1"
    by (rule process_runs_core [OF C(1) refl]) (simp_all add: process_new_def sample_cores_def)
  with both_started have r1: "process_reachable alist_cuckoo 2 (process_new alist_cuckoo sample_cores) ?P1"
    by (rule process_reachable_trans [rotated])
  have "\<exists>G' C' h'. core_result alist_cuckoo G (sample_core get_request) (Done (G', C')) \<and>
      store G' = Live h' \<and> alist_distinct h' \<and> map_of h' = ?m \<and> position C' = Stopped \<and>
      out (locals C') 5 = encode_send (spec_reply True ?v get_request)"
    by (rule sample_core_alone [OF _ _ C(3) _ _ _ C(2), where cmd = GET])
      (simp_all add: get_request_def wf_send_def ops C(4) wide_values_def)
  then obtain G' C' where C': "core_result alist_cuckoo G (sample_core get_request) (Done (G', C'))"
    "position C' = Stopped" "out (locals C') 5 = encode_send (spec_reply True ?v get_request)" by blast
  let ?P2 = "?P1\<lparr>shared := G', cores := (cores ?P1)(1 := C')\<rparr>"
  have "process_reachable alist_cuckoo 2 ?P1 ?P2"
    by (rule process_runs_core [OF C'(1) refl]) (simp_all add: process_new_def sample_cores_def)
  with r1 have "process_reachable alist_cuckoo 2 (process_new alist_cuckoo sample_cores) ?P2"
    by (rule process_reachable_trans [rotated])
  moreover have "spec_reply True ?v get_request = get_request\<lparr>msg_value := ?v\<rparr>"
    by (simp add: spec_reply_def get_request_def)
  ultimately show ?thesis
    using C(5) C'(2,3) by (intro exI [of _ ?P2]) (simp add: process_new_def)
qed

section \<open>Properties\<close>

text \<open>C4. The threads of the mTCP server work on one store as if one after the other. Whatever their
  interleaving, there is one order of all requests of all clients such that the store is the finite
  map on which they ran in that order, until \<open>main\<close> destroys it after every thread has ended. What was
  sent over a socket, followed by the reply about to be written, is the replies of that map to the
  requests from this socket, one after the other: each of them at least in part, where a reply is cut
  short when a write fails with \<open>ENOTCONN\<close> (the client is gone), and exactly the replies when no write on
  this socket fails so, whatever happens on the others. Of a client whose reads only bring data or
  retries, the requests are what it sent, in order, followed by the request that a thread has just read and
  by what is not read yet.\<close>

theorem threads_serialise_requests:
  assumes "cuckoohash_map ck contents valid"
    and "process_reachable ck core_limit (process_new ck cs) P"
    and "\<forall>i s. position (cs i) = Set_up \<and> out (locals (cs i)) s = []"
  shows "\<exists>log. (\<forall>e \<in> set log. valid_request (snd e)) \<and>
    (if destroyed P
     then store (shared P) = Dangling \<and> (\<forall>i < core_limit. position (cores P i) = Stopped)
     else \<exists>h. store (shared P) = Live h \<and> contents h = fst (spec_run Map.empty (map snd log))) \<and>
    (\<forall>i s. \<exists>ps. out (locals (cores P i)) s @ unsent (position (cores P i)) s = concat ps \<and>
       list_all2 prefix ps (map encode_send (replies_to (i, s) Map.empty log)) \<and>
       (MWrite_err ENOTCONN \<notin> set (tx (locals (cs i)) s) \<longrightarrow>
          concat ps = wire (replies_to (i, s) Map.empty log))) \<and>
    (\<forall>i s. steady (rx (locals (cs i)) s) \<longrightarrow>
       data_of (rx (locals (cs i)) s) =
         wire (requests_of (i, s) log) @ in_hand (position (cores P i)) s @
         data_of (rx (locals (cores P i)) s))"
proof -
  from cuckoohash_map.serialised_reachable [OF assms] obtain log where
    inv: "serialised contents valid core_limit cs log P" by blast
  have "\<exists>ps. out (locals (cores P i)) s @ unsent (position (cores P i)) s = concat ps \<and>
      list_all2 prefix ps (map encode_send (replies_to (i, s) Map.empty log)) \<and>
      (MWrite_err ENOTCONN \<notin> set (tx (locals (cs i)) s) \<longrightarrow>
         concat ps = wire (replies_to (i, s) Map.empty log))" for i s
    using serialised_sent [OF inv, of i s] by (auto simp: delivered_def lossless_def)
  with inv show ?thesis
    by (intro exI [of _ log]) (auto simp: serialised_def core_follows_def)
qed

lemma threads_serialise_requests_witness:
  "\<exists>P log. process_reachable alist_cuckoo 2 (process_new alist_cuckoo sample_cores) P \<and>
     (\<exists>h. store (shared P) = Live h \<and> map_of h = fst (spec_run Map.empty (map snd log))) \<and>
     wire (replies_to (1 :: nat, 5 :: int) Map.empty log) =
       encode_send (get_request\<lparr>msg_value := replicate 32 CHR ''v''\<rparr>)"
proof -
  from sample_process obtain P where
    P: "process_reachable alist_cuckoo 2 (process_new alist_cuckoo sample_cores) P" "\<not> destroyed P"
      "position (cores P 1) = Stopped"
      "out (locals (cores P 1)) 5 = encode_send (get_request\<lparr>msg_value := replicate 32 CHR ''v''\<rparr>)"
    by blast
  from threads_serialise_requests [OF ref.cuckoohash_map_axioms P(1) sample_cores_start] obtain log where
    "if destroyed P then store (shared P) = Dangling \<and> (\<forall>i < 2. position (cores P i) = Stopped)
     else \<exists>h. store (shared P) = Live h \<and> map_of h = fst (spec_run Map.empty (map snd log))"
    "\<forall>i s. \<exists>ps. out (locals (cores P i)) s @ unsent (position (cores P i)) s = concat ps \<and>
       list_all2 prefix ps (map encode_send (replies_to (i, s) Map.empty log)) \<and>
       (MWrite_err ENOTCONN \<notin> set (tx (locals (sample_cores i)) s) \<longrightarrow>
          concat ps = wire (replies_to (i, s) Map.empty log))" by blast
  moreover have "MWrite_err ENOTCONN \<notin> set (tx (locals (sample_cores 1)) 5)"
    by (simp add: sample_cores_def sample_core_def)
  ultimately have "\<exists>h. store (shared P) = Live h \<and> map_of h = fst (spec_run Map.empty (map snd log))"
    "out (locals (cores P 1)) 5 @ unsent (position (cores P 1)) 5 =
      wire (replies_to (1 :: nat, 5 :: int) Map.empty log)" using P(2) by (simp, metis)
  with P show ?thesis by (metis append_Nil2 unsent.simps(10))
qed

text \<open>C6. No thread uses the store before it is created or after it is destroyed, and none reads past
  its buffer, also after clients were lost in the middle of a reply: whenever a thread of the process
  has a faulty next step, the process exits there.\<close>

theorem process_faults_are_exits:
  assumes "cuckoohash_map ck contents valid"
    and "process_reachable ck core_limit (process_new ck cs) P"
    and "\<forall>i s. position (cs i) = Set_up \<and> out (locals (cs i)) s = []"
    and "i < started P" and "core_step ck (shared P) (cores P i) = Some (Fault f)"
  shows "\<exists>n. f = Exit n"
proof -
  from cuckoohash_map.serialised_reachable [OF assms(1-3)] obtain log where
    inv: "serialised contents valid core_limit cs log P" by blast
  have "position (cores P i) \<noteq> Stopped" using assms(5) by (auto simp: core_step_def)
  from running_store [OF inv assms(4) this] inv obtain h where "store (shared P) = Live h"
    by (auto simp: serialised_def)
  moreover have "whole_request (position (cores P i))"
    using inv by (simp add: serialised_def core_follows_def)
  ultimately show ?thesis using core_fault [OF assms(5)] by blast
qed

lemma process_faults_are_exits_witness:
  "\<exists>n. Exit (-1) = Exit n \<and>
     core_step alist_cuckoo (shared (process_new alist_cuckoo sample_cores))
       (sample_core put_request\<lparr>start_up := (start_up (sample_core put_request))\<lparr>has_events := False\<rparr>\<rparr>) =
     Some (Fault (Exit (-1)))"
proof -
  let ?C = "(sample_core put_request)\<lparr>start_up := (start_up (sample_core put_request))\<lparr>has_events := False\<rparr>\<rparr>"
  let ?P = "process_new alist_cuckoo (\<lambda>i. ?C)"
  have r: "process_reachable alist_cuckoo 2 ?P (?P\<lparr>started := 2\<rparr>)" by (rule both_started)
  have fresh: "\<forall>(i :: nat) s. position ?C = Set_up \<and> out (locals ?C) s = []"
    by (simp add: sample_core_def)
  have f: "core_step alist_cuckoo (shared (?P\<lparr>started := 2\<rparr>)) (cores (?P\<lparr>started := 2\<rparr>) 0) =
      Some (Fault (Exit (-1)))"
    by (simp add: core_step_def process_new_def sample_core_def set_up_step_def InitializeServerThread_def)
  have "\<exists>n. Exit (-1) = Exit n"
    by (rule process_faults_are_exits [OF ref.cuckoohash_map_axioms r fresh _ f])
      (simp add: process_new_def)
  with f show ?thesis by (simp add: process_new_def)
qed

text \<open>The counters lose packets: whenever two threads are about to count a request, the process can
  go on so that both have counted it and the counter has grown by one.\<close>

theorem counter_loses_update:
  assumes "i < started P" and "j < started P" and "i \<noteq> j"
    and "position (cores P i) = Received s q" and "position (cores P j) = Received s' q'"
  shows "\<exists>P'. process_reachable ck core_limit P P' \<and>
    position (cores P' i) = Counted s q \<and> position (cores P' j) = Counted s' q' \<and>
    pkts_recvd (shared P') = pkts_recvd (shared P) + 1"
proof -
  let ?n = "pkts_recvd (shared P)"
  let ?to = "\<lambda>P i n p. P\<lparr>shared := (shared P)\<lparr>pkts_recvd := n\<rparr>,
      cores := (cores P)(i := (cores P i)\<lparr>position := p\<rparr>)\<rparr>"
  let ?P1 = "?to P i ?n (Counting_recvd s q ?n)"
  let ?P2 = "?to ?P1 j ?n (Counting_recvd s' q' ?n)"
  let ?P3 = "?to ?P2 i (?n + 1) (Counted s q)"
  let ?P4 = "?to ?P3 j (?n + 1) (Counted s' q')"
  have 1: "process_step ck core_limit P ?P1"
    by (rule process_step.work) (use assms in \<open>simp_all add: core_step_def\<close>)
  have 2: "process_step ck core_limit ?P1 ?P2"
    by (rule process_step.work) (use assms in \<open>simp_all add: core_step_def\<close>)
  have 3: "process_step ck core_limit ?P2 ?P3"
    by (rule process_step.work) (use assms in \<open>simp_all add: core_step_def\<close>)
  have 4: "process_step ck core_limit ?P3 ?P4"
    by (rule process_step.work) (use assms in \<open>simp_all add: core_step_def\<close>)
  have "process_reachable ck core_limit P ?P4"
    by (rule process_reachable.later [OF process_reachable.later [OF process_reachable.later
          [OF process_reachable.later [OF process_reachable.here 1] 2] 3] 4])
  then show ?thesis using assms(3) by (intro exI [of _ ?P4]) simp
qed

lemma counter_loses_update_witness:
  "\<exists>P'. process_reachable alist_cuckoo 2
      \<lparr>shared = \<lparr>store = Live [], pkts_recvd = 0, pkts_writ = 0\<rparr>,
       cores = (\<lambda>i. (sample_core put_request)\<lparr>position := Received 5 (encode_send put_request)\<rparr>),
       started = 2, joined = 0, destroyed = False\<rparr> P' \<and>
     position (cores P' 0) = Counted 5 (encode_send put_request) \<and>
     position (cores P' 1) = Counted 5 (encode_send put_request) \<and> pkts_recvd (shared P') = 1"
  using counter_loses_update [of 0 "\<lparr>shared = \<lparr>store = Live [], pkts_recvd = 0, pkts_writ = 0\<rparr>,
       cores = (\<lambda>i. (sample_core put_request)\<lparr>position := Received 5 (encode_send put_request)\<rparr>),
       started = 2, joined = 0, destroyed = False\<rparr>" 1 5 "encode_send put_request" 5
       "encode_send put_request" alist_cuckoo 2]
  by simp

end
