(* ===== verification/LinkedList.thy ===== *)
theory LinkedList
  imports Prelude
begin

text \<open>
  \<open>server-5204/util/list.h\<close>: a doubly linked list threaded through the \<open>prev\<close> and \<open>next\<close> fields of
  the user's own nodes. The nodes live in a store from addresses to nodes, because every operation
  writes through the pointers of the neighbours; a NULL pointer is \<^const>\<open>None\<close>. The size is an
  \<open>int\<close> of 32 bits: counting past its ends is undefined behaviour, a fault. The list is shown to
  implement a sequence of addresses.
\<close>

section \<open>State\<close>

type_synonym ptr = "nat option"

record node =
  prev :: ptr
  nxt :: ptr

type_synonym node_heap = "nat \<Rightarrow> node option"

record LinkedList =
  lsize :: int
  lhead :: ptr
  ltail :: ptr

text \<open>Reading the node behind a pointer, and writing one of its fields.\<close>

definition deref :: "node_heap \<Rightarrow> ptr \<Rightarrow> (nat \<times> node) outcome" where
  "deref H p =
     (case p of
        None \<Rightarrow> Fault Null_deref
      | Some a \<Rightarrow> (case H a of None \<Rightarrow> Fault Use_after_free | Some n \<Rightarrow> Done (a, n)))"

definition set_next :: "node_heap \<Rightarrow> ptr \<Rightarrow> ptr \<Rightarrow> node_heap outcome" where
  "set_next H p q =
     (case deref H p of Fault f \<Rightarrow> Fault f | Done (a, n) \<Rightarrow> Done (H(a \<mapsto> n\<lparr>nxt := q\<rparr>)))"

definition set_prev :: "node_heap \<Rightarrow> ptr \<Rightarrow> ptr \<Rightarrow> node_heap outcome" where
  "set_prev H p q =
     (case deref H p of Fault f \<Rightarrow> Fault f | Done (a, n) \<Rightarrow> Done (H(a \<mapsto> n\<lparr>prev := q\<rparr>)))"

section \<open>Operations\<close>

definition LinkedList_new :: LinkedList where
  "LinkedList_new = \<lparr>lsize = 0, lhead = None, ltail = None\<rparr>"

definition iterator :: "LinkedList \<Rightarrow> ptr" where
  "iterator L = lhead L"

text \<open>\<open>Iterator::next\<close>: the node the iterator stood on, and the iterator after it.\<close>

definition iterator_next :: "node_heap \<Rightarrow> ptr \<Rightarrow> (ptr \<times> ptr) outcome" where
  "iterator_next H p =
     (if p = None then Done (None, None)
      else case deref H p of Fault f \<Rightarrow> Fault f | Done (a, n) \<Rightarrow> Done (p, nxt n))"

definition list_empty :: "LinkedList \<Rightarrow> bool" where
  "list_empty L \<longleftrightarrow> lsize L = 0"

definition unlink_prev :: "node_heap \<Rightarrow> nat \<Rightarrow> node_heap outcome" where
  "unlink_prev H t =
     (case deref H (Some t) of
        Fault f \<Rightarrow> Fault f
      | Done (a, n) \<Rightarrow> if prev n \<noteq> None then set_next H (prev n) (nxt n) else Done H)"

definition unlink_next :: "node_heap \<Rightarrow> nat \<Rightarrow> node_heap outcome" where
  "unlink_next H t =
     (case deref H (Some t) of
        Fault f \<Rightarrow> Fault f
      | Done (a, n) \<Rightarrow> if nxt n \<noteq> None then set_prev H (nxt n) (prev n) else Done H)"

definition list_remove ::
  "node_heap \<Rightarrow> LinkedList \<Rightarrow> ptr \<Rightarrow> (node_heap \<times> LinkedList) outcome" where
  "list_remove H L p =
     (if lsize L = INT_MIN then Fault Int_overflow
      else case p of
        None \<Rightarrow> Fault Null_deref
      | Some t \<Rightarrow>
          (case unlink_prev H t of
             Fault f \<Rightarrow> Fault f
           | Done H1 \<Rightarrow>
               (case unlink_next H1 t of
                  Fault f \<Rightarrow> Fault f
                | Done H2 \<Rightarrow>
                    (case deref H2 p of
                       Fault f \<Rightarrow> Fault f
                     | Done (a, n) \<Rightarrow>
                         Done (H2, \<lparr>lsize = lsize L - 1,
                                    lhead = (if lhead L = p then nxt n else lhead L),
                                    ltail = (if ltail L = p then prev n else ltail L)\<rparr>)))))"

definition list_pop_front ::
  "node_heap \<Rightarrow> LinkedList \<Rightarrow> (ptr \<times> node_heap \<times> LinkedList) outcome" where
  "list_pop_front H L =
     (let t = lhead L in
      case list_remove H L t of Fault f \<Rightarrow> Fault f | Done (H', L') \<Rightarrow> Done (t, H', L'))"

definition list_push_back ::
  "node_heap \<Rightarrow> LinkedList \<Rightarrow> ptr \<Rightarrow> (node_heap \<times> LinkedList) outcome" where
  "list_push_back H L t =
     (if lsize L = INT_MAX then Fault Int_overflow
      else case set_prev H t (ltail L) of
        Fault f \<Rightarrow> Fault f
      | Done H1 \<Rightarrow>
          (case set_next H1 t None of
             Fault f \<Rightarrow> Fault f
           | Done H2 \<Rightarrow>
               if ltail L \<noteq> None
               then (case set_next H2 (ltail L) t of
                       Fault f \<Rightarrow> Fault f
                     | Done H3 \<Rightarrow> Done (H3, L\<lparr>lsize := lsize L + 1, ltail := t\<rparr>))
               else Done (H2, L\<lparr>lsize := lsize L + 1, lhead := t, ltail := t\<rparr>)))"

text \<open>A walk over the list with an iterator, at most \<open>fuel\<close> steps.\<close>

fun walk :: "nat \<Rightarrow> node_heap \<Rightarrow> ptr \<Rightarrow> nat list outcome" where
  "walk 0 H p = Done []"
| "walk (Suc fuel) H p =
     (case iterator_next H p of
        Fault f \<Rightarrow> Fault f
      | Done (None, q) \<Rightarrow> Done []
      | Done (Some a, q) \<Rightarrow>
          (case walk fuel H q of Fault f \<Rightarrow> Fault f | Done as \<Rightarrow> Done (a # as)))"

section \<open>The sequence a list stands for\<close>

definition first_of :: "nat list \<Rightarrow> ptr \<Rightarrow> ptr" where
  "first_of xs q = (case xs of [] \<Rightarrow> q | x # _ \<Rightarrow> Some x)"

definition last_of :: "ptr \<Rightarrow> nat list \<Rightarrow> ptr" where
  "last_of p xs = (if xs = [] then p else Some (last xs))"

text \<open>\<open>chain H p xs q\<close>: the nodes \<open>xs\<close> follow each other, entered from \<open>p\<close> and left to \<open>q\<close>.\<close>

fun chain :: "node_heap \<Rightarrow> ptr \<Rightarrow> nat list \<Rightarrow> ptr \<Rightarrow> bool" where
  "chain H p [] q \<longleftrightarrow> True"
| "chain H p (x # xs) q \<longleftrightarrow>
     H x = Some \<lparr>prev = p, nxt = first_of xs q\<rparr> \<and> chain H (Some x) xs q"

definition represents :: "node_heap \<Rightarrow> LinkedList \<Rightarrow> nat list \<Rightarrow> bool" where
  "represents H L xs \<longleftrightarrow>
     distinct xs \<and> chain H None xs None \<and>
     L = \<lparr>lsize = int (length xs), lhead = first_of xs None, ltail = last_of None xs\<rparr>"

lemma first_of_simps [simp]:
  "first_of [] q = q" "first_of (x # xs) q = Some x"
  "first_of (xs @ ys) q = first_of xs (first_of ys q)"
  by (simp_all add: first_of_def split: list.split)

lemma last_of_simps [simp]:
  "last_of p [] = p" "last_of p (x # xs) = last_of (Some x) xs"
  "last_of p (xs @ ys) = last_of (last_of p xs) ys"
  by (simp_all add: last_of_def)

lemma chain_append [simp]:
  "chain H p (xs @ ys) q \<longleftrightarrow> chain H p xs (first_of ys q) \<and> chain H (last_of p xs) ys q"
  by (induction xs arbitrary: p) auto

lemma chain_frame [simp]: "a \<notin> set xs \<Longrightarrow> chain (H(a \<mapsto> n)) p xs q = chain H p xs q"
  by (induction xs arbitrary: p) auto

lemma set_next_eq [simp]:
  "H a = Some n \<Longrightarrow> set_next H (Some a) q = Done (H(a \<mapsto> n\<lparr>nxt := q\<rparr>))"
  by (simp add: set_next_def deref_def)

lemma set_prev_eq [simp]:
  "H a = Some n \<Longrightarrow> set_prev H (Some a) q = Done (H(a \<mapsto> n\<lparr>prev := q\<rparr>))"
  by (simp add: set_prev_def deref_def)

lemma node_rewritten [simp]: "(n::node)\<lparr>prev := p, nxt := q\<rparr> = \<lparr>prev = p, nxt = q\<rparr>"
  by (cases n) simp

section \<open>Every operation on a list that stands for a sequence\<close>

lemma unlink_prev_spec:
  assumes "chain H None (xs @ t # ys) None" and "distinct (xs @ t # ys)"
  shows "\<exists>H1. unlink_prev H t = Done H1 \<and> chain H1 None xs (first_of ys None) \<and>
           chain H1 (Some t) ys None \<and> (\<forall>a. a \<notin> set xs \<longrightarrow> H1 a = H a)"
proof (cases xs rule: rev_cases)
  case Nil
  with assms show ?thesis by (auto simp: unlink_prev_def deref_def)
next
  case (snoc zs a)
  with assms show ?thesis by (auto simp: unlink_prev_def deref_def [of H "Some t"])
qed

lemma unlink_next_spec:
  assumes "H t = Some \<lparr>prev = p, nxt = first_of ys None\<rparr>"
    and "chain H (Some t) ys None" and "distinct (t # ys)"
  shows "\<exists>H1. unlink_next H t = Done H1 \<and> chain H1 p ys None \<and>
           (\<forall>a. a \<notin> set ys \<longrightarrow> H1 a = H a)"
proof (cases ys)
  case Nil
  with assms show ?thesis by (auto simp: unlink_next_def deref_def)
next
  case (Cons b zs)
  with assms show ?thesis by (auto simp: unlink_next_def deref_def [of H "Some t"])
qed

lemma chain_cong: "(\<And>a. a \<in> set xs \<Longrightarrow> H a = H' a) \<Longrightarrow> chain H p xs q = chain H' p xs q"
  by (induction xs arbitrary: p) auto

lemma first_of_eq_Some: "t \<notin> set xs \<Longrightarrow> first_of xs (Some t) = Some t \<longleftrightarrow> xs = []"
  by (auto simp: first_of_def split: list.splits)

lemma last_of_eq_Some: "t \<notin> set xs \<Longrightarrow> last_of (Some t) xs = Some t \<longleftrightarrow> xs = []"
  by (auto simp: last_of_def)

lemma last_of_other: "xs \<noteq> [] \<Longrightarrow> last_of p xs = last_of q xs"
  by (simp add: last_of_def)

lemma first_of_other: "xs \<noteq> [] \<Longrightarrow> first_of xs p = first_of xs q"
  by (cases xs) simp_all

text \<open>A node anywhere in the list is taken out; its own two pointers stay as they were.\<close>

lemma list_remove_spec:
  assumes "represents H L (xs @ t # ys)"
  obtains H' L' where "list_remove H L (Some t) = Done (H', L')" "represents H' L' (xs @ ys)"
    "H' t = H t" "\<And>a. a \<notin> set (xs @ t # ys) \<Longrightarrow> H' a = H a"
proof -
  from assms have d: "distinct (xs @ t # ys)" and c: "chain H None (xs @ t # ys) None"
    and L: "L = \<lparr>lsize = int (length (xs @ t # ys)), lhead = first_of xs (Some t),
      ltail = last_of (Some t) ys\<rparr>"
    by (simp_all add: represents_def)
  from unlink_prev_spec [OF c d] obtain H1 where H1: "unlink_prev H t = Done H1"
    "chain H1 None xs (first_of ys None)" "chain H1 (Some t) ys None"
    "\<And>a. a \<notin> set xs \<Longrightarrow> H1 a = H a" by blast
  from c d H1(4) [of t]
  have t1: "H1 t = Some \<lparr>prev = last_of None xs, nxt = first_of ys None\<rparr>" by simp
  have dt: "distinct (t # ys)" using d by simp
  from unlink_next_spec [OF t1 H1(3) dt] obtain H2 where H2: "unlink_next H1 t = Done H2"
    "chain H2 (last_of None xs) ys None" "\<And>a. a \<notin> set ys \<Longrightarrow> H2 a = H1 a" by blast
  from t1 dt H2(3) [of t]
  have t2: "H2 t = Some \<lparr>prev = last_of None xs, nxt = first_of ys None\<rparr>" by simp
  define L' where "L' = \<lparr>lsize = int (length (xs @ ys)), lhead = first_of (xs @ ys) None,
    ltail = last_of None (xs @ ys)\<rparr>"
  have hd: "(if lhead L = Some t then first_of ys None else lhead L) = first_of (xs @ ys) None"
    using d by (auto simp: L first_of_eq_Some intro: first_of_other)
  have tl: "(if ltail L = Some t then last_of None xs else ltail L) = last_of None (xs @ ys)"
    using d by (auto simp: L last_of_eq_Some intro: last_of_other)
  have sz: "lsize L - 1 = int (length (xs @ ys))" by (simp add: L)
  then have ov: "lsize L \<noteq> INT_MIN" by linarith
  have "list_remove H L (Some t) = Done (H2, \<lparr>lsize = lsize L - 1,
      lhead = (if lhead L = Some t then first_of ys None else lhead L),
      ltail = (if ltail L = Some t then last_of None xs else ltail L)\<rparr>)"
    using ov by (simp add: list_remove_def deref_def H1(1) H2(1) t2)
  then have step: "list_remove H L (Some t) = Done (H2, L')" unfolding L'_def hd tl sz .
  have "chain H2 None xs (first_of ys None) = chain H1 None xs (first_of ys None)"
    by (rule chain_cong) (use d H2(3) in auto)
  with H1(2) H2(2) d have "represents H2 L' (xs @ ys)" by (simp add: represents_def L'_def)
  moreover from H1(4) H2(3) d have "H2 t = H t" "\<And>a. a \<notin> set (xs @ t # ys) \<Longrightarrow> H2 a = H a"
    by simp_all
  ultimately show ?thesis using step that by blast
qed

lemma list_pop_front_spec:
  assumes "represents H L (t # ys)"
  obtains H' L' where "list_pop_front H L = Done (Some t, H', L')" "represents H' L' ys"
    "H' t = H t" "\<And>a. a \<notin> set (t # ys) \<Longrightarrow> H' a = H a"
proof -
  from assms have h: "lhead L = Some t" by (simp add: represents_def)
  from assms have "represents H L ([] @ t # ys)" by simp
  from list_remove_spec [OF this] obtain H' L' where
    "list_remove H L (Some t) = Done (H', L')" "represents H' L' ys" "H' t = H t"
    "\<And>a. a \<notin> set (t # ys) \<Longrightarrow> H' a = H a" by (metis append_Nil)
  with h show ?thesis using that by (simp add: list_pop_front_def)
qed

lemma list_pop_front_empty: "represents H L [] \<Longrightarrow> list_pop_front H L = Fault Null_deref"
  by (simp add: represents_def list_pop_front_def list_remove_def)

lemma list_push_back_spec:
  assumes r: "represents H L xs" and t: "t \<notin> set xs" "H t = Some n"
    and room: "int (length xs) < INT_MAX"
  obtains H' L' where "list_push_back H L (Some t) = Done (H', L')" "represents H' L' (xs @ [t])"
    "\<And>a. a \<notin> set (t # xs) \<Longrightarrow> H' a = H a"
proof (cases xs rule: rev_cases)
  case Nil
  let ?H = "H(t \<mapsto> \<lparr>prev = None, nxt = None\<rparr>)"
  have "list_push_back H L (Some t) = Done (?H, \<lparr>lsize = 1, lhead = Some t, ltail = Some t\<rparr>)"
    using r t Nil by (simp add: list_push_back_def represents_def)
  moreover have "represents ?H \<lparr>lsize = 1, lhead = Some t, ltail = Some t\<rparr> (xs @ [t])"
    using Nil by (simp add: represents_def)
  ultimately show ?thesis using that by (simp add: Nil)
next
  case (snoc zs a)
  let ?H = "H(t \<mapsto> \<lparr>prev = Some a, nxt = None\<rparr>, a \<mapsto> \<lparr>prev = last_of None zs, nxt = Some t\<rparr>)"
  let ?L = "\<lparr>lsize = int (length (xs @ [t])), lhead = lhead L, ltail = Some t\<rparr>"
  have "list_push_back H L (Some t) = Done (?H, ?L)"
    using r t snoc room by (auto simp: list_push_back_def represents_def)
  moreover have "represents ?H ?L (xs @ [t])"
    using r t snoc by (auto simp: represents_def)
  ultimately show ?thesis using that snoc by simp
qed

text \<open>An iterator gives the sequence and then NULL.\<close>

lemma walk_chain: "chain H p xs None \<Longrightarrow> length xs < fuel \<Longrightarrow> walk fuel H (first_of xs None) = Done xs"
proof (induction xs arbitrary: p fuel)
  case Nil
  then show ?case by (cases fuel) (simp_all add: iterator_next_def)
next
  case (Cons x xs)
  then obtain k where k: "fuel = Suc k" by (cases fuel) simp_all
  with Cons.prems Cons.IH [of "Some x" k] show ?case by (simp add: iterator_next_def deref_def)
qed

section \<open>Runs of operations\<close>

datatype list_op = Push_back nat | Pop_front | Remove nat

text \<open>One call on the code's list, with the pointer it returns (NULL where it returns nothing), and
  the same call on a sequence; \<^const>\<open>None\<close> where the caller breaks the contract.\<close>

definition list_step ::
  "list_op \<Rightarrow> node_heap \<times> LinkedList \<Rightarrow> (ptr \<times> node_heap \<times> LinkedList) outcome" where
  "list_step op s =
     (case op of
        Push_back t \<Rightarrow>
          (case list_push_back (fst s) (snd s) (Some t) of
             Fault f \<Rightarrow> Fault f | Done s' \<Rightarrow> Done (None, s'))
      | Pop_front \<Rightarrow> list_pop_front (fst s) (snd s)
      | Remove t \<Rightarrow>
          (case list_remove (fst s) (snd s) (Some t) of
             Fault f \<Rightarrow> Fault f | Done s' \<Rightarrow> Done (None, s')))"

definition seq_step :: "list_op \<Rightarrow> nat list \<Rightarrow> (ptr \<times> nat list) option" where
  "seq_step op xs =
     (case op of
        Push_back t \<Rightarrow>
          if t \<in> set xs \<or> INT_MAX \<le> int (length xs) then None else Some (None, xs @ [t])
      | Pop_front \<Rightarrow> (case xs of [] \<Rightarrow> None | x # ys \<Rightarrow> Some (Some x, ys))
      | Remove t \<Rightarrow> if t \<in> set xs then Some (None, remove1 t xs) else None)"

fun list_run ::
  "list_op list \<Rightarrow> node_heap \<times> LinkedList \<Rightarrow> (ptr list \<times> node_heap \<times> LinkedList) outcome" where
  "list_run [] s = Done ([], s)"
| "list_run (op # ops) s =
     (case list_step op s of
        Fault f \<Rightarrow> Fault f
      | Done (r, s') \<Rightarrow>
          (case list_run ops s' of Fault f \<Rightarrow> Fault f | Done (rs, s'') \<Rightarrow> Done (r # rs, s'')))"

fun seq_run :: "list_op list \<Rightarrow> nat list \<Rightarrow> (ptr list \<times> nat list) option" where
  "seq_run [] xs = Some ([], xs)"
| "seq_run (op # ops) xs =
     (case seq_step op xs of
        None \<Rightarrow> None
      | Some (r, ys) \<Rightarrow>
          (case seq_run ops ys of None \<Rightarrow> None | Some (rs, zs) \<Rightarrow> Some (r # rs, zs)))"

fun pushed :: "list_op list \<Rightarrow> nat set" where
  "pushed [] = {}"
| "pushed (Push_back t # ops) = insert t (pushed ops)"
| "pushed (op # ops) = pushed ops"

lemma represents_dom: "represents H L xs \<Longrightarrow> set xs \<subseteq> dom H"
proof -
  have "chain H p xs q \<Longrightarrow> set xs \<subseteq> dom H" for p q by (induction xs arbitrary: p) auto
  then show "represents H L xs \<Longrightarrow> set xs \<subseteq> dom H" by (auto simp: represents_def)
qed

lemma represents_distinct: "represents H L xs \<Longrightarrow> distinct xs"
  by (simp add: represents_def)

lemma dom_kept:
  assumes "\<And>a. a \<notin> A \<Longrightarrow> H' a = H a" and "A \<subseteq> dom H'"
  shows "dom H \<subseteq> dom H'"
proof
  fix a assume "a \<in> dom H"
  with assms show "a \<in> dom H'" by (cases "a \<in> A") auto
qed

lemma list_step_refines:
  assumes r: "represents H L xs" and s: "seq_step op xs = Some (r, ys)"
    and p: "pushed [op] \<subseteq> dom H"
  obtains H' L' where "list_step op (H, L) = Done (r, H', L')" "represents H' L' ys"
    "dom H \<subseteq> dom H'"
proof (cases op)
  case (Push_back t)
  with s p obtain n where t: "t \<notin> set xs" "H t = Some n" "r = None" "ys = xs @ [t]"
    and room: "int (length xs) < INT_MAX"
    by (auto simp: seq_step_def split: if_splits)
  from list_push_back_spec [OF r t(1,2) room] obtain H' L' where
    c: "list_push_back H L (Some t) = Done (H', L')" "represents H' L' ys"
    "\<And>a. a \<notin> set (t # xs) \<Longrightarrow> H' a = H a" using t by blast
  from represents_dom [OF c(2)] t have "set (t # xs) \<subseteq> dom H'" by simp
  with c(3) have "dom H \<subseteq> dom H'" by (rule dom_kept)
  with c Push_back t show ?thesis using that by (simp add: list_step_def)
next
  case Pop_front
  with s obtain t where t: "xs = t # ys" "r = Some t"
    by (auto simp: seq_step_def split: list.splits)
  from list_pop_front_spec [OF r [unfolded t]] obtain H' L' where
    c: "list_pop_front H L = Done (Some t, H', L')" "represents H' L' ys" "H' t = H t"
    "\<And>a. a \<notin> set (t # ys) \<Longrightarrow> H' a = H a" by blast
  have "a \<notin> set ys \<Longrightarrow> H' a = H a" for a using c(3,4) by (cases "a = t") auto
  then have "dom H \<subseteq> dom H'" using represents_dom [OF c(2)] by (rule dom_kept)
  with c Pop_front t show ?thesis using that by (simp add: list_step_def)
next
  case (Remove t)
  with s have t: "t \<in> set xs" "r = None" "ys = remove1 t xs"
    by (auto simp: seq_step_def split: if_splits)
  from split_list [OF t(1)] obtain us vs where xs: "xs = us @ t # vs" by blast
  with represents_distinct [OF r] have "t \<notin> set us" by simp
  with t xs have ys: "ys = us @ vs" by (simp add: remove1_append)
  from list_remove_spec [OF r [unfolded xs]] obtain H' L' where
    c: "list_remove H L (Some t) = Done (H', L')" "represents H' L' ys" "H' t = H t"
    "\<And>a. a \<notin> set xs \<Longrightarrow> H' a = H a" using ys xs by blast
  have "a \<notin> set ys \<Longrightarrow> H' a = H a" for a using c(3,4) ys xs by (cases "a = t") auto
  then have "dom H \<subseteq> dom H'" using represents_dom [OF c(2)] by (rule dom_kept)
  with c Remove t show ?thesis using that by (simp add: list_step_def)
qed

lemma pushed_Cons: "pushed (op # ops) = pushed [op] \<union> pushed ops"
  by (cases op) simp_all

lemma list_run_refines:
  assumes "represents H L xs" and "seq_run ops xs = Some (rs, ys)" and "pushed ops \<subseteq> dom H"
  obtains H' L' where "list_run ops (H, L) = Done (rs, H', L')" "represents H' L' ys"
proof -
  have "\<exists>H' L'. list_run ops (H, L) = Done (rs, H', L') \<and> represents H' L' ys"
    using assms
  proof (induction ops arbitrary: H L xs rs)
    case (Cons op ops)
    from Cons.prems(2) obtain r zs qs where s: "seq_step op xs = Some (r, zs)"
      "seq_run ops zs = Some (qs, ys)" "rs = r # qs" by (auto split: option.splits prod.splits)
    from Cons.prems(3) have p: "pushed [op] \<subseteq> dom H" "pushed ops \<subseteq> dom H"
      by (auto simp: pushed_Cons [of op ops])
    from list_step_refines [OF Cons.prems(1) s(1) p(1)] obtain H1 L1 where
      c: "list_step op (H, L) = Done (r, H1, L1)" "represents H1 L1 zs" "dom H \<subseteq> dom H1" by blast
    from p(2) c(3) have "pushed ops \<subseteq> dom H1" by blast
    from Cons.IH [OF c(2) s(2) this] c(1) s(3) show ?case by auto
  qed simp
  then show ?thesis using that by blast
qed

section \<open>Properties\<close>

text \<open>C22. The list implements a sequence: any sequence of push_back, pop_front and remove (of a node
  anywhere in it) in which no node is pushed while it is in the list or the list has 2^31 - 1 nodes (its
  size is a 32-bit \<open>int\<close>), none is removed that is not in it and none is popped from an empty list,
  runs without a fault, returns the nodes the sequence returns, and ends with a list whose size,
  \<open>empty()\<close> and iterator are those of the sequence.\<close>

theorem linked_list_refines_sequence:
  assumes "seq_run ops [] = Some (rs, ys)" and "pushed ops \<subseteq> dom H"
  shows "\<exists>H' L'. list_run ops (H, LinkedList_new) = Done (rs, H', L') \<and>
           lsize L' = int (length ys) \<and> list_empty L' = (ys = []) \<and>
           walk (Suc (length ys)) H' (iterator L') = Done ys"
proof -
  have "represents H LinkedList_new []" by (simp add: represents_def LinkedList_new_def)
  from list_run_refines [OF this assms] obtain H' L' where
    c: "list_run ops (H, LinkedList_new) = Done (rs, H', L')" "represents H' L' ys" by blast
  from c(2) have "walk (Suc (length ys)) H' (iterator L') = Done ys"
    using walk_chain [of H' None ys "Suc (length ys)"] by (simp add: represents_def iterator_def)
  with c show ?thesis by (auto simp: represents_def list_empty_def)
qed

lemma linked_list_refines_sequence_witness:
  "\<exists>H' L'. list_run [Push_back 1, Push_back 2, Push_back 3, Remove 2, Pop_front, Push_back 1]
             (\<lambda>a. Some \<lparr>prev = None, nxt = None\<rparr>, LinkedList_new) =
             Done ([None, None, None, None, Some 1, None], H', L') \<and>
           lsize L' = 2 \<and> list_empty L' = False \<and> walk 3 H' (iterator L') = Done [3, 1]"
  using linked_list_refines_sequence
    [of "[Push_back 1, Push_back 2, Push_back 3, Remove 2, Pop_front, Push_back 1]"
       "[None, None, None, None, Some 1, None]" "[3, 1]" "\<lambda>a. Some \<lparr>prev = None, nxt = None\<rparr>"]
  by (simp add: seq_step_def dom_def numeral_3_eq_3)

text \<open>What the contract excludes: pushing onto a list of 2^31 - 1 nodes overflows \<open>size\<close>, popping an
  empty list dereferences NULL, and a node that is removed twice (its own pointers are not cleared) is
  counted twice.\<close>

lemma push_back_full: "lsize L = INT_MAX \<Longrightarrow> list_push_back H L t = Fault Int_overflow"
  by (simp add: list_push_back_def)

lemma remove_twice:
  "case list_run [Push_back 1, Push_back 2, Push_back 3, Remove 2, Remove 2]
     (\<lambda>a. Some \<lparr>prev = None, nxt = None\<rparr>, LinkedList_new) of
     Fault f \<Rightarrow> False
   | Done (rs, H, L) \<Rightarrow> lsize L = 1 \<and> walk 5 H (iterator L) = Done [1, 3]"
  by (simp add: list_step_def list_push_back_def list_remove_def unlink_prev_def unlink_next_def
      set_next_def set_prev_def deref_def LinkedList_new_def iterator_def iterator_next_def
      eval_nat_numeral)

end
