(* ===== verification/Threads.thy ===== *)
theory Threads
  imports Prelude "HOL-Library.Multiset"
begin

text \<open>
  \<open>server-5204/util/thread.h\<close>: the blocking queue of jobs, the queue of results whose size is
  mirrored by bytes in a pipe, and the pool of workers between them. Every thread is a program
  counter, a step of the pool is one call of one thread (\<open>pthread_mutex_lock\<close>, one access under the
  mutex, \<open>write\<close>, \<open>read\<close>, ...), and any interleaving is a sequence of steps. A mutex records the
  thread that owns it; \<open>pthread_cond_wait\<close> releases the mutex, waits to be signalled (or wakes up
  for no reason, as POSIX allows) and takes the mutex again. The flag of a step says whether the
  call succeeds, so that every \<open>return -1\<close> and \<open>exit\<close> is a branch. The capacity of the pipe and
  the virtual \<open>proc\<close> of the workers are parameters.
\<close>

section \<open>State\<close>

datatype thread_id = Worker nat | Producer nat | Consumer

text \<open>Where a worker is: in \<open>jobs.pop\<close>, in \<open>proc\<close>, in \<open>results.push\<close>. A failed \<open>jobs.pop\<close>
  remembers whether it still owns the mutex and the job it had taken.\<close>

datatype 'j worker =
    Lock_jobs | Check | Waiting | Woken | Unlock_jobs 'j | Pop_failed bool "'j option"
  | Proc 'j
  | Lock_results 'j | Push_result 'j | Write_byte | Unlock_results | Push_failed 'j

datatype 'j producer = Idle | Lock_push 'j | Push_job 'j | Unlock_push | Signal

datatype consumer = Outside | Reading | Lock_pop | Take | Unlock_pop | Unlock_empty

text \<open>The last five fields are the history: what was queued, taken by a worker, queued as a result
  and delivered, and how many bytes were read from the pipe by a \<open>pop\<close> that then failed.\<close>

record 'j pool =
  jobs :: "'j list"
  jobs_mutex :: "thread_id option"
  results :: "'j list"
  results_mutex :: "thread_id option"
  pipe_bytes :: nat
  num_workers :: nat
  started :: bool
  tids :: "nat list"
  workers :: "'j worker list"
  producers :: "nat \<Rightarrow> 'j producer"
  consumer :: consumer
  exited :: bool
  submitted :: "'j list"
  taken :: "'j list"
  finished :: "'j list"
  delivered :: "'j list"
  dropped_bytes :: nat

definition WorkerPool_new :: "'j pool" where
  "WorkerPool_new =
     \<lparr>jobs = [], jobs_mutex = None, results = [], results_mutex = None, pipe_bytes = 0,
      num_workers = 0, started = False, tids = [], workers = [], producers = (\<lambda>p. Idle),
      consumer = Outside, exited = False, submitted = [], taken = [], finished = [],
      delivered = [], dropped_bytes = 0\<rparr>"

text \<open>The constructor of the queue of results opens its pipe; without one the process exits, with the
  status of a success. The destructor closes both ends.\<close>

definition SelectableQueue_new :: "bool \<Rightarrow> ('j list \<times> nat) outcome" where
  "SelectableQueue_new pipe_ok = (if \<not> pipe_ok then Fault (Exit 0) else Done ([], 0))"

definition SelectableQueue_destroy :: "int \<times> int \<Rightarrow> int list" where
  "SelectableQueue_destroy fds = [fst fds, snd fds]"

lemma new_pool_queue: "SelectableQueue_new True = Done (results WorkerPool_new, pipe_bytes WorkerPool_new)"
  by (simp add: SelectableQueue_new_def WorkerPool_new_def)

section \<open>The operations that run under one lock\<close>

definition Queue_empty :: "bool \<Rightarrow> 'j list \<Rightarrow> bool" where
  "Queue_empty ok items = (if \<not> ok then True else items = [])"

definition Queue_size :: "bool \<Rightarrow> 'j list \<Rightarrow> int" where
  "Queue_size ok items = (if \<not> ok then - 1 else wrap32 (int (length items)))"

definition SelectableQueue_size :: "bool \<Rightarrow> 'j list \<Rightarrow> int" where
  "SelectableQueue_size ok items = wrap32 (int (length items))"

section \<open>Steps\<close>

definition move_worker :: "nat \<Rightarrow> 'j worker \<Rightarrow> 'j pool \<Rightarrow> 'j pool" where
  "move_worker i w s = s\<lparr>workers := (workers s)[i := w]\<rparr>"

definition move_producer :: "nat \<Rightarrow> 'j producer \<Rightarrow> 'j pool \<Rightarrow> 'j pool" where
  "move_producer p w s = s\<lparr>producers := (producers s)(p := w)\<rparr>"

text \<open>\<open>Queue::push\<close>, called by any thread.\<close>

definition Queue_push_step :: "bool \<Rightarrow> nat \<Rightarrow> 'j pool \<Rightarrow> 'j pool option" where
  "Queue_push_step ok p s =
     (case producers s p of
        Idle \<Rightarrow> None
      | Lock_push j \<Rightarrow>
          if \<not> ok then Some (move_producer p Idle s)
          else if jobs_mutex s = None
          then Some (move_producer p (Push_job j) s\<lparr>jobs_mutex := Some (Producer p)\<rparr>)
          else None
      | Push_job j \<Rightarrow>
          Some (move_producer p Unlock_push
            s\<lparr>jobs := jobs s @ [j], submitted := submitted s @ [j]\<rparr>)
      | Unlock_push \<Rightarrow> Some (move_producer p Signal s\<lparr>jobs_mutex := None\<rparr>)
      | Signal \<Rightarrow> if Waiting \<in> set (workers s) then None else Some (move_producer p Idle s))"

text \<open>\<open>pthread_cond_signal\<close> with a worker to wake up.\<close>

definition signal_step :: "nat \<Rightarrow> nat \<Rightarrow> 'j pool \<Rightarrow> 'j pool option" where
  "signal_step p i s =
     (if producers s p = Signal \<and> i < length (workers s) \<and> workers s ! i = Waiting
      then Some (move_producer p Idle (move_worker i Woken s)) else None)"

text \<open>\<open>Queue::pop\<close>, called by worker \<open>i\<close>.\<close>

definition Queue_pop_step :: "bool \<Rightarrow> nat \<Rightarrow> 'j pool \<Rightarrow> 'j pool option" where
  "Queue_pop_step ok i s =
     (case workers s ! i of
        Lock_jobs \<Rightarrow>
          if \<not> ok then Some (move_worker i (Pop_failed False None) s)
          else if jobs_mutex s = None
          then Some (move_worker i Check s\<lparr>jobs_mutex := Some (Worker i)\<rparr>)
          else None
      | Check \<Rightarrow>
          (case jobs s of
             [] \<Rightarrow>
               if \<not> ok then Some (move_worker i (Pop_failed True None) s)
               else Some (move_worker i Waiting s\<lparr>jobs_mutex := None\<rparr>)
           | j # js \<Rightarrow>
               Some (move_worker i (Unlock_jobs j) s\<lparr>jobs := js, taken := taken s @ [j]\<rparr>))
      | Woken \<Rightarrow>
          if jobs_mutex s = None
          then Some (move_worker i Check s\<lparr>jobs_mutex := Some (Worker i)\<rparr>)
          else None
      | Unlock_jobs j \<Rightarrow>
          if \<not> ok then Some (move_worker i (Pop_failed True (Some j)) s)
          else Some (move_worker i (Proc j) s\<lparr>jobs_mutex := None\<rparr>)
      | _ \<Rightarrow> None)"

text \<open>\<open>SelectableQueue::push\<close>, called by worker \<open>i\<close>: the byte is written while the mutex is held, and
  \<open>write\<close> blocks on a full pipe.\<close>

definition SelectableQueue_push_step ::
  "nat \<Rightarrow> bool \<Rightarrow> nat \<Rightarrow> 'j pool \<Rightarrow> 'j pool option" where
  "SelectableQueue_push_step cap ok i s =
     (case workers s ! i of
        Lock_results j \<Rightarrow>
          if \<not> ok then Some (move_worker i (Push_failed j) s)
          else if results_mutex s = None
          then Some (move_worker i (Push_result j) s\<lparr>results_mutex := Some (Worker i)\<rparr>)
          else None
      | Push_result j \<Rightarrow>
          Some (move_worker i Write_byte
            s\<lparr>results := results s @ [j], finished := finished s @ [j]\<rparr>)
      | Write_byte \<Rightarrow>
          if \<not> ok then Some (s\<lparr>exited := True\<rparr>)
          else if pipe_bytes s < cap
          then Some (move_worker i Unlock_results s\<lparr>pipe_bytes := Suc (pipe_bytes s)\<rparr>)
          else None
      | Unlock_results \<Rightarrow> Some (move_worker i Lock_jobs s\<lparr>results_mutex := None\<rparr>)
      | _ \<Rightarrow> None)"

text \<open>\<open>SelectableQueue::pop\<close>, called by the single reader; a failed \<open>read\<close> or \<open>lock\<close> returns -1.\<close>

definition SelectableQueue_pop_step :: "bool \<Rightarrow> 'j pool \<Rightarrow> 'j pool option" where
  "SelectableQueue_pop_step ok s =
     (case consumer s of
        Outside \<Rightarrow> None
      | Reading \<Rightarrow>
          if \<not> ok then Some (s\<lparr>consumer := Outside\<rparr>)
          else if 0 < pipe_bytes s
          then Some (s\<lparr>pipe_bytes := pipe_bytes s - 1, consumer := Lock_pop\<rparr>)
          else None
      | Lock_pop \<Rightarrow>
          if \<not> ok
          then Some (s\<lparr>consumer := Outside, dropped_bytes := Suc (dropped_bytes s)\<rparr>)
          else if results_mutex s = None
          then Some (s\<lparr>results_mutex := Some Consumer, consumer := Take\<rparr>)
          else None
      | Take \<Rightarrow>
          (case results s of
             [] \<Rightarrow> Some (s\<lparr>consumer := Unlock_empty\<rparr>)
           | j # js \<Rightarrow>
               Some (s\<lparr>results := js, delivered := delivered s @ [j], consumer := Unlock_pop\<rparr>))
      | Unlock_pop \<Rightarrow> Some (s\<lparr>results_mutex := None, consumer := Outside\<rparr>)
      | Unlock_empty \<Rightarrow> Some (s\<lparr>results_mutex := None, consumer := Outside\<rparr>))"

text \<open>\<open>_run_worker\<close>: take a job, process it, hand the result over; a failing queue ends the process.\<close>

definition run_worker_step ::
  "(nat \<Rightarrow> 'j \<Rightarrow> 'j) \<Rightarrow> nat \<Rightarrow> bool \<Rightarrow> nat \<Rightarrow> 'j pool \<Rightarrow> 'j pool option" where
  "run_worker_step proc cap ok i s =
     (if \<not> i < length (workers s) then None
      else case workers s ! i of
        Pop_failed b j \<Rightarrow> Some (s\<lparr>exited := True\<rparr>)
      | Push_failed j \<Rightarrow> Some (s\<lparr>exited := True\<rparr>)
      | Proc j \<Rightarrow> Some (move_worker i (Lock_results (proc (tids s ! i) j)) s)
      | Lock_results j \<Rightarrow> SelectableQueue_push_step cap ok i s
      | Push_result j \<Rightarrow> SelectableQueue_push_step cap ok i s
      | Write_byte \<Rightarrow> SelectableQueue_push_step cap ok i s
      | Unlock_results \<Rightarrow> SelectableQueue_push_step cap ok i s
      | _ \<Rightarrow> Queue_pop_step ok i s)"

text \<open>\<open>start\<close>: a thread for every \<open>pthread_create\<close> that succeeds, unless the pool was started before.\<close>

definition WorkerPool_start :: "bool list \<Rightarrow> 'j pool \<Rightarrow> 'j pool" where
  "WorkerPool_start created s =
     (let s = s\<lparr>num_workers := length created\<rparr> in
      if started s then s
      else (let ids = map fst (filter snd (enumerate 0 created)) in
            s\<lparr>tids := tids s @ ids, workers := workers s @ map (\<lambda>i. Lock_jobs) ids,
              started := True\<rparr>))"

datatype 'j action =
    Call_start "bool list" | Call_push nat 'j | Call_pop | Spurious nat
  | Run_producer nat bool | Signal_worker nat nat | Run_worker nat bool | Run_consumer bool

definition pool_step ::
  "(nat \<Rightarrow> 'j \<Rightarrow> 'j) \<Rightarrow> nat \<Rightarrow> 'j action \<Rightarrow> 'j pool \<Rightarrow> 'j pool option" where
  "pool_step proc cap a s =
     (if exited s then None
      else case a of
        Call_start created \<Rightarrow> Some (WorkerPool_start created s)
      | Call_push p j \<Rightarrow>
          if producers s p = Idle then Some (move_producer p (Lock_push j) s) else None
      | Call_pop \<Rightarrow> if consumer s = Outside then Some (s\<lparr>consumer := Reading\<rparr>) else None
      | Spurious i \<Rightarrow>
          if i < length (workers s) \<and> workers s ! i = Waiting
          then Some (move_worker i Woken s) else None
      | Run_producer p ok \<Rightarrow> Queue_push_step ok p s
      | Signal_worker p i \<Rightarrow> signal_step p i s
      | Run_worker i ok \<Rightarrow> run_worker_step proc cap ok i s
      | Run_consumer ok \<Rightarrow> SelectableQueue_pop_step ok s)"

inductive reachable :: "(nat \<Rightarrow> 'j \<Rightarrow> 'j) \<Rightarrow> nat \<Rightarrow> 'j pool \<Rightarrow> bool" for proc cap where
  new: "reachable proc cap WorkerPool_new"
| step: "reachable proc cap s \<Longrightarrow> pool_step proc cap a s = Some s' \<Longrightarrow> reachable proc cap s'"

section \<open>Who owns the mutexes\<close>

fun in_jobs :: "'j worker \<Rightarrow> bool" where
  "in_jobs Check = True"
| "in_jobs (Unlock_jobs j) = True"
| "in_jobs (Pop_failed b j) = b"
| "in_jobs w = False"

fun in_results :: "'j worker \<Rightarrow> bool" where
  "in_results (Push_result j) = True"
| "in_results Write_byte = True"
| "in_results Unlock_results = True"
| "in_results w = False"

fun in_push :: "'j producer \<Rightarrow> bool" where
  "in_push (Push_job j) = True"
| "in_push Unlock_push = True"
| "in_push w = False"

definition owns_jobs :: "'j worker list \<Rightarrow> (nat \<Rightarrow> 'j producer) \<Rightarrow> thread_id \<Rightarrow> bool" where
  "owns_jobs ws ps t =
     (case t of
        Worker i \<Rightarrow> i < length ws \<and> in_jobs (ws ! i)
      | Producer p \<Rightarrow> in_push (ps p)
      | Consumer \<Rightarrow> False)"

fun in_pop :: "consumer \<Rightarrow> bool" where
  "in_pop Take = True"
| "in_pop Unlock_pop = True"
| "in_pop Unlock_empty = True"
| "in_pop c = False"

definition owns_results :: "'j worker list \<Rightarrow> bool \<Rightarrow> thread_id \<Rightarrow> bool" where
  "owns_results ws c t =
     (case t of
        Worker i \<Rightarrow> i < length ws \<and> in_results (ws ! i)
      | Producer p \<Rightarrow> False
      | Consumer \<Rightarrow> c)"

text \<open>A mutex is owned by exactly the thread whose program counter is in its critical section.\<close>

definition agree :: "thread_id option \<Rightarrow> (thread_id \<Rightarrow> bool) \<Rightarrow> bool" where
  "agree m P \<longleftrightarrow> (\<forall>t. (m = Some t) = P t)"

definition mutexes_ok :: "'j pool \<Rightarrow> bool" where
  "mutexes_ok s \<longleftrightarrow>
     agree (jobs_mutex s) (owns_jobs (workers s) (producers s)) \<and>
     agree (results_mutex s) (owns_results (workers s) (in_pop (consumer s)))"

lemma agree_acquire [simp]: "agree None P \<Longrightarrow> agree (Some t) (P(t := True))"
  by (auto simp: agree_def)

lemma agree_release [simp]: "P t \<Longrightarrow> agree m P \<Longrightarrow> agree None (P(t := False))"
  unfolding agree_def by (metis fun_upd_apply option.distinct(1) option.inject)

lemma upd_triv [simp]: "P t \<Longrightarrow> P(t := True) = P" "\<not> P t \<Longrightarrow> P(t := False) = P"
  by (rule ext, simp)+

lemma owns_jobs_worker [simp]:
  "i < length ws \<Longrightarrow> owns_jobs (ws[i := w]) ps = (owns_jobs ws ps)(Worker i := in_jobs w)"
  by (rule ext) (auto simp: owns_jobs_def nth_list_update split: thread_id.split)

lemma owns_jobs_producer [simp]:
  "owns_jobs ws (ps(p := v)) = (owns_jobs ws ps)(Producer p := in_push v)"
  by (rule ext) (auto simp: owns_jobs_def split: thread_id.split)

lemma owns_results_worker [simp]:
  "i < length ws \<Longrightarrow> owns_results (ws[i := w]) c = (owns_results ws c)(Worker i := in_results w)"
  by (rule ext) (auto simp: owns_results_def nth_list_update split: thread_id.split)

lemma owns_results_consumer:
  "owns_results ws True = (owns_results ws False)(Consumer := True)"
  "owns_results ws False = (owns_results ws True)(Consumer := False)"
  by (rule ext, auto simp: owns_results_def split: thread_id.split)+

lemma owns_results_lock [simp]:
  "agree None (owns_results ws False) \<Longrightarrow> agree (Some Consumer) (owns_results ws True)"
  by (subst owns_results_consumer(1)) (rule agree_acquire)

lemma owns_results_unlock [simp]:
  "agree m (owns_results ws True) \<Longrightarrow> agree None (owns_results ws False)"
  by (subst owns_results_consumer(2), rule agree_release) (simp_all add: owns_results_def)

lemma owns_at [simp]:
  "i < length ws \<Longrightarrow> owns_jobs ws ps (Worker i) = in_jobs (ws ! i)"
  "owns_jobs ws ps (Producer p) = in_push (ps p)" "\<not> owns_jobs ws ps Consumer"
  "i < length ws \<Longrightarrow> owns_results ws c (Worker i) = in_results (ws ! i)"
  "\<not> owns_results ws c (Producer p)"
  "owns_results ws c Consumer = c"
  by (simp_all add: owns_jobs_def owns_results_def)

lemma owns_new_workers [simp]:
  "owns_jobs (ws @ replicate k Lock_jobs) ps = owns_jobs ws ps"
  "owns_results (ws @ replicate k Lock_jobs) c = owns_results ws c"
  by (rule ext, auto simp: owns_jobs_def owns_results_def nth_append split: thread_id.split)+

lemma move_simps [simp]:
  "workers (move_worker i w s) = (workers s)[i := w]"
  "producers (move_worker i w s) = producers s" "consumer (move_worker i w s) = consumer s"
  "jobs (move_worker i w s) = jobs s" "results (move_worker i w s) = results s"
  "jobs_mutex (move_worker i w s) = jobs_mutex s"
  "results_mutex (move_worker i w s) = results_mutex s"
  "pipe_bytes (move_worker i w s) = pipe_bytes s" "submitted (move_worker i w s) = submitted s"
  "taken (move_worker i w s) = taken s" "finished (move_worker i w s) = finished s"
  "delivered (move_worker i w s) = delivered s"
  "dropped_bytes (move_worker i w s) = dropped_bytes s" "exited (move_worker i w s) = exited s"
  "workers (move_producer p v s) = workers s"
  "producers (move_producer p v s) = (producers s)(p := v)"
  "consumer (move_producer p v s) = consumer s" "jobs (move_producer p v s) = jobs s"
  "results (move_producer p v s) = results s" "jobs_mutex (move_producer p v s) = jobs_mutex s"
  "results_mutex (move_producer p v s) = results_mutex s"
  "pipe_bytes (move_producer p v s) = pipe_bytes s"
  "submitted (move_producer p v s) = submitted s" "taken (move_producer p v s) = taken s"
  "finished (move_producer p v s) = finished s" "delivered (move_producer p v s) = delivered s"
  "dropped_bytes (move_producer p v s) = dropped_bytes s"
  "exited (move_producer p v s) = exited s"
  by (simp_all add: move_worker_def move_producer_def)

lemmas pool_defs = Queue_push_step_def signal_step_def Queue_pop_step_def
  SelectableQueue_push_step_def SelectableQueue_pop_step_def run_worker_step_def

lemma start_eq:
  "\<exists>n ids k. WorkerPool_start created s =
     s\<lparr>num_workers := n, tids := ids, workers := workers s @ replicate k Lock_jobs,
       started := True\<rparr>"
proof (cases "started s")
  case True
  then have "WorkerPool_start created s = s\<lparr>num_workers := length created, tids := tids s,
      workers := workers s @ replicate 0 Lock_jobs, started := True\<rparr>"
    by (cases s) (simp add: WorkerPool_start_def)
  then show ?thesis by blast
next
  case False
  then show ?thesis by (auto simp: WorkerPool_start_def Let_def map_replicate_const)
qed

lemma mutexes_start: "mutexes_ok s \<Longrightarrow> mutexes_ok (WorkerPool_start created s)"
  using start_eq [of created s] by (auto simp: mutexes_ok_def)

lemma mutexes_pop:
  assumes "mutexes_ok s" and "i < length (workers s)" and "Queue_pop_step ok i s = Some s'"
  shows "mutexes_ok s'"
  using assms
  by (cases "workers s ! i")
    (auto simp: Queue_pop_step_def mutexes_ok_def split: if_splits list.splits)

lemma mutexes_push:
  assumes "mutexes_ok s" and "i < length (workers s)"
    and "SelectableQueue_push_step cap ok i s = Some s'"
  shows "mutexes_ok s'"
  using assms
  by (cases "workers s ! i")
    (auto simp: SelectableQueue_push_step_def mutexes_ok_def split: if_splits)

lemma mutexes_producer:
  "mutexes_ok s \<Longrightarrow> Queue_push_step ok p s = Some s' \<Longrightarrow> mutexes_ok s'"
  by (cases "producers s p")
    (auto simp: Queue_push_step_def mutexes_ok_def split: if_splits)

lemma mutexes_consumer:
  "mutexes_ok s \<Longrightarrow> SelectableQueue_pop_step ok s = Some s' \<Longrightarrow> mutexes_ok s'"
  by (cases "consumer s"; cases "results s")
    (auto simp: SelectableQueue_pop_step_def mutexes_ok_def split: if_splits)

section \<open>The kinds of steps\<close>

lemma run_worker_step_cases [consumes 1, case_names pop push proc fail]:
  assumes "run_worker_step proc cap ok i s = Some s'"
  obtains "i < length (workers s)" "Queue_pop_step ok i s = Some s'"
  | "i < length (workers s)" "SelectableQueue_push_step cap ok i s = Some s'"
  | j where "i < length (workers s)" "workers s ! i = Proc j"
      "s' = move_worker i (Lock_results (proc (tids s ! i) j)) s"
  | "s' = s\<lparr>exited := True\<rparr>"
  using assms
  by (cases "workers s ! i") (auto simp: run_worker_step_def split: if_splits)

lemma pool_step_cases
  [consumes 1, case_names start call_push call_pop wake push signal pop results proc fail consume]:
  assumes "pool_step proc cap a s = Some s'"
  obtains created where "a = Call_start created" "s' = WorkerPool_start created s"
  | p j where "a = Call_push p j" "producers s p = Idle" "s' = move_producer p (Lock_push j) s"
  | "a = Call_pop" "consumer s = Outside" "s' = s\<lparr>consumer := Reading\<rparr>"
  | i where "a = Spurious i" "i < length (workers s)" "workers s ! i = Waiting"
      "s' = move_worker i Woken s"
  | ok p where "a = Run_producer p ok" "Queue_push_step ok p s = Some s'"
  | p i where "a = Signal_worker p i" "producers s p = Signal" "i < length (workers s)"
      "workers s ! i = Waiting" "s' = move_producer p Idle (move_worker i Woken s)"
  | i ok where "a = Run_worker i ok" "i < length (workers s)" "Queue_pop_step ok i s = Some s'"
  | i ok where "a = Run_worker i ok" "i < length (workers s)"
      "SelectableQueue_push_step cap ok i s = Some s'"
  | i ok j where "a = Run_worker i ok" "i < length (workers s)" "workers s ! i = Proc j"
      "s' = move_worker i (Lock_results (proc (tids s ! i) j)) s"
  | i ok where "a = Run_worker i ok" "s' = s\<lparr>exited := True\<rparr>"
  | ok where "a = Run_consumer ok" "SelectableQueue_pop_step ok s = Some s'"
proof (cases a)
  case (Run_worker i ok)
  with assms have "run_worker_step proc cap ok i s = Some s'"
    by (simp add: pool_step_def split: if_splits)
  then show thesis
  proof (cases rule: run_worker_step_cases)
    case pop then show thesis by (rule that(7) [OF Run_worker])
  next
    case push then show thesis by (rule that(8) [OF Run_worker])
  next
    case (proc j) then show thesis by (rule that(9) [OF Run_worker])
  next
    case fail then show thesis by (rule that(10) [OF Run_worker])
  qed
next
  case (Call_start created)
  with assms have "s' = WorkerPool_start created s" by (simp add: pool_step_def split: if_splits)
  with Call_start show thesis by (rule that(1))
next
  case (Call_push p j)
  with assms have "producers s p = Idle" "s' = move_producer p (Lock_push j) s"
    by (auto simp: pool_step_def split: if_splits)
  with Call_push show thesis by (rule that(2))
next
  case Call_pop
  with assms have "consumer s = Outside" "s' = s\<lparr>consumer := Reading\<rparr>"
    by (auto simp: pool_step_def split: if_splits)
  with Call_pop show thesis by (rule that(3))
next
  case (Spurious i)
  with assms have "i < length (workers s)" "workers s ! i = Waiting" "s' = move_worker i Woken s"
    by (auto simp: pool_step_def split: if_splits)
  with Spurious show thesis by (rule that(4))
next
  case (Run_producer p ok)
  with assms have "Queue_push_step ok p s = Some s'"
    by (simp add: pool_step_def split: if_splits)
  with Run_producer show thesis by (rule that(5))
next
  case (Signal_worker p i)
  with assms have "producers s p = Signal" "i < length (workers s)" "workers s ! i = Waiting"
      "s' = move_producer p Idle (move_worker i Woken s)"
    by (auto simp: pool_step_def signal_step_def split: if_splits)
  with Signal_worker show thesis by (rule that(6))
next
  case (Run_consumer ok)
  with assms have "SelectableQueue_pop_step ok s = Some s'"
    by (simp add: pool_step_def split: if_splits)
  with Run_consumer show thesis by (rule that(11))
qed

text \<open>An invariant of the pool: what every operation of every thread keeps.\<close>

locale pool_invariant =
  fixes proc :: "nat \<Rightarrow> 'j \<Rightarrow> 'j" and cap :: nat and I :: "'j pool \<Rightarrow> bool"
  assumes new: "I WorkerPool_new"
    and start: "I s \<Longrightarrow> I (WorkerPool_start created s)"
    and call_push: "I s \<Longrightarrow> producers s p = Idle \<Longrightarrow> I (move_producer p (Lock_push j) s)"
    and call_pop: "I s \<Longrightarrow> consumer s = Outside \<Longrightarrow> I (s\<lparr>consumer := Reading\<rparr>)"
    and wake: "I s \<Longrightarrow> i < length (workers s) \<Longrightarrow> workers s ! i = Waiting \<Longrightarrow>
      I (move_worker i Woken s)"
    and signalled: "I (move_worker i Woken s) \<Longrightarrow> i < length (workers s) \<Longrightarrow>
      producers s p = Signal \<Longrightarrow> I (move_producer p Idle (move_worker i Woken s))"
    and queue_push: "I s \<Longrightarrow> Queue_push_step ok p s = Some s' \<Longrightarrow> I s'"
    and queue_pop: "I s \<Longrightarrow> i < length (workers s) \<Longrightarrow> Queue_pop_step ok i s = Some s' \<Longrightarrow> I s'"
    and results_push: "I s \<Longrightarrow> i < length (workers s) \<Longrightarrow>
      SelectableQueue_push_step cap ok i s = Some s' \<Longrightarrow> I s'"
    and results_pop: "I s \<Longrightarrow> SelectableQueue_pop_step ok s = Some s' \<Longrightarrow> I s'"
    and processed: "I s \<Longrightarrow> i < length (workers s) \<Longrightarrow> workers s ! i = Proc j \<Longrightarrow>
      I (move_worker i (Lock_results (proc (tids s ! i) j)) s)"
    and exit: "I s \<Longrightarrow> I (s\<lparr>exited := True\<rparr>)"
begin

lemma kept: "pool_step proc cap a s = Some s' \<Longrightarrow> I s \<Longrightarrow> I s'"
proof (induction rule: pool_step_cases)
  case (push ok p) from this(3,2) show ?case by (rule queue_push)
next
  case (pop i ok) from this(4,2,3) show ?case by (rule queue_pop)
next
  case (results i ok) from this(4,2,3) show ?case by (rule results_push)
next
  case (consume ok) from this(3,2) show ?case by (rule results_pop)
next
  case (signal p i)
  from signal(6,3,4) have "I (move_worker i Woken s)" by (rule wake)
  with signal show ?case by (simp add: signalled)
qed (simp_all add: start call_push call_pop wake processed exit)

lemma always: "reachable proc cap s \<Longrightarrow> I s"
  by (induction rule: reachable.induct) (blast intro: new kept)+

end

interpretation mutex: pool_invariant proc cap mutexes_ok for proc :: "nat \<Rightarrow> 'j \<Rightarrow> 'j" and cap
proof (unfold_locales, goal_cases)
  case 1
  show ?case
    by (auto simp: WorkerPool_new_def mutexes_ok_def agree_def owns_jobs_def owns_results_def
        split: thread_id.split)
next
  case (2 s created) then show ?case by (rule mutexes_start)
next
  case (7 s ok p s') then show ?case by (rule mutexes_producer)
next
  case (8 s i ok s') then show ?case by (rule mutexes_pop)
next
  case (9 s i ok s') then show ?case by (rule mutexes_push)
next
  case (10 s ok s') then show ?case by (rule mutexes_consumer)
qed (simp_all add: mutexes_ok_def)

section \<open>No job is lost, duplicated or reordered\<close>

text \<open>The job a worker is responsible for, and whether it still has a byte to write.\<close>

fun carried :: "'j worker \<Rightarrow> 'j list" where
  "carried (Unlock_jobs j) = [j]"
| "carried (Pop_failed b (Some j)) = [j]"
| "carried (Proc j) = [j]"
| "carried (Lock_results j) = [j]"
| "carried (Push_result j) = [j]"
| "carried (Push_failed j) = [j]"
| "carried w = []"

fun writing :: "'j worker \<Rightarrow> nat" where
  "writing Write_byte = 1"
| "writing w = 0"

definition total :: "('j worker \<Rightarrow> 'm::comm_monoid_add) \<Rightarrow> 'j worker list \<Rightarrow> 'm" where
  "total f ws = sum_list (map f ws)"

definition others :: "nat \<Rightarrow> 'j worker list \<Rightarrow> 'j worker list" where
  "others i ws = take i ws @ drop (Suc i) ws"

lemma others_update [simp]: "others i (ws[i := w]) = others i ws"
  by (simp add: others_def)

lemma total_at: "i < length ws \<Longrightarrow> total f ws = f (ws ! i) + total f (others i ws)"
  by (subst id_take_nth_drop [of i ws])
    (simp_all add: total_def others_def add.left_commute)

lemma total_update [simp]: "i < length ws \<Longrightarrow> total f (ws[i := w]) = f w + total f (others i ws)"
  by (simp add: total_at others_def)

lemma total_new_workers [simp]:
  "f Lock_jobs = 0 \<Longrightarrow> total f (ws @ replicate k Lock_jobs) = total f ws"
  by (induction k) (simp_all add: total_def)

definition flow_ok :: "('j \<Rightarrow> 'k) \<Rightarrow> 'j pool \<Rightarrow> bool" where
  "flow_ok key s \<longleftrightarrow>
     submitted s = taken s @ jobs s \<and> finished s = delivered s @ results s \<and>
     mset (map key (taken s)) =
       total (\<lambda>w. mset (map key (carried w))) (workers s) + mset (map key (finished s))"

definition bytes_ok :: "'j pool \<Rightarrow> bool" where
  "bytes_ok s \<longleftrightarrow>
     pipe_bytes s + (if consumer s = Lock_pop \<or> consumer s = Take then 1 else 0) +
       total writing (workers s) + dropped_bytes s = length (results s) \<and>
     consumer s \<noteq> Unlock_empty"

lemma flow_pop:
  "flow_ok key s \<Longrightarrow> i < length (workers s) \<Longrightarrow> Queue_pop_step ok i s = Some s' \<Longrightarrow> flow_ok key s'"
  by (cases "workers s ! i")
    (auto simp: Queue_pop_step_def flow_ok_def total_at [of i "workers s"]
      split: if_splits list.splits)

lemma flow_push:
  "flow_ok key s \<Longrightarrow> i < length (workers s) \<Longrightarrow>
   SelectableQueue_push_step cap ok i s = Some s' \<Longrightarrow> flow_ok key s'"
  by (cases "workers s ! i")
    (auto simp: SelectableQueue_push_step_def flow_ok_def total_at [of i "workers s"]
      split: if_splits)

lemma flow_producer: "flow_ok key s \<Longrightarrow> Queue_push_step ok p s = Some s' \<Longrightarrow> flow_ok key s'"
  by (cases "producers s p") (auto simp: Queue_push_step_def flow_ok_def split: if_splits)

lemma flow_consumer: "flow_ok key s \<Longrightarrow> SelectableQueue_pop_step ok s = Some s' \<Longrightarrow> flow_ok key s'"
  by (cases "consumer s"; cases "results s")
    (auto simp: SelectableQueue_pop_step_def flow_ok_def split: if_splits)

lemma flow_start: "flow_ok key s \<Longrightarrow> flow_ok key (WorkerPool_start created s)"
  using start_eq [of created s] by (auto simp: flow_ok_def)

lemma bytes_pop:
  "bytes_ok s \<Longrightarrow> i < length (workers s) \<Longrightarrow> Queue_pop_step ok i s = Some s' \<Longrightarrow> bytes_ok s'"
  by (cases "workers s ! i")
    (auto simp: Queue_pop_step_def bytes_ok_def total_at [of i "workers s"]
      split: if_splits list.splits)

lemma bytes_push:
  "bytes_ok s \<Longrightarrow> i < length (workers s) \<Longrightarrow>
   SelectableQueue_push_step cap ok i s = Some s' \<Longrightarrow> bytes_ok s'"
  by (cases "workers s ! i")
    (auto simp: SelectableQueue_push_step_def bytes_ok_def total_at [of i "workers s"]
      split: if_splits)

lemma bytes_producer: "bytes_ok s \<Longrightarrow> Queue_push_step ok p s = Some s' \<Longrightarrow> bytes_ok s'"
  by (cases "producers s p") (auto simp: Queue_push_step_def bytes_ok_def split: if_splits)

lemma bytes_consumer: "bytes_ok s \<Longrightarrow> SelectableQueue_pop_step ok s = Some s' \<Longrightarrow> bytes_ok s'"
  by (cases "consumer s"; cases "results s")
    (auto simp: SelectableQueue_pop_step_def bytes_ok_def split: if_splits)

lemma bytes_start: "bytes_ok s \<Longrightarrow> bytes_ok (WorkerPool_start created s)"
  using start_eq [of created s] by (auto simp: bytes_ok_def)

interpretation flow: pool_invariant proc cap "\<lambda>s. (\<forall>i j. key (proc i j) = key j) \<longrightarrow> flow_ok key s"
  for proc :: "nat \<Rightarrow> 'j \<Rightarrow> 'j" and cap and key :: "'j \<Rightarrow> 'k"
proof (unfold_locales, goal_cases)
  case 1
  show ?case by (simp add: WorkerPool_new_def flow_ok_def total_def)
next
  case (2 s created) then show ?case by (blast intro: flow_start)
next
  case (7 s ok p s') then show ?case by (blast intro: flow_producer)
next
  case (8 s i ok s') then show ?case by (blast intro: flow_pop)
next
  case (9 s i ok s') then show ?case by (blast intro: flow_push)
next
  case (10 s ok s') then show ?case by (blast intro: flow_consumer)
qed (simp_all add: flow_ok_def total_at)

interpretation bytes: pool_invariant proc cap bytes_ok for proc :: "nat \<Rightarrow> 'j \<Rightarrow> 'j" and cap
proof (unfold_locales, goal_cases)
  case 1
  show ?case by (simp add: WorkerPool_new_def bytes_ok_def total_def)
next
  case (2 s created) then show ?case by (rule bytes_start)
next
  case (7 s ok p s') then show ?case by (rule bytes_producer)
next
  case (8 s i ok s') then show ?case by (rule bytes_pop)
next
  case (9 s i ok s') then show ?case by (rule bytes_push)
next
  case (10 s ok s') then show ?case by (rule bytes_consumer)
qed (simp_all add: bytes_ok_def total_at)

section \<open>No wake-up is lost\<close>

definition signalling :: "(nat \<Rightarrow> 'j producer) \<Rightarrow> bool" where
  "signalling ps \<longleftrightarrow> (\<exists>p. ps p = Unlock_push \<or> ps p = Signal)"

lemma signalling_now [simp]: "signalling (ps(p := Unlock_push))" "signalling (ps(p := Signal))"
  by (auto simp: signalling_def)

lemma signalling_other:
  assumes "signalling ps" and "ps p \<noteq> Unlock_push" and "ps p \<noteq> Signal"
  shows "signalling (ps(p := v))"
proof -
  from assms(1) obtain q where q: "ps q = Unlock_push \<or> ps q = Signal"
    by (auto simp: signalling_def)
  with assms(2,3) have "q \<noteq> p" by auto
  with q have "(ps(p := v)) q = Unlock_push \<or> (ps(p := v)) q = Signal" by simp
  then show ?thesis unfolding signalling_def by blast
qed

text \<open>While a job is queued, a worker is awake or a producer is about to signal.\<close>

definition wake_ok :: "'j pool \<Rightarrow> bool" where
  "wake_ok s \<longleftrightarrow>
     jobs s = [] \<or> workers s = [] \<or> (\<exists>w \<in> set (workers s). w \<noteq> Waiting) \<or>
     signalling (producers s)"

lemma awake_update: "i < length ws \<Longrightarrow> w \<noteq> Waiting \<Longrightarrow> \<exists>v \<in> set (ws[i := w]). v \<noteq> Waiting"
  by (blast intro: set_update_memI)

lemma wake_worker: "i < length (workers s) \<Longrightarrow> w \<noteq> Waiting \<Longrightarrow> wake_ok (move_worker i w s)"
  by (simp add: wake_ok_def awake_update)

lemma wake_start: "wake_ok s \<Longrightarrow> wake_ok (WorkerPool_start created s)"
proof -
  assume w: "wake_ok s"
  from start_eq [of created s] obtain n ids k where
    eq: "WorkerPool_start created s = s\<lparr>num_workers := n, tids := ids,
      workers := workers s @ replicate k Lock_jobs, started := True\<rparr>" by blast
  show ?thesis
  proof (cases k)
    case 0
    with w eq show ?thesis by (simp add: wake_ok_def)
  next
    case (Suc m)
    then have "Lock_jobs \<in> set (workers s @ replicate k Lock_jobs)" by simp
    moreover have "Lock_jobs \<noteq> Waiting" by simp
    ultimately show ?thesis unfolding wake_ok_def eq by fastforce
  qed
qed

lemma wake_producer: "wake_ok s \<Longrightarrow> Queue_push_step ok p s = Some s' \<Longrightarrow> wake_ok s'"
proof (cases "producers s p")
  case Signal
  assume "Queue_push_step ok p s = Some s'"
  with Signal have "Waiting \<notin> set (workers s)" "s' = move_producer p Idle s"
    by (simp_all add: Queue_push_step_def split: if_splits)
  then show ?thesis by (cases "workers s") (auto simp: wake_ok_def)
next
  case (Lock_push j)
  then have "signalling (producers s) \<Longrightarrow> signalling ((producers s)(p := v))" for v
    by (simp add: signalling_other)
  moreover assume "wake_ok s" "Queue_push_step ok p s = Some s'"
  ultimately show ?thesis
    using Lock_push by (auto simp: Queue_push_step_def wake_ok_def split: if_splits)
qed (auto simp: Queue_push_step_def wake_ok_def)

lemma wake_pop:
  assumes "wake_ok s" and i: "i < length (workers s)" and "Queue_pop_step ok i s = Some s'"
  shows "wake_ok s'"
proof (cases "jobs s' = []")
  case False
  with assms(3) have "\<exists>w. w \<noteq> Waiting \<and> workers s' = (workers s)[i := w]"
    by (cases "workers s ! i") (auto simp: Queue_pop_step_def split: if_splits list.splits)
  with awake_update [OF i] show ?thesis by (auto simp: wake_ok_def)
qed (simp add: wake_ok_def)

lemma wake_exit [simp]: "wake_ok (s\<lparr>exited := b\<rparr>) = wake_ok s"
  by (simp add: wake_ok_def)

lemma wake_push:
  assumes "wake_ok s" and i: "i < length (workers s)"
    and "SelectableQueue_push_step cap ok i s = Some s'"
  shows "wake_ok s'"
proof -
  have moved: "workers t = (workers s)[i := w] \<Longrightarrow> w \<noteq> Waiting \<Longrightarrow> wake_ok t" for w t
    using awake_update [OF i] by (simp add: wake_ok_def)
  show ?thesis
  proof (cases "workers s ! i")
    case (Lock_results j)
    with assms show ?thesis
      by (auto simp: SelectableQueue_push_step_def wake_worker split: if_splits
          intro: moved [of _ "Push_result j"])
  next
    case (Push_result j)
    with assms show ?thesis
      by (auto simp: SelectableQueue_push_step_def intro: moved [of _ Write_byte])
  next
    case Write_byte
    with assms show ?thesis
      by (auto simp: SelectableQueue_push_step_def split: if_splits
          intro: moved [of _ Unlock_results])
  next
    case Unlock_results
    with assms show ?thesis
      by (auto simp: SelectableQueue_push_step_def intro: moved [of _ Lock_jobs])
  qed (use assms in \<open>simp_all add: SelectableQueue_push_step_def\<close>)
qed

lemma results_pop_frame:
  "SelectableQueue_pop_step ok s = Some s' \<Longrightarrow>
   jobs s' = jobs s \<and> workers s' = workers s \<and> producers s' = producers s"
  by (cases "consumer s"; cases "results s")
    (auto simp: SelectableQueue_pop_step_def split: if_splits)

lemma wake_consumer: "wake_ok s \<Longrightarrow> SelectableQueue_pop_step ok s = Some s' \<Longrightarrow> wake_ok s'"
  by (drule results_pop_frame) (simp add: wake_ok_def)

lemma wake_call_push:
  "wake_ok s \<Longrightarrow> producers s p = Idle \<Longrightarrow> wake_ok (move_producer p (Lock_push j) s)"
  by (auto simp: wake_ok_def intro: signalling_other)

interpretation wake: pool_invariant proc cap wake_ok for proc :: "nat \<Rightarrow> 'j \<Rightarrow> 'j" and cap
proof (unfold_locales, goal_cases)
  case 1
  show ?case by (simp add: WorkerPool_new_def wake_ok_def)
next
  case (2 s created) then show ?case by (rule wake_start)
next
  case (3 s p j) then show ?case by (rule wake_call_push)
next
  case (6 i s p)
  from awake_update [OF 6(2), of Woken] show ?case by (simp add: wake_ok_def)
next
  case (7 s ok p s') then show ?case by (rule wake_producer)
next
  case (8 s i ok s') then show ?case by (rule wake_pop)
next
  case (9 s i ok s') then show ?case by (rule wake_push)
next
  case (10 s ok s') then show ?case by (rule wake_consumer)
qed (simp_all add: wake_worker, simp_all add: wake_ok_def)

section \<open>Progress\<close>

text \<open>A step of a thread that is in the middle of a call, in which no system call fails and no worker
  wakes up by itself.\<close>

fun internal :: "'j action \<Rightarrow> bool" where
  "internal (Run_producer p ok) = ok"
| "internal (Signal_worker p i) = True"
| "internal (Run_worker i ok) = ok"
| "internal (Run_consumer ok) = ok"
| "internal a = False"

definition can_move :: "(nat \<Rightarrow> 'j \<Rightarrow> 'j) \<Rightarrow> nat \<Rightarrow> 'j pool \<Rightarrow> bool" where
  "can_move proc cap s \<longleftrightarrow> (\<exists>a. internal a \<and> pool_step proc cap a s \<noteq> None)"

lemma can_moveI: "internal a \<Longrightarrow> pool_step proc cap a s \<noteq> None \<Longrightarrow> can_move proc cap s"
  by (auto simp: can_move_def)

text \<open>A thread inside a critical section of the jobs can always go on.\<close>

lemma agreeD: "agree m P \<Longrightarrow> m = Some t \<Longrightarrow> P t"
  unfolding agree_def by metis

lemma jobs_owner_moves:
  assumes "mutexes_ok s" and "jobs_mutex s = Some t" and "\<not> exited s"
  shows "can_move proc cap s"
proof -
  from assms(1,2) have o: "owns_jobs (workers s) (producers s) t"
    by (auto simp: mutexes_ok_def dest: agreeD)
  show ?thesis
  proof (cases t)
    case (Worker i)
    with o have "i < length (workers s)" "in_jobs (workers s ! i)" by (simp_all add: owns_jobs_def)
    with assms(3) show ?thesis
      by (intro can_moveI [of "Run_worker i True"]; cases "workers s ! i"; cases "jobs s")
        (simp_all add: pool_step_def run_worker_step_def Queue_pop_step_def)
  next
    case (Producer p)
    with o have "in_push (producers s p)" by (simp add: owns_jobs_def)
    with assms(3) show ?thesis
      by (intro can_moveI [of "Run_producer p True"]; cases "producers s p")
        (simp_all add: pool_step_def Queue_push_step_def)
  qed (use o in \<open>simp add: owns_jobs_def\<close>)
qed

lemma results_owner_moves:
  assumes "mutexes_ok s" and "results_mutex s = Some t" and "\<not> exited s" and "pipe_bytes s < cap"
  shows "can_move proc cap s"
proof -
  from assms(1,2) have o: "owns_results (workers s) (in_pop (consumer s)) t"
    by (auto simp: mutexes_ok_def dest: agreeD)
  show ?thesis
  proof (cases t)
    case (Worker i)
    with o have "i < length (workers s)" "in_results (workers s ! i)"
      by (simp_all add: owns_results_def)
    with assms(3,4) show ?thesis
      by (intro can_moveI [of "Run_worker i True"]; cases "workers s ! i")
        (simp_all add: pool_step_def run_worker_step_def SelectableQueue_push_step_def)
  next
    case Consumer
    with o have "in_pop (consumer s)" by (simp add: owns_results_def)
    with assms(3) show ?thesis
      by (intro can_moveI [of "Run_consumer True"]; cases "consumer s"; cases "results s")
        (simp_all add: pool_step_def SelectableQueue_pop_step_def)
  qed (use o in \<open>simp add: owns_results_def\<close>)
qed

lemma awake_worker_moves:
  assumes m: "mutexes_ok s" and i: "i < length (workers s)" "workers s ! i \<noteq> Waiting"
    and e: "\<not> exited s" and c: "pipe_bytes s < cap"
  shows "can_move proc cap s"
proof (cases "jobs_mutex s = None \<and> results_mutex s = None")
  case True
  with i e c show ?thesis
    by (intro can_moveI [of "Run_worker i True"]; cases "workers s ! i"; cases "jobs s")
      (simp_all add: pool_step_def run_worker_step_def Queue_pop_step_def
        SelectableQueue_push_step_def)
next
  case False
  then consider t where "jobs_mutex s = Some t" | t where "results_mutex s = Some t" by auto
  then show ?thesis
  proof cases
    case 1 then show ?thesis by (rule jobs_owner_moves [OF m _ e])
  next
    case 2 then show ?thesis by (rule results_owner_moves [OF m _ e c])
  qed
qed

lemma signaller_moves:
  assumes "signalling (producers s)" and e: "\<not> exited s"
  shows "can_move proc cap s"
proof -
  from assms(1) obtain p where "producers s p = Unlock_push \<or> producers s p = Signal"
    by (auto simp: signalling_def)
  then show ?thesis
  proof
    assume "producers s p = Unlock_push"
    with e show ?thesis
      by (intro can_moveI [of "Run_producer p True"])
        (simp_all add: pool_step_def Queue_push_step_def)
  next
    assume p: "producers s p = Signal"
    show ?thesis
    proof (cases "Waiting \<in> set (workers s)")
      case True
      then obtain i where "i < length (workers s)" "workers s ! i = Waiting"
        by (auto simp: in_set_conv_nth)
      with p e show ?thesis
        by (intro can_moveI [of "Signal_worker p i"]) (simp_all add: pool_step_def signal_step_def)
    next
      case False
      with p e show ?thesis
        by (intro can_moveI [of "Run_producer p True"])
          (simp_all add: pool_step_def Queue_push_step_def)
    qed
  qed
qed

section \<open>The full pipe\<close>

text \<open>Steps in which no system call fails (calls from outside and spurious wake-ups included).\<close>

fun succeeds :: "'j action \<Rightarrow> bool" where
  "succeeds (Run_producer p ok) = ok"
| "succeeds (Run_worker i ok) = ok"
| "succeeds (Run_consumer ok) = ok"
| "succeeds a = True"

inductive continues :: "(nat \<Rightarrow> 'j \<Rightarrow> 'j) \<Rightarrow> nat \<Rightarrow> 'j pool \<Rightarrow> 'j pool \<Rightarrow> bool" for proc cap s where
  here: "continues proc cap s s"
| further: "continues proc cap s t \<Longrightarrow> succeeds a \<Longrightarrow> pool_step proc cap a t = Some t' \<Longrightarrow>
    continues proc cap s t'"

text \<open>The reader has taken its byte and waits for the mutex; the worker that owns it waits for room in
  the pipe.\<close>

definition clogged :: "nat \<Rightarrow> nat \<Rightarrow> 'j pool \<Rightarrow> bool" where
  "clogged cap i s \<longleftrightarrow>
     i < length (workers s) \<and> workers s ! i = Write_byte \<and> results_mutex s = Some (Worker i) \<and>
     cap \<le> pipe_bytes s \<and> consumer s = Lock_pop"

lemma clogged_others:
  assumes "clogged cap i s" and "k < length (workers s)" and "k \<noteq> i"
  shows "clogged cap i (move_worker k w s)"
  using assms by (simp add: clogged_def)

lemma clogged_pop:
  assumes c: "clogged cap i s" and k: "k < length (workers s)"
    and p: "Queue_pop_step ok k s = Some s'"
  shows "clogged cap i s' \<and> delivered s' = delivered s"
proof -
  have "k \<noteq> i" using c p by (auto simp: clogged_def Queue_pop_step_def)
  with c k p show ?thesis
    by (cases "workers s ! k") (auto simp: Queue_pop_step_def clogged_def split: if_splits list.splits)
qed

lemma clogged_push:
  assumes m: "mutexes_ok s" and c: "clogged cap i s" and k: "k < length (workers s)"
    and p: "SelectableQueue_push_step cap True k s = Some s'"
  shows "clogged cap i s' \<and> delivered s' = delivered s"
proof -
  have "k \<noteq> i" using c p by (auto simp: clogged_def SelectableQueue_push_step_def)
  moreover have "\<not> in_results (workers s ! k)"
  proof
    assume "in_results (workers s ! k)"
    with k m have "results_mutex s = Some (Worker k)"
      by (simp add: mutexes_ok_def agree_def)
    with c \<open>k \<noteq> i\<close> show False by (simp add: clogged_def)
  qed
  ultimately show ?thesis using c k p
    by (cases "workers s ! k")
      (auto simp: SelectableQueue_push_step_def clogged_def split: if_splits)
qed

lemma clogged_start:
  "clogged cap i s \<Longrightarrow>
   clogged cap i (WorkerPool_start created s) \<and> delivered (WorkerPool_start created s) = delivered s"
  using start_eq [of created s] by (auto simp: clogged_def nth_append)

lemma clogged_step:
  "pool_step proc cap a s = Some s' \<Longrightarrow> mutexes_ok s \<Longrightarrow> clogged cap i s \<Longrightarrow> succeeds a \<Longrightarrow>
   clogged cap i s' \<and> delivered s' = delivered s"
proof (induction rule: pool_step_cases)
  case (start created) then show ?case by (simp add: clogged_start)
next
  case (push ok p)
  then show ?case
    by (cases "producers s p") (auto simp: Queue_push_step_def clogged_def split: if_splits)
next
  case (pop k ok) from pop(5,2,3) show ?case by (rule clogged_pop)
next
  case (results k ok)
  then have "SelectableQueue_push_step cap True k s = Some s'" by simp
  with results(4,5,2) show ?case by (rule clogged_push)
next
  case (wake k)
  then have "k \<noteq> i" by (auto simp: clogged_def)
  with wake show ?case by (simp add: clogged_others)
next
  case (signal p k)
  then have "k \<noteq> i" by (auto simp: clogged_def)
  with signal show ?case by (simp add: clogged_def)
next
  case (proc k ok j)
  then have "k \<noteq> i" by (auto simp: clogged_def)
  with proc show ?case by (simp add: clogged_others)
next
  case (consume ok)
  then show ?case by (auto simp: clogged_def SelectableQueue_pop_step_def)
qed (simp_all add: clogged_def)

lemma clogged_forever:
  assumes "reachable proc cap s" and "clogged cap i s" and "continues proc cap s t"
  shows "clogged cap i t \<and> delivered t = delivered s"
proof -
  from assms(3) have "reachable proc cap t \<and> clogged cap i t \<and> delivered t = delivered s"
  proof (induction rule: continues.induct)
    case here
    with assms show ?case by simp
  next
    case (further t a t')
    then have "mutexes_ok t" by (blast intro: mutex.always)
    moreover from further have "clogged cap i t" by simp
    ultimately have "clogged cap i t' \<and> delivered t' = delivered t"
      by (rule clogged_step [OF further(3) _ _ further(2)])
    with further show ?case by (auto intro: reachable.step)
  qed
  then show ?thesis by simp
qed

text \<open>How it happens: one worker, and as many jobs as the pipe has room for, and one more, before the
  reader is scheduled; then the reader reads a byte and the worker comes first at the mutex.\<close>

fun execute :: "(nat \<Rightarrow> 'j \<Rightarrow> 'j) \<Rightarrow> nat \<Rightarrow> 'j action list \<Rightarrow> 'j pool \<Rightarrow> 'j pool option" where
  "execute proc cap [] s = Some s"
| "execute proc cap (a # as) s =
     (case pool_step proc cap a s of None \<Rightarrow> None | Some s' \<Rightarrow> execute proc cap as s')"

lemma reachable_execute:
  "reachable proc cap s \<Longrightarrow> execute proc cap as s = Some s' \<Longrightarrow> reachable proc cap s'"
  by (induction as arbitrary: s) (auto split: option.splits intro: reachable.step)

text \<open>One worker, idle or about to write its byte; \<open>k\<close> bytes in the pipe.\<close>

definition lone_worker :: "'j worker \<Rightarrow> thread_id option \<Rightarrow> consumer \<Rightarrow> nat \<Rightarrow> 'j pool \<Rightarrow> bool" where
  "lone_worker w m c k s \<longleftrightarrow>
     workers s = [w] \<and> producers s 0 = Idle \<and> jobs s = [] \<and> jobs_mutex s = None \<and>
     results_mutex s = m \<and> pipe_bytes s = k \<and> consumer s = c \<and> \<not> exited s \<and> delivered s = [] \<and>
     dropped_bytes s = 0"

definition hand_over :: "'j \<Rightarrow> 'j action list" where
  "hand_over j = Call_push 0 j # replicate 4 (Run_producer 0 True)"

definition work :: "'j action list" where
  "work = replicate 6 (Run_worker 0 True)"

lemma execute_append:
  "execute proc cap (as @ bs) s =
     (case execute proc cap as s of None \<Rightarrow> None | Some s' \<Rightarrow> execute proc cap bs s')"
  by (induction as arbitrary: s) (simp_all split: option.split)

lemma push_phase:
  assumes "lone_worker Lock_jobs None c k s"
  shows "\<exists>s'. execute proc cap (hand_over j) s = Some s' \<and>
           lone_worker Lock_jobs None c k (s'\<lparr>jobs := []\<rparr>) \<and> jobs s' = [j]"
  using assms
  by (simp add: hand_over_def numeral_eq_Suc lone_worker_def pool_step_def Queue_push_step_def)

lemma work_phase:
  assumes "lone_worker Lock_jobs None c k (s\<lparr>jobs := []\<rparr>)" and "jobs s = [j]"
  shows "\<exists>s'. execute proc cap work s = Some s' \<and> lone_worker Write_byte (Some (Worker 0)) c k s'"
  using assms
  by (simp add: work_def numeral_eq_Suc lone_worker_def pool_step_def run_worker_step_def
      Queue_pop_step_def SelectableQueue_push_step_def)

lemma write_phase:
  assumes "lone_worker Write_byte (Some (Worker 0)) c k s" and "k < cap"
  shows "\<exists>s'. execute proc cap (replicate 2 (Run_worker 0 True)) s = Some s' \<and>
           lone_worker Lock_jobs None c (Suc k) s'"
  using assms
  by (simp add: numeral_eq_Suc lone_worker_def pool_step_def run_worker_step_def
      SelectableQueue_push_step_def)

lemma reach_write:
  assumes "reachable proc cap s" and "lone_worker Lock_jobs None c k s"
  obtains s' where "reachable proc cap s'" "lone_worker Write_byte (Some (Worker 0)) c k s'"
proof -
  from push_phase [OF assms(2), of proc cap undefined] obtain s1 where
    s1: "execute proc cap (hand_over undefined) s = Some s1"
      "lone_worker Lock_jobs None c k (s1\<lparr>jobs := []\<rparr>)" "jobs s1 = [undefined]" by blast
  from work_phase [OF s1(2,3), of proc cap] obtain s2 where
    s2: "execute proc cap work s1 = Some s2" "lone_worker Write_byte (Some (Worker 0)) c k s2"
    by blast
  from reachable_execute [OF assms(1) s1(1)] have "reachable proc cap s1" .
  from reachable_execute [OF this s2(1)] s2(2) show ?thesis by (rule that)
qed

lemma reach_next:
  assumes "reachable proc cap s" and "lone_worker Lock_jobs None c k s" and "k < cap"
  obtains s' where "reachable proc cap s'" "lone_worker Lock_jobs None c (Suc k) s'"
proof -
  from reach_write [OF assms(1,2)] obtain s1 where
    s1: "reachable proc cap s1" "lone_worker Write_byte (Some (Worker 0)) c k s1" .
  from write_phase [OF s1(2) assms(3), of proc] obtain s2 where
    "execute proc cap (replicate 2 (Run_worker 0 True)) s1 = Some s2"
    "lone_worker Lock_jobs None c (Suc k) s2" by blast
  with reachable_execute [OF s1(1)] show ?thesis using that by blast
qed

lemma reach_full: "k \<le> cap \<Longrightarrow> \<exists>s. reachable proc cap s \<and> lone_worker Lock_jobs None Outside k s"
proof (induction k)
  case 0
  have "execute proc cap [Call_start [True]] WorkerPool_new =
      Some (WorkerPool_start [True] WorkerPool_new)"
    by (simp add: pool_step_def WorkerPool_new_def)
  from reachable_execute [OF reachable.new this]
  have "reachable proc cap (WorkerPool_start [True] WorkerPool_new)" .
  moreover have "lone_worker Lock_jobs None Outside 0 (WorkerPool_start [True] WorkerPool_new)"
    by (simp add: lone_worker_def WorkerPool_start_def WorkerPool_new_def)
  ultimately show ?case by blast
next
  case (Suc k)
  then obtain s where "reachable proc cap s" "lone_worker Lock_jobs None Outside k s" by auto
  from reach_next [OF this] Suc.prems show ?case by (metis Suc_le_eq)
qed

lemma reach_clogged:
  assumes "0 < cap"
  obtains s where "reachable proc cap s" "clogged cap 0 s" "delivered s = []"
    "length (results s) = Suc (Suc cap)"
proof -
  obtain s where s: "reachable proc cap s" "lone_worker Lock_jobs None Outside cap s"
    using reach_full by blast
  have "\<exists>s'. execute proc cap [Call_pop, Run_consumer True] s = Some s' \<and>
      lone_worker Lock_jobs None Lock_pop (cap - 1) s'"
    using s(2) assms by (simp add: lone_worker_def pool_step_def SelectableQueue_pop_step_def)
  then obtain s1 where s1: "execute proc cap [Call_pop, Run_consumer True] s = Some s1"
    "lone_worker Lock_jobs None Lock_pop (cap - 1) s1" by blast
  from reach_next [OF reachable_execute [OF s(1) s1(1)] s1(2)] assms obtain s2 where
    s2: "reachable proc cap s2" "lone_worker Lock_jobs None Lock_pop (Suc (cap - 1)) s2" by auto
  from reach_write [OF this] assms obtain s3 where
    s3: "reachable proc cap s3" "lone_worker Write_byte (Some (Worker 0)) Lock_pop cap s3" by auto
  have "clogged cap 0 s3" "delivered s3 = []"
    using s3(2) by (simp_all add: lone_worker_def clogged_def)
  moreover have "length (results s3) = Suc (Suc cap)"
    using bytes.always [OF s3(1)] s3(2) by (simp add: lone_worker_def bytes_ok_def total_def)
  ultimately show ?thesis using that s3(1) by blast
qed

section \<open>Properties\<close>

text \<open>C23. In every reachable state of the pool (any number of workers and pushing threads, any
  interleaving, failing system calls included) the jobs pushed are exactly those still queued, those
  in the hands of a worker, those in the result queue and those delivered, each as often as it was
  pushed, where a job is identified by what \<open>proc\<close> leaves unchanged; jobs leave the queue in the
  order of their pushes and results are delivered in the order of theirs.\<close>

theorem pool_conserves_jobs:
  assumes "reachable proc cap s" and "\<And>i j. key (proc i j) = key j"
  shows "mset (map key (submitted s)) =
           mset (map key (jobs s)) + mset (map key (concat (map carried (workers s)))) +
           mset (map key (results s)) + mset (map key (delivered s)) \<and>
         submitted s = taken s @ jobs s \<and> finished s = delivered s @ results s"
proof -
  have "flow_ok key s" using flow.always [OF assms(1)] assms(2) by blast
  moreover have "total (\<lambda>w. mset (map key (carried w))) ws = mset (map key (concat (map carried ws)))"
    for ws by (induction ws) (simp_all add: total_def)
  ultimately show ?thesis by (simp add: flow_ok_def ac_simps)
qed

definition sample_actions :: "(nat \<times> nat) action list" where
  "sample_actions = Call_start [True] # hand_over (1, 5) @ work @ replicate 2 (Run_worker 0 True) @
     hand_over (2, 6) @ replicate 3 (Run_worker 0 True) @ Call_pop # replicate 4 (Run_consumer True)"

definition sample_proc :: "nat \<Rightarrow> nat \<times> nat \<Rightarrow> nat \<times> nat" where
  "sample_proc i j = (fst j, snd j + 10)"

definition sample_pool :: "(nat \<times> nat) pool" where
  "sample_pool = (case execute sample_proc 2 sample_actions WorkerPool_new of
     Some s \<Rightarrow> s | None \<Rightarrow> WorkerPool_new)"

lemma sample_reachable: "reachable sample_proc 2 sample_pool"
  unfolding sample_pool_def
  by (auto split: option.split intro: reachable.new reachable_execute)

lemma sample_pool_values:
  "submitted sample_pool = [(1, 5), (2, 6)]" "delivered sample_pool = [(1, 15)]"
  "workers sample_pool = [Proc (2, 6)]" "jobs sample_pool = []" "results sample_pool = []"
  "pipe_bytes sample_pool = 0" "consumer sample_pool = Outside" "exited sample_pool = False"
  "dropped_bytes sample_pool = 0"
  by (simp_all add: sample_pool_def sample_actions_def hand_over_def work_def numeral_eq_Suc
      WorkerPool_new_def pool_step_def WorkerPool_start_def Queue_push_step_def run_worker_step_def
      Queue_pop_step_def SelectableQueue_push_step_def SelectableQueue_pop_step_def sample_proc_def)

lemma pool_conserves_jobs_witness:
  "mset (map fst (submitted sample_pool)) =
     mset (map fst (jobs sample_pool)) +
     mset (map fst (concat (map carried (workers sample_pool)))) +
     mset (map fst (results sample_pool)) + mset (map fst (delivered sample_pool)) \<and>
   submitted sample_pool = [(1, 5), (2, 6)] \<and> delivered sample_pool = [(1, 15)]"
  by (intro conjI, rule conjunct1 [OF pool_conserves_jobs [OF sample_reachable]])
    (simp_all add: sample_proc_def sample_pool_values)

text \<open>C24. The pipe mirrors the result queue: in every reachable state the bytes in the pipe, the byte
  a reader has read and not yet used, the bytes workers are about to write and the bytes lost to a
  failing lock in \<open>pop\<close> add up to the number of queued results. So a reader that got a byte never
  finds the queue empty: the error branch of \<open>SelectableQueue::pop\<close> is dead.\<close>

theorem pipe_mirrors_results:
  assumes "reachable proc cap s"
  shows "pipe_bytes s + (if consumer s = Lock_pop \<or> consumer s = Take then 1 else 0) +
           length (filter (\<lambda>w. w = Write_byte) (workers s)) + dropped_bytes s =
           length (results s) \<and>
         (consumer s = Take \<longrightarrow> results s \<noteq> []) \<and> consumer s \<noteq> Unlock_empty"
proof -
  have "total writing ws = length (filter (\<lambda>w. w = Write_byte) ws)" for ws :: "'a worker list"
  proof (induction ws)
    case (Cons w ws)
    then show ?case by (cases w) (simp_all add: total_def)
  qed (simp add: total_def)
  with bytes.always [OF assms] show ?thesis by (auto simp: bytes_ok_def)
qed

lemma pipe_mirrors_results_witness:
  "pipe_bytes sample_pool +
     (if consumer sample_pool = Lock_pop \<or> consumer sample_pool = Take then 1 else 0) +
     length (filter (\<lambda>w. w = Write_byte) (workers sample_pool)) + dropped_bytes sample_pool =
     length (results sample_pool)"
  by (rule conjunct1 [OF pipe_mirrors_results [OF sample_reachable]])

text \<open>C25. No lost wake-up and no deadlock short of a full pipe: in every reachable state of a running
  pool with a worker and a queued job, in which the pipe has room, some thread that is inside a call
  can take its next step, without any new call, failure or spurious wake-up.\<close>

theorem pool_makes_progress:
  assumes "reachable proc cap s" and "jobs s \<noteq> []" and "workers s \<noteq> []" and "\<not> exited s"
    and "pipe_bytes s < cap"
  shows "\<exists>a s'. internal a \<and> pool_step proc cap a s = Some s'"
proof -
  note m = mutex.always [OF assms(1)]
  from wake.always [OF assms(1)] assms(2,3)
  consider "signalling (producers s)" | w where "w \<in> set (workers s)" "w \<noteq> Waiting"
    by (auto simp: wake_ok_def)
  then have "can_move proc cap s"
  proof cases
    case 1 then show ?thesis using assms(4) by (rule signaller_moves)
  next
    case 2
    then obtain i where "i < length (workers s)" "workers s ! i \<noteq> Waiting"
      by (auto simp: in_set_conv_nth)
    then show ?thesis using assms(4,5) by (rule awake_worker_moves [OF m])
  qed
  then show ?thesis by (auto simp: can_move_def)
qed

definition queued_pool :: "(nat \<times> nat) pool" where
  "queued_pool = (case execute sample_proc 2 (hand_over (3, 7)) sample_pool of
     Some s \<Rightarrow> s | None \<Rightarrow> sample_pool)"

lemma queued_reachable: "reachable sample_proc 2 queued_pool"
  unfolding queued_pool_def
  by (auto split: option.split intro: sample_reachable reachable_execute)

lemma queued_pool_values:
  "jobs queued_pool = [(3, 7)]" "workers queued_pool = [Proc (2, 6)]" "exited queued_pool = False"
  "pipe_bytes queued_pool = 0"
  by (simp_all add: queued_pool_def sample_pool_def sample_actions_def hand_over_def work_def
      numeral_eq_Suc WorkerPool_new_def pool_step_def WorkerPool_start_def Queue_push_step_def
      run_worker_step_def Queue_pop_step_def SelectableQueue_push_step_def
      SelectableQueue_pop_step_def sample_proc_def)

lemma pool_makes_progress_witness:
  "\<exists>a s'. internal a \<and> pool_step sample_proc 2 a queued_pool = Some s'"
  by (rule pool_makes_progress [OF queued_reachable]) (simp_all add: queued_pool_values)

text \<open>C26. The full pipe deadlocks the pool for good: for every capacity of the pipe a run leads to a
  state with results waiting to be read in which the worker holds the result mutex and waits for room
  in the pipe while the reader, its byte already read, waits for that mutex; whatever the other
  threads do from there on, no result is ever delivered.\<close>

theorem full_pipe_deadlock:
  assumes "0 < cap"
  shows "\<exists>s. reachable proc cap s \<and> length (results s) = cap + 2 \<and> delivered s = [] \<and>
           (\<forall>t. continues proc cap s t \<longrightarrow>
              delivered t = [] \<and> consumer t = Lock_pop \<and> results_mutex t = Some (Worker 0))"
proof -
  from reach_clogged [OF assms] obtain s :: "'a pool" where s: "reachable proc cap s"
    "clogged cap 0 s" "delivered s = []" "length (results s) = Suc (Suc cap)" .
  from clogged_forever [OF s(1,2)] s(3)
  have "continues proc cap s t \<Longrightarrow>
      delivered t = [] \<and> consumer t = Lock_pop \<and> results_mutex t = Some (Worker 0)" for t
    by (auto simp: clogged_def)
  with s(1,3,4) show ?thesis by auto
qed

lemma full_pipe_deadlock_witness:
  "\<exists>s. reachable sample_proc 65536 s \<and> length (results s) = 65538 \<and> delivered s = [] \<and>
     (\<forall>t. continues sample_proc 65536 s t \<longrightarrow>
        delivered t = [] \<and> consumer t = Lock_pop \<and> results_mutex t = Some (Worker 0))"
  using full_pipe_deadlock [of 65536 sample_proc] by simp

end
