(* ===== verification/Config.thy ===== *)
theory Config
  imports CStrings
begin

text \<open>
  \<open>server-5204/util/config.h\<close> and \<open>config.cpp\<close>: the configuration tree, its file format and the
  lookup by path. A node owns its children, so the tree is a datatype. While a file is read, the
  pointer \<open>cfg\<close> with its chain of parents is a stack of open nodes, innermost first, each with the
  children that are already closed. What the file system answers is a parameter.
\<close>

section \<open>State\<close>

datatype config = Node (ckey: string) (cval: string) (depth: nat) (children: "config list")

abbreviation (input) "TAB \<equiv> CHR 0x09"
abbreviation (input) "NEWLINE \<equiv> CHR 0x0A"
abbreviation (input) "NUL \<equiv> CHR 0x00"
abbreviation (input) CONFIG_MAX_LINE :: nat where "CONFIG_MAX_LINE \<equiv> 4096"

definition is_comment :: "config \<Rightarrow> bool" where
  "is_comment c \<longleftrightarrow> ckey c \<noteq> [] \<and> hd (ckey c) = CHR ''#''"

definition is_kv_seperator :: "char \<Rightarrow> bool" where
  "is_kv_seperator ch \<longleftrightarrow> ch = CHR ''='' \<or> ch = CHR '':''"

section \<open>Reading and changing entries\<close>

text \<open>The fields of a path, cut at dots and slashes.\<close>

fun split_path :: "string \<Rightarrow> string list" where
  "split_path [] = [[]]"
| "split_path (c # s) =
     (if c = CHR ''.'' \<or> c = CHR ''/'' then [] # split_path s
      else (c # hd (split_path s)) # tl (split_path s))"

definition path_fields :: "string \<Rightarrow> string list" where
  "path_fields key = split_path (take (CONFIG_MAX_LINE - 1) (c_str key))"

text \<open>The last child with the key.\<close>

definition find_child :: "string \<Rightarrow> config \<Rightarrow> config option" where
  "find_child key c = find (\<lambda>d. ckey d = key) (rev (children c))"

fun get_fields :: "string list \<Rightarrow> config \<Rightarrow> config option" where
  "get_fields [] conf = Some conf"
| "get_fields (f # fs) conf =
     (case find_child f conf of None \<Rightarrow> None | Some c \<Rightarrow> get_fields fs c)"

definition config_get :: "string \<Rightarrow> config \<Rightarrow> config option" where
  "config_get key conf = get_fields (path_fields key) conf"

definition config_num :: "config \<Rightarrow> int" where
  "config_num c = atoi (cval c)"

definition get_num :: "string \<Rightarrow> config \<Rightarrow> int" where
  "get_num key conf = (case config_get key conf of None \<Rightarrow> 0 | Some c \<Rightarrow> config_num c)"

definition get_int64 :: "string \<Rightarrow> config \<Rightarrow> int \<Rightarrow> int \<times> int" where
  "get_int64 key conf errno =
     (case config_get key conf of None \<Rightarrow> (0, errno) | Some c \<Rightarrow> str_to_int64 (cval c) errno)"

definition get_str :: "string \<Rightarrow> config \<Rightarrow> string" where
  "get_str key conf = (case config_get key conf of None \<Rightarrow> [] | Some c \<Rightarrow> cval c)"

definition add_child :: "config \<Rightarrow> config \<Rightarrow> config" where
  "add_child c p = Node (ckey p) (cval p) (depth p) (children p @ [c])"

definition new_child :: "string \<Rightarrow> string \<Rightarrow> config \<Rightarrow> config" where
  "new_child key val p = Node key val (depth p + 1) []"

text \<open>Change the last child with the key in place.\<close>

fun change_child :: "string \<Rightarrow> (config \<Rightarrow> config) \<Rightarrow> config list \<Rightarrow> config list" where
  "change_child key f [] = []"
| "change_child key f (d # ds) =
     (if ckey d = key \<and> key \<notin> set (map ckey ds) then f d # ds
      else d # change_child key f ds)"

text \<open>\<open>build_key_path\<close> walks down and adds what is missing; \<open>set\<close> writes the value at its end.\<close>

fun set_fields :: "string list \<Rightarrow> string \<Rightarrow> config \<Rightarrow> config" where
  "set_fields [] val conf = Node (ckey conf) val (depth conf) (children conf)"
| "set_fields (f # fs) val conf =
     (case find_child f conf of
        Some c \<Rightarrow> Node (ckey conf) (cval conf) (depth conf)
                    (change_child f (set_fields fs val) (children conf))
      | None \<Rightarrow> add_child (set_fields fs val (new_child f [] conf)) conf)"

definition config_set :: "string \<Rightarrow> string \<Rightarrow> config \<Rightarrow> config" where
  "config_set key val conf = set_fields (path_fields key) (c_str val) conf"

section \<open>Loading a file\<close>

text \<open>\<open>fgets\<close> with a buffer of \<open>n\<close> bytes: the bytes it reads, and the rest of the input.\<close>

fun fgets :: "nat \<Rightarrow> string \<Rightarrow> string \<times> string" where
  "fgets n [] = ([], [])"
| "fgets n (c # s) =
     (if n \<le> 1 then ([], c # s)
      else if c = NEWLINE then ([c], s)
      else (let (l, r) = fgets (n - 1) s in (c # l, r)))"

text \<open>The constructor; a null pointer leaves the empty string.\<close>

definition Config_new :: "string option \<Rightarrow> string option \<Rightarrow> config" where
  "Config_new key val =
     Node (case key of None \<Rightarrow> [] | Some k \<Rightarrow> k) (case val of None \<Rightarrow> [] | Some v \<Rightarrow> v) 0 []"

definition root_node :: config where
  "root_node = Node ''root'' [] 0 []"

lemma root_node_new: "root_node = Config_new (Some ''root'') (Some [])"
  by (simp add: root_node_def Config_new_def)

text \<open>The destructor deletes the children first; the nodes in the order in which they are freed.\<close>

fun Config_destroy :: "config \<Rightarrow> config list" where
  "Config_destroy (Node k v d cs) = concat (map Config_destroy cs) @ [Node k v d cs]"

text \<open>Every node of the tree is freed, and none twice: there are as many as the tree has constructors.\<close>

fun node_count :: "config \<Rightarrow> nat" where
  "node_count (Node k v d cs) = Suc (sum_list (map node_count cs))"

lemma destroy_frees_all: "length (Config_destroy c) = node_count c"
proof (induction c)
  case (Node k v d cs)
  then have same: "map (length \<circ> Config_destroy) cs = map node_count cs" by simp
  show ?case by (simp add: length_concat same del: map_eq_conv)
qed

text \<open>\<open>cfg = cfg->parent\<close>, unless \<open>cfg\<close> is the root.\<close>

fun up :: "config list \<Rightarrow> config list" where
  "up (c # p # st) = add_child c p # st"
| "up st = st"

fun root_of :: "config list \<Rightarrow> config" where
  "root_of [] = root_node"
| "root_of [c] = c"
| "root_of (c # p # st) = root_of (add_child c p # st)"

text \<open>One line, its last character already cut off; \<^const>\<open>None\<close> is the jump to \<open>err\<close>.\<close>

definition load_line :: "string \<Rightarrow> config list \<times> nat \<Rightarrow> (config list \<times> nat) option" where
  "load_line buf s =
     (let (st, last_indent) = s in
      if is_empty_str buf then Some (st, last_indent)
      else
        (let indent = length (takeWhile (\<lambda>c. c = TAB) buf); key = drop indent buf in
         if key \<noteq> [] \<and> hd key = CHR ''#''
         then Some (add_child (new_child ''#'' (tl key) (hd st)) (hd st) # tl st, last_indent)
         else if last_indent + 1 < indent then None
         else
           (let st = (if indent \<le> last_indent then (up ^^ (last_indent - indent + 1)) st else st) in
            if key \<noteq> [] \<and> isspace (hd key) then None
            else
              (let name = takeWhile (\<lambda>c. \<not> is_kv_seperator c) key;
                   val = dropWhile (\<lambda>c. \<not> is_kv_seperator c) key in
               if val = [] then None
               else Some (new_child (trim name) (trim (tl val)) (hd st) # st, indent)))))"

text \<open>The loop: \<open>buf[strlen(buf) - 1] = 0\<close> cuts the last character of what \<open>fgets\<close> read, and
  writes before the buffer when the line starts with a NUL.\<close>

lemma fgets_rest: "1 < n \<Longrightarrow> s \<noteq> [] \<Longrightarrow> length (snd (fgets n s)) < length s"
proof (induction n s rule: fgets.induct)
  case (2 n c s)
  show ?case
  proof (cases "c = NEWLINE \<or> n = 2 \<or> s = []")
    case True
    with 2(2) show ?thesis by (cases s) auto
  next
    case False
    with 2(2) have "1 < n - 1" by auto
    with 2 False show ?thesis by (auto split: prod.split)
  qed
qed simp

function load_loop :: "string \<Rightarrow> config list \<times> nat \<Rightarrow> config option outcome" where
  "load_loop input s =
     (if input = [] then Done (Some (root_of (fst s)))
      else
        (let buf = c_str (fst (fgets CONFIG_MAX_LINE input)) in
         if buf = [] then Fault Out_of_bounds
         else case load_line (butlast buf) s of
           None \<Rightarrow> Done None
         | Some s' \<Rightarrow> load_loop (snd (fgets CONFIG_MAX_LINE input)) s'))"
  by pat_completeness auto
termination
  by (relation "measure (\<lambda>(input, s). length input)") (auto intro: fgets_rest)

declare load_loop.simps [simp del]

text \<open>\<open>load\<close>: the name \<open>stdout\<close> stands for the standard input. The file system gives the contents of
  a file that opens; a read error is reported after the loop.\<close>

definition load :: "(string \<Rightarrow> string option) \<Rightarrow> string \<Rightarrow> bool \<Rightarrow> string \<Rightarrow> config option outcome" where
  "load files stdin ferror filename =
     (let source = (if filename = ''stdout'' then Some stdin else files filename) in
      case source of
        None \<Rightarrow> Done None
      | Some input \<Rightarrow>
          (case load_loop input ([root_node], 0) of
             Done (Some c) \<Rightarrow> if ferror then Done None else Done (Some c)
           | r \<Rightarrow> r))"

section \<open>Saving\<close>

definition entry_text :: "config \<Rightarrow> string" where
  "entry_text c =
     (if is_comment c then CHR ''#'' # c_str (cval c)
      else c_str (ckey c) @ '': '' @ c_str (cval c))"

fun save :: "config \<Rightarrow> string" where
  "save (Node key val d cs) =
     concat (map (\<lambda>c. replicate d TAB @ entry_text c @ [NEWLINE] @ save c) cs)"

datatype sink = Stdout | Stderr | File string

text \<open>\<open>save(filename)\<close>: what is written where, and the result; \<open>writable\<close> says which files open.\<close>

definition save_to :: "(string \<Rightarrow> bool) \<Rightarrow> string \<Rightarrow> config \<Rightarrow> (sink \<times> string) option \<times> int" where
  "save_to writable filename c =
     (if filename = ''stdout'' then (Some (Stdout, save c), 0)
      else if filename = ''stderr'' then (Some (Stderr, save c), 0)
      else if writable filename then (Some (File filename, save c), 0)
      else (None, - 1))"

section \<open>A tree as a function from paths to values\<close>

definition value_at :: "string list \<Rightarrow> config \<Rightarrow> string" where
  "value_at fs c = (case get_fields fs c of None \<Rightarrow> [] | Some d \<Rightarrow> cval d)"

lemma find_child_append:
  "find_child k (add_child d c) = (if ckey d = k then Some d else find_child k c)"
  by (simp add: find_child_def add_child_def)

lemma find_rev_Cons:
  "find P (rev (d # ds)) = (case find P (rev ds) of None \<Rightarrow> if P d then Some d else None | r \<Rightarrow> r)"
proof -
  have "find P (xs @ [d]) = (case find P xs of None \<Rightarrow> if P d then Some d else None | r \<Rightarrow> r)" for xs
    by (induction xs) simp_all
  then show ?thesis by simp
qed

lemma find_rev_None: "find (\<lambda>d. ckey d = k) (rev ds) = None \<longleftrightarrow> k \<notin> set (map ckey ds)"
  by (auto simp: find_None_iff image_iff)

lemma find_change_child:
  assumes "\<And>d. ckey (f d) = ckey d"
  shows "find (\<lambda>d. ckey d = q) (rev (change_child k f ds)) =
    (if q = k then map_option f (find (\<lambda>d. ckey d = k) (rev ds))
     else find (\<lambda>d. ckey d = q) (rev ds))"
proof (induction ds)
  case (Cons d ds)
  show ?case
  proof (cases "k \<in> set (map ckey ds)")
    case True
    then have "find (\<lambda>d. ckey d = k) (rev ds) \<noteq> None" by (simp only: find_rev_None not_not)
    with True Cons show ?thesis
      by (auto simp del: rev.simps(2) simp: find_rev_Cons split: option.splits)
  next
    case False
    then have "find (\<lambda>d. ckey d = k) (rev ds) = None" by (simp only: find_rev_None not_False_eq_True)
    with False Cons assms show ?thesis
      by (auto simp del: rev.simps(2) simp: find_rev_Cons split: option.splits)
  qed
qed simp

lemma ckey_set_fields [simp]: "ckey (set_fields fs v c) = ckey c"
  by (cases fs) (simp_all add: add_child_def split: option.split)

lemma find_set_fields:
  "find_child q (set_fields (f # fs) v c) =
     (if q = f then Some (set_fields fs v (case find_child f c of Some d \<Rightarrow> d | None \<Rightarrow> new_child f [] c))
      else find_child q c)"
proof (cases "find_child f c")
  case None
  then show ?thesis by (simp add: find_child_append new_child_def)
next
  case (Some d)
  then show ?thesis by (simp add: find_child_def find_change_child)
qed

lemma value_at_fresh: "value_at qs (new_child f [] c) = []"
  by (cases qs) (simp_all add: value_at_def new_child_def find_child_def)

lemma value_at_set: "value_at qs (set_fields ps v c) = (if qs = ps then v else value_at qs c)"
proof (induction ps arbitrary: qs c)
  case Nil
  then show ?case by (cases qs) (simp_all add: value_at_def find_child_def)
next
  case (Cons p ps)
  show ?case
  proof (cases qs)
    case Nil
    then show ?thesis by (simp add: value_at_def add_child_def split: option.split)
  next
    case (Cons q qs')
    have step: "value_at (q # qs') d =
        (case find_child q d of None \<Rightarrow> [] | Some e \<Rightarrow> value_at qs' e)" for d
      by (simp add: value_at_def split: option.split)
    have "value_at qs (set_fields (p # ps) v c) =
        (if q = p then value_at qs' (set_fields ps v
             (case find_child p c of Some d \<Rightarrow> d | None \<Rightarrow> new_child p [] c))
         else value_at qs c)"
      unfolding Cons step find_set_fields by simp
    then show ?thesis unfolding Cons.IH Cons
      by (auto simp: step value_at_fresh split: option.split)
  qed
qed

section \<open>Well-formed trees\<close>

definition plain :: "string \<Rightarrow> bool" where
  "plain s \<longleftrightarrow> NUL \<notin> set s \<and> NEWLINE \<notin> set s"

definition good_comment :: "config \<Rightarrow> bool" where
  "good_comment c \<longleftrightarrow> ckey c = ''#'' \<and> plain (cval c) \<and> children c = []"

definition good_entry :: "config \<Rightarrow> bool" where
  "good_entry c \<longleftrightarrow>
     \<not> is_comment c \<and> plain (ckey c) \<and> list_all (\<lambda>x. \<not> is_kv_seperator x) (ckey c) \<and>
     trim (ckey c) = ckey c \<and> plain (cval c) \<and> trim (cval c) = cval c"

text \<open>In every node the comments come before the entries.\<close>

definition ordered :: "config list \<Rightarrow> bool" where
  "ordered cs \<longleftrightarrow> list_all good_comment (takeWhile is_comment cs) \<and>
     list_all good_entry (dropWhile is_comment cs)"

fun well_formed :: "config \<Rightarrow> bool" where
  "well_formed (Node k v d cs) \<longleftrightarrow>
     ordered cs \<and> (\<forall>c \<in> set cs. depth c = Suc d \<and> well_formed c)"

definition raw_line :: "nat \<Rightarrow> config \<Rightarrow> string" where
  "raw_line d c = replicate d TAB @ entry_text c"

fun save_lines :: "config \<Rightarrow> string list" where
  "save_lines (Node k v d cs) = concat (map (\<lambda>c. raw_line d c # save_lines c) cs)"

fun load_lines :: "string list \<Rightarrow> config list \<times> nat \<Rightarrow> (config list \<times> nat) option" where
  "load_lines [] s = Some s"
| "load_lines (l # ls) s = (case load_line l s of None \<Rightarrow> None | Some s' \<Rightarrow> load_lines ls s')"

definition as_text :: "string list \<Rightarrow> string" where
  "as_text ls = concat (map (\<lambda>l. l @ [NEWLINE]) ls)"

lemma as_text_simps [simp]: "as_text [] = []" "as_text (l # ls) = l @ NEWLINE # as_text ls"
  "as_text (ks @ ls) = as_text ks @ as_text ls"
  by (simp_all add: as_text_def)

lemma as_text_concat: "as_text (concat lss) = concat (map as_text lss)"
  by (induction lss) simp_all

lemma save_as_text: "save c = as_text (save_lines c)"
proof (induction c rule: save.induct)
  case (1 k v d cs)
  then show ?case by (simp add: as_text_concat raw_line_def comp_def cong: map_cong)
qed

lemma load_lines_append:
  "load_lines (ks @ ls) s = (case load_lines ks s of None \<Rightarrow> None | Some s' \<Rightarrow> load_lines ls s')"
  by (induction ks arbitrary: s) (simp_all split: option.split)

lemma fgets_line:
  "NEWLINE \<notin> set l \<Longrightarrow> Suc (length l) < n \<Longrightarrow> fgets n (l @ NEWLINE # r) = (l @ [NEWLINE], r)"
  by (induction l arbitrary: n) auto

lemma load_loop_lines:
  assumes "list_all (\<lambda>l. plain l \<and> length l < 4095) ls" and "load_lines ls s = Some s'"
  shows "load_loop (as_text ls) s = Done (Some (root_of (fst s')))"
  using assms
proof (induction ls arbitrary: s)
  case Nil
  then show ?case by (subst load_loop.simps) simp
next
  case (Cons l ls)
  then have l: "fgets 4096 (l @ NEWLINE # as_text ls) = (l @ [NEWLINE], as_text ls)"
    "c_str (l @ [NEWLINE]) = l @ [NEWLINE]"
    by (auto simp: plain_def intro!: fgets_line c_str_id)
  from Cons.prems obtain s1 where s1: "load_line l s = Some s1" "load_lines ls s1 = Some s'"
    by (auto split: option.splits)
  with l Cons show ?case
    by (subst load_loop.simps) (simp add: Let_def)
qed

section \<open>One line of a saved file\<close>

lemma isspace_simps [simp]: "isspace CHR '' ''" "isspace TAB" "\<not> isspace CHR '':''"
  "\<not> isspace CHR ''#''" "is_kv_seperator CHR '':''"
  by (simp_all add: isspace_def is_kv_seperator_def code_of_def)

lemma not_empty_str: "x \<in> set (c_str s) \<Longrightarrow> \<not> isspace x \<Longrightarrow> \<not> is_empty_str s"
  by (auto simp: is_empty_str_def ltrim_def)

lemma trim_hd:
  assumes "trim s = s" and "s \<noteq> []"
  shows "\<not> isspace (hd s)"
proof -
  obtain x where "ltrim s = s @ x"
    using rtrim_split [of "ltrim s"] assms(1) by (auto simp: trim_def)
  with assms(2) ltrim_first [of s] show ?thesis by simp
qed

lemma trim_space [simp]: "trim (CHR '' '' # s) = trim s"
  by (simp add: trim_def ltrim_def c_str_def)

lemma line_parts:
  assumes "x \<noteq> TAB"
  shows "takeWhile (\<lambda>c. c = TAB) (replicate d TAB @ x # xs) = replicate d TAB"
  using assms by (induction d) simp_all

lemma load_comment_line:
  assumes "good_comment c"
  shows "load_line (raw_line d c) (p # st, li) =
    Some (add_child (Node (ckey c) (cval c) (depth p + 1) []) p # st, li)"
proof -
  have c: "ckey c = ''#''" "plain (cval c)" using assms by (simp_all add: good_comment_def)
  then have r: "raw_line d c = replicate d TAB @ CHR ''#'' # cval c"
    by (simp add: raw_line_def entry_text_def is_comment_def plain_def c_str_id)
  have "CHR ''#'' \<in> set (c_str (raw_line d c))" using c by (simp add: r plain_def c_str_id)
  then have "\<not> is_empty_str (raw_line d c)" by (rule not_empty_str) simp
  then show ?thesis using c
    by (simp add: load_line_def r line_parts new_child_def)
qed

lemma entry_line:
  assumes "good_entry c"
  obtains x xs where "entry_text c = x # xs" "x \<noteq> TAB" "\<not> isspace x" "x \<noteq> CHR ''#''"
    "entry_text c = ckey c @ CHR '':'' # CHR '' '' # cval c"
proof -
  have t: "entry_text c = ckey c @ CHR '':'' # CHR '' '' # cval c"
    using assms by (simp add: entry_text_def good_entry_def plain_def c_str_id)
  show ?thesis
  proof (cases "ckey c")
    case Nil
    with t that show ?thesis by simp
  next
    case (Cons x xs)
    with assms trim_hd [of "ckey c"] have "\<not> isspace x" "x \<noteq> CHR ''#''"
      by (auto simp: good_entry_def is_comment_def)
    moreover from this have "x \<noteq> TAB" by auto
    ultimately show ?thesis using that t Cons by simp
  qed
qed

lemma key_value_split:
  assumes "list_all (\<lambda>x. \<not> is_kv_seperator x) k"
  shows "takeWhile (\<lambda>c. \<not> is_kv_seperator c) (k @ CHR '':'' # v) = k"
    and "dropWhile (\<lambda>c. \<not> is_kv_seperator c) (k @ CHR '':'' # v) = CHR '':'' # v"
  using assms by (induction k) simp_all

text \<open>How many levels are closed before an entry of depth \<open>d + 1\<close> is added.\<close>

definition closed :: "nat \<Rightarrow> config list \<Rightarrow> config list" where
  "closed d S = (up ^^ (length S - Suc d)) S"

lemma pops:
  assumes "Suc d \<le> length S"
  shows "\<not> length S - 2 + 1 < d"
    and "(if d \<le> length S - 2 then (up ^^ (length S - 2 - d + 1)) S else S) = closed d S"
proof -
  show "\<not> length S - 2 + 1 < d" using assms by simp
  show "(if d \<le> length S - 2 then (up ^^ (length S - 2 - d + 1)) S else S) = closed d S"
  proof (cases "length S = 1")
    case True
    then obtain x where "S = [x]" by (cases S) auto
    with assms show ?thesis by (simp add: closed_def)
  next
    case False
    show ?thesis
    proof (cases "d \<le> length S - 2")
      case True
      with False assms have "length S - 2 - d + 1 = length S - Suc d" by simp
      with True show ?thesis by (simp add: closed_def)
    next
      case False
      with assms have "length S - Suc d = 0" by simp
      with False show ?thesis by (simp add: closed_def)
    qed
  qed
qed

lemma load_entry_line:
  assumes g: "good_entry c" and S: "Suc d \<le> length S" "closed d S = p # st" "depth p = d"
  shows "load_line (raw_line d c) (S, length S - 2) =
    Some (Node (ckey c) (cval c) (Suc d) [] # p # st, d)"
proof -
  from g obtain x xs where e: "entry_text c = x # xs" "x \<noteq> TAB" "\<not> isspace x" "x \<noteq> CHR ''#''"
    "entry_text c = ckey c @ CHR '':'' # CHR '' '' # cval c" by (rule entry_line)
  have pl: "NUL \<notin> set (raw_line d c)"
    using g by (simp add: raw_line_def e(5) good_entry_def plain_def)
  have "CHR '':'' \<in> set (c_str (raw_line d c))"
    using pl by (simp add: c_str_id) (simp add: raw_line_def e(5))
  then have ne: "\<not> is_empty_str (raw_line d c)" by (rule not_empty_str) simp
  have ind: "length (takeWhile (\<lambda>c. c = TAB) (raw_line d c)) = d"
    "drop d (raw_line d c) = entry_text c"
    using line_parts [OF e(2)] by (simp_all add: raw_line_def e(1))
  have kv: "takeWhile (\<lambda>c. \<not> is_kv_seperator c) (entry_text c) = ckey c"
    "dropWhile (\<lambda>c. \<not> is_kv_seperator c) (entry_text c) = CHR '':'' # CHR '' '' # cval c"
    using g by (simp_all only: e(5) key_value_split good_entry_def)
  have h: "entry_text c \<noteq> []" "hd (entry_text c) \<noteq> CHR ''#''" "\<not> isspace (hd (entry_text c))"
    using e(1,3,4) by simp_all
  have "load_line (raw_line d c) (S, length S - 2) =
      Some (new_child (trim (ckey c)) (trim (tl (CHR '':'' # CHR '' '' # cval c))) (hd (closed d S)) #
        closed d S, d)"
    unfolding load_line_def Let_def prod.case ind kv pops(2) [OF S(1)]
    using ne h pops(1) [OF S(1)] by simp
  then show ?thesis using g S(2,3) by (simp add: new_child_def good_entry_def)
qed

section \<open>Loading a saved tree\<close>

lemma length_up: "length (up S) = (if 2 \<le> length S then length S - 1 else length S)"
  by (cases S rule: up.cases) simp_all

lemma closed_self [simp]: "length st = Suc d \<Longrightarrow> closed d st = st"
  by (simp add: closed_def)

lemma length_closed: "Suc d \<le> length S \<Longrightarrow> length (closed d S) = Suc d"
proof -
  have "n < length S \<Longrightarrow> length ((up ^^ n) S) = length S - n" for n
    by (induction n) (simp_all add: length_up)
  then show "Suc d \<le> length S \<Longrightarrow> length (closed d S) = Suc d" by (simp add: closed_def)
qed

lemma closed_Suc: "Suc (Suc d) \<le> length S \<Longrightarrow> closed d S = up (closed (Suc d) S)"
proof -
  assume "Suc (Suc d) \<le> length S"
  then have "length S - Suc d = Suc (length S - Suc (Suc d))" by simp
  then show ?thesis by (simp add: closed_def)
qed

text \<open>A node of the stack with more closed children.\<close>

definition extend :: "config \<Rightarrow> config list \<Rightarrow> config" where
  "extend p cs = Node (ckey p) (cval p) (depth p) (children p @ cs)"

lemma extend_simps [simp]:
  "extend p [] = p" "extend (extend p cs) ds = extend p (cs @ ds)" "depth (extend p cs) = depth p"
  "add_child c p = extend p [c]" "extend (Node k v d cs) ds = Node k v d (cs @ ds)"
  by (simp_all add: extend_def add_child_def)

lemma load_comments:
  assumes "list_all good_comment cs" and "\<forall>c \<in> set cs. depth c = Suc (depth p)"
  shows "load_lines (concat (map (\<lambda>c. raw_line d c # save_lines c) cs)) (p # st, li) =
    Some (extend p cs # st, li)"
  using assms
proof (induction cs arbitrary: p)
  case (Cons c cs)
  then have c: "good_comment c" "depth c = Suc (depth p)" by simp_all
  then have "c = Node (ckey c) (cval c) (depth p + 1) []" "save_lines c = []"
    by (cases c, simp add: good_comment_def)+
  with load_comment_line [OF c(1), of d p st li] Cons show ?case by simp
qed simp

text \<open>\<open>resumes ls d cs\<close>: from any state in which the nodes below depth \<open>d\<close> can be closed, the lines
  add the children \<open>cs\<close> to the node at depth \<open>d\<close>.\<close>

definition resumes :: "string list \<Rightarrow> nat \<Rightarrow> config list \<Rightarrow> bool" where
  "resumes ls d cs \<longleftrightarrow>
     (\<forall>S p st. Suc d \<le> length S \<longrightarrow> closed d S = p # st \<longrightarrow> depth p = d \<longrightarrow>
        (\<exists>S'. load_lines ls (S, length S - 2) = Some (S', length S' - 2) \<and> Suc d \<le> length S' \<and>
              closed d S' = extend p cs # st))"

lemma resumesD:
  assumes "resumes ls d cs" and "Suc d \<le> length S" and "closed d S = p # st" and "depth p = d"
  obtains S' where "load_lines ls (S, length S - 2) = Some (S', length S' - 2)" "Suc d \<le> length S'"
    "closed d S' = extend p cs # st"
  using assms unfolding resumes_def by blast

lemma resumes_Nil: "resumes [] d []"
  by (simp add: resumes_def)

lemma resumes_append:
  assumes "resumes ks d cs" and "resumes ls d ds"
  shows "resumes (ks @ ls) d (cs @ ds)"
  unfolding resumes_def
proof (intro allI impI)
  fix S p st assume S: "Suc d \<le> length S" "closed d S = p # st" "depth p = d"
  from resumesD [OF assms(1) this] obtain S1 where
    1: "load_lines ks (S, length S - 2) = Some (S1, length S1 - 2)" "Suc d \<le> length S1"
      "closed d S1 = extend p cs # st" .
  from S(3) have "depth (extend p cs) = d" by simp
  from resumesD [OF assms(2) 1(2,3) this] obtain S2 where
    "load_lines ls (S1, length S1 - 2) = Some (S2, length S2 - 2)" "Suc d \<le> length S2"
      "closed d S2 = extend p (cs @ ds) # st" by auto
  with 1(1) show "\<exists>S'. load_lines (ks @ ls) (S, length S - 2) = Some (S', length S' - 2) \<and>
      Suc d \<le> length S' \<and> closed d S' = extend p (cs @ ds) # st"
    by (auto simp: load_lines_append)
qed

lemma resumes_entries:
  assumes "\<And>c. c \<in> set cs \<Longrightarrow> resumes (raw_line d c # save_lines c) d [c]"
  shows "resumes (concat (map (\<lambda>c. raw_line d c # save_lines c) cs)) d cs"
  using assms
proof (induction cs)
  case Nil
  show ?case by (simp add: resumes_Nil)
next
  case (Cons c cs)
  then have "resumes (raw_line d c # save_lines c) d [c]"
    "resumes (concat (map (\<lambda>c. raw_line d c # save_lines c) cs)) d cs" by simp_all
  from resumes_append [OF this] show ?case by simp
qed

lemma save_lines_children:
  assumes "ordered (children c)" and "\<And>b. b \<in> set (children c) \<Longrightarrow> depth b = Suc (depth c)"
    and "\<And>b. b \<in> set (dropWhile is_comment (children c)) \<Longrightarrow>
      resumes (raw_line (depth c) b # save_lines b) (depth c) [b]"
    and that: "length st = depth c"
  shows "\<exists>S. load_lines (save_lines c) (Node (ckey c) (cval c) (depth c) [] # st, length st - 1) =
      Some (S, length S - 2) \<and> Suc (depth c) \<le> length S \<and> closed (depth c) S = c # st"
proof -
  let ?f = "\<lambda>b. raw_line (depth c) b # save_lines b"
  let ?com = "takeWhile is_comment (children c)" and ?ent = "dropWhile is_comment (children c)"
  let ?n = "Node (ckey c) (cval c) (depth c) []"
  have sl: "save_lines c = concat (map ?f ?com) @ concat (map ?f ?ent)"
    by (cases c) (simp flip: concat_append map_append)
  have "list_all good_comment ?com" "\<forall>b \<in> set ?com. depth b = Suc (depth ?n)"
    using assms(1,2) by (auto simp: ordered_def dest: set_takeWhileD)
  from load_comments [OF this] have
    1: "load_lines (concat (map ?f ?com)) (?n # st, length st - 1) =
      Some (extend ?n ?com # st, length st - 1)" .
  have "resumes (concat (map ?f ?ent)) (depth c) ?ent"
    by (rule resumes_entries) (rule assms(3))
  from resumesD [OF this, of "extend ?n ?com # st" "extend ?n ?com" st] that obtain S where
    "load_lines (concat (map ?f ?ent)) (extend ?n ?com # st, length st - 1) = Some (S, length S - 2)"
    "Suc (depth c) \<le> length S" "closed (depth c) S = extend ?n (?com @ ?ent) # st"
    by auto
  moreover have "extend ?n (?com @ ?ent) = c" by (cases c) simp
  ultimately show ?thesis unfolding sl load_lines_append 1 by auto
qed

lemma save_lines_resumes:
  assumes "well_formed c" and "good_entry c" and "depth c = Suc d"
  shows "resumes (raw_line d c # save_lines c) d [c]"
  using assms
proof (induction c arbitrary: d)
  case (Node k v dc cs)
  let ?c = "Node k v dc cs"
  from Node.prems have w: "ordered cs" "\<And>b. b \<in> set cs \<Longrightarrow> depth b = Suc dc \<and> well_formed b"
    and d: "dc = Suc d" by auto
  have ent: "resumes (raw_line (depth ?c) b # save_lines b) (depth ?c) [b]"
    if "b \<in> set (dropWhile is_comment (children ?c))" for b
  proof -
    from that have "b \<in> set cs" by (auto dest: set_dropWhileD)
    moreover from that w(1) have "good_entry b" by (auto simp: ordered_def list_all_iff)
    ultimately show ?thesis using Node.IH [of b dc] w(2) [of b] by simp
  qed
  show ?case unfolding resumes_def
  proof (intro allI impI)
    fix S p st assume S: "Suc d \<le> length S" "closed d S = p # st" "depth p = d"
    from load_entry_line [OF Node.prems(2) S]
    have 1: "load_line (raw_line d ?c) (S, length S - 2) = Some (Node k v (Suc d) [] # p # st, d)"
      by simp
    from length_closed [OF S(1)] S(2) have len: "length (p # st) = Suc d" by simp
    have "\<exists>S'. load_lines (save_lines ?c) (Node k v dc [] # p # st, length (p # st) - 1) =
        Some (S', length S' - 2) \<and> Suc dc \<le> length S' \<and> closed dc S' = ?c # p # st"
      using save_lines_children [of ?c "p # st", OF _ _ ent] w len d by simp
    then obtain S' where
      2: "load_lines (save_lines ?c) (Node k v dc [] # p # st, d) = Some (S', length S' - 2)"
        "Suc dc \<le> length S'" "closed dc S' = ?c # p # st" using len by auto
    from closed_Suc [of d S'] 2(2,3) d have "closed d S' = extend p [?c] # st" by simp
    with 1 2(1,2) d show "\<exists>S'. load_lines (raw_line d ?c # save_lines ?c) (S, length S - 2) =
        Some (S', length S' - 2) \<and> Suc d \<le> length S' \<and> closed d S' = extend p [?c] # st"
      by (intro exI [of _ S']) simp
  qed
qed

lemma root_of_up: "S \<noteq> [] \<Longrightarrow> root_of (up S) = root_of S"
  by (cases S rule: up.cases) simp_all

lemma root_of_closed:
  assumes "S \<noteq> []"
  shows "root_of (closed 0 S) = root_of S"
proof -
  have "S \<noteq> [] \<Longrightarrow> (up ^^ n) S \<noteq> [] \<and> root_of ((up ^^ n) S) = root_of S" for n
  proof (induction n)
    case (Suc n)
    then have "(up ^^ n) S \<noteq> []" by simp
    with Suc root_of_up [OF this] show ?case by (cases "(up ^^ n) S" rule: up.cases) simp_all
  qed simp
  with assms show ?thesis by (simp add: closed_def)
qed

lemma load_saved:
  assumes "well_formed (Node ''root'' [] 0 cs)"
  shows "\<exists>S. load_lines (save_lines (Node ''root'' [] 0 cs)) ([root_node], 0) = Some S \<and>
    root_of (fst S) = Node ''root'' [] 0 cs"
proof -
  let ?c = "Node ''root'' [] 0 cs"
  from assms have w: "ordered cs" "\<And>b. b \<in> set cs \<Longrightarrow> depth b = Suc 0 \<and> well_formed b" by auto
  have "resumes (raw_line (depth ?c) b # save_lines b) (depth ?c) [b]"
    if "b \<in> set (dropWhile is_comment (children ?c))" for b
  proof -
    from that have "b \<in> set cs" by (auto dest: set_dropWhileD)
    moreover from that w(1) have "good_entry b" by (auto simp: ordered_def list_all_iff)
    ultimately show ?thesis using save_lines_resumes [of b 0] w(2) [of b] by simp
  qed
  with save_lines_children [of ?c "[]"] w obtain S where
    "load_lines (save_lines ?c) ([root_node], 0) = Some (S, length S - 2)" "1 \<le> length S"
    "closed 0 S = [?c]" by (auto simp: root_node_def)
  moreover from this root_of_closed [of S] have "root_of S = ?c" by (cases S) auto
  ultimately show ?thesis by auto
qed

section \<open>What a loaded tree looks like\<close>

lemma well_formed_iff:
  "well_formed c \<longleftrightarrow> ordered (children c) \<and>
     (\<forall>b \<in> set (children c). depth b = Suc (depth c) \<and> well_formed b)"
  by (cases c) simp

lemma in_set_tlD: "x \<in> set (tl xs) \<Longrightarrow> x \<in> set xs"
  by (cases xs) auto

text \<open>Between two lines the innermost open node has comments only.\<close>

fun open_nodes :: "config list \<Rightarrow> bool" where
  "open_nodes [] \<longleftrightarrow> False"
| "open_nodes [r] \<longleftrightarrow> well_formed r \<and> ckey r = ''root'' \<and> cval r = [] \<and> depth r = 0"
| "open_nodes (c # p # st) \<longleftrightarrow>
     well_formed c \<and> good_entry c \<and> depth c = Suc (depth p) \<and> open_nodes (p # st)"

definition fresh_top :: "config list \<Rightarrow> bool" where
  "fresh_top st \<longleftrightarrow> list_all is_comment (children (hd st))"

lemma ordered_add_entry:
  "ordered cs \<Longrightarrow> good_entry c \<Longrightarrow> ordered (cs @ [c])"
proof -
  assume o: "ordered cs" and g: "good_entry c"
  show "ordered (cs @ [c])"
  proof (cases "list_all is_comment cs")
    case True
    then have "takeWhile is_comment cs = cs" "dropWhile is_comment cs = []"
      by (auto simp: list_all_iff)
    with True o g show ?thesis
      by (simp add: ordered_def takeWhile_append dropWhile_append list_all_iff good_entry_def)
  next
    case False
    then obtain x where x: "x \<in> set cs" "\<not> is_comment x" by (auto simp: list_all_iff)
    then have "takeWhile is_comment (cs @ [c]) = takeWhile is_comment cs"
      "dropWhile is_comment (cs @ [c]) = dropWhile is_comment cs @ [c]"
      by (simp_all add: takeWhile_append1 dropWhile_append1)
    with o g show ?thesis by (simp add: ordered_def)
  qed
qed

lemma good_comment_is_comment: "good_comment c \<Longrightarrow> is_comment c"
  by (simp add: good_comment_def is_comment_def)

lemma ordered_add_comment:
  assumes "ordered cs" and "list_all is_comment cs" and "good_comment c"
  shows "ordered (cs @ [c])"
proof -
  have "takeWhile is_comment cs = cs"
    using assms(2) by (simp add: takeWhile_eq_all_conv list_all_iff)
  with assms(1) have cs: "list_all good_comment cs" unfolding ordered_def by metis
  have t: "takeWhile is_comment (cs @ [c]) = cs @ [c]"
    using assms(2,3) good_comment_is_comment
    by (subst takeWhile_eq_all_conv) (auto simp: list_all_iff)
  then have "dropWhile is_comment (cs @ [c]) = []"
    by (simp add: dropWhile_eq_Nil_conv takeWhile_eq_all_conv)
  with t cs assms(3) show ?thesis by (simp only: ordered_def list_all_append) simp
qed

lemma well_formed_extend:
  "well_formed p \<Longrightarrow> well_formed c \<Longrightarrow> depth c = Suc (depth p) \<Longrightarrow> ordered (children p @ [c]) \<Longrightarrow>
   well_formed (extend p [c])"
  by (cases p) auto

lemma open_nodes_up: "open_nodes st \<Longrightarrow> open_nodes (up st)"
proof (cases st rule: up.cases)
  case (1 c p st')
  assume "open_nodes st"
  with 1 have o: "well_formed c" "good_entry c" "depth c = Suc (depth p)" "open_nodes (p # st')"
    by simp_all
  then have p: "well_formed p" by (cases st') simp_all
  then have "ordered (children p)" by (cases p) simp
  then have "ordered (children p @ [c])" using o(2) by (rule ordered_add_entry)
  with well_formed_extend [OF p o(1,3)] have w: "well_formed (extend p [c])" .
  have g: "good_entry (extend p [c]) = good_entry p"
    by (simp add: good_entry_def extend_def is_comment_def)
  have "open_nodes (extend p [c] # st')"
  proof (cases st')
    case Nil with o(4) w show ?thesis by (simp add: extend_def)
  next
    case Cons with o(4) w g show ?thesis by simp
  qed
  with 1 show ?thesis by simp
qed simp_all

lemma open_nodes_ups: "open_nodes st \<Longrightarrow> open_nodes ((up ^^ n) st)"
  by (induction n) (simp_all add: open_nodes_up)

lemma open_nodes_root:
  "open_nodes st \<Longrightarrow> \<exists>cs. root_of st = Node ''root'' [] 0 cs \<and> well_formed (root_of st)"
proof (induction st rule: root_of.induct)
  case (2 c)
  then show ?case by (cases c) simp
next
  case (3 c p st)
  with open_nodes_up [of "c # p # st"] show ?case by simp
qed simp

lemma isspace_newline [simp]: "isspace NEWLINE"
  by (simp add: isspace_def code_of_def)

lemma trim_subset: "set (trim s) \<subseteq> set s"
proof -
  have "set (c_str s) \<subseteq> set s" for s by (auto simp: c_str_def dest: set_takeWhileD)
  moreover have "set (ltrim s) \<subseteq> set (c_str s)" by (auto simp: ltrim_def dest: set_dropWhileD)
  moreover have "set (trim s) \<subseteq> set (c_str (ltrim s))"
    unfolding trim_def rtrim_def by (rule set_take_subset)
  ultimately show ?thesis by force
qed

lemma trim_Nil [simp]: "trim [] = []"
  by (simp add: trim_def rtrim_def ltrim_def c_str_def)

lemma trim_stays:
  assumes "NUL \<notin> set s" and "s = [] \<or> \<not> isspace (hd s) \<and> \<not> isspace (last s)"
  shows "trim s = s"
proof (cases s rule: rev_cases)
  case Nil
  then show ?thesis by (simp add: trim_def rtrim_def ltrim_def c_str_def)
next
  case (snoc xs x)
  with assms have "ltrim s = s" by (auto simp: ltrim_def c_str_id dropWhile_eq_self_iff)
  moreover have "rtrim_end s (length s) = length s" using assms(2) snoc by simp
  ultimately show ?thesis using assms(1) by (simp add: trim_def rtrim_def c_str_id)
qed

lemma trim_ends: "trim s \<noteq> [] \<Longrightarrow> \<not> isspace (hd (trim s)) \<and> \<not> isspace (last (trim s))"
proof -
  assume ne: "trim s \<noteq> []"
  obtain x where x: "ltrim s = trim s @ x" using rtrim_split [of "ltrim s"] by (auto simp: trim_def)
  have "\<not> isspace (last (trim s))"
    using rtrim_last [of "ltrim s"] ne by (simp only: trim_def not_False_eq_True)
  moreover have "\<not> isspace (hd (trim s))" using ltrim_first [of s] ne by (simp only: x) simp
  ultimately show ?thesis by simp
qed

lemma trim_trim [simp]: "trim (trim s) = trim s"
proof -
  have "NUL \<notin> set (trim s)"
    using set_c_str [of "ltrim s"] by (auto simp: trim_def rtrim_def dest: in_set_takeD)
  with trim_ends [of s] show ?thesis by (intro trim_stays) auto
qed

lemma plain_subset: "plain s \<Longrightarrow> set t \<subseteq> set s \<Longrightarrow> plain t"
  by (auto simp: plain_def)

lemma new_entry_good:
  assumes "plain key" and "\<not> (key \<noteq> [] \<and> hd key = CHR ''#'')" and "\<not> (key \<noteq> [] \<and> isspace (hd key))"
    and "n = takeWhile (\<lambda>c. \<not> is_kv_seperator c) key" and "set v \<subseteq> set key"
  shows "good_entry (new_child (trim n) (trim v) p)"
proof -
  have n: "set (trim n) \<subseteq> set n" and v: "set (trim v) \<subseteq> set v" by (rule trim_subset)+
  have nk: "set n \<subseteq> set key" and "\<forall>x \<in> set n. \<not> is_kv_seperator x"
    using assms(4) by (auto dest: set_takeWhileD)
  with n have kv: "list_all (\<lambda>x. \<not> is_kv_seperator x) (trim n)" by (auto simp: list_all_iff)
  have pk: "plain (trim n)" "plain (trim v)"
    using n v nk assms(5) by (blast intro: plain_subset [OF assms(1)])+
  have "trim n \<noteq> [] \<Longrightarrow> hd (trim n) \<noteq> CHR ''#''"
  proof
    assume ne: "trim n \<noteq> []" and h: "hd (trim n) = CHR ''#''"
    then obtain y ys where y: "n = y # ys" by (cases n) simp_all
    with assms(2,3,4) have k: "key \<noteq> []" "hd key = y" "y \<noteq> CHR ''#''" "\<not> isspace y"
      by (cases key; auto split: if_splits)+
    have "NUL \<notin> set n" using assms(1) nk by (auto simp: plain_def)
    with y k(4) have "ltrim n = n" by (simp add: ltrim_def c_str_id)
    moreover obtain x where "ltrim n = trim n @ x"
      using rtrim_split [of "ltrim n"] by (auto simp: trim_def)
    ultimately have "hd n = hd (trim n)" using ne by (metis hd_append2)
    with h y k(3) show False by simp
  qed
  with kv pk show ?thesis by (auto simp: good_entry_def new_child_def is_comment_def)
qed

lemma load_line_keeps:
  assumes "open_nodes st" and "fresh_top st" and "plain buf" and "load_line buf (st, li) = Some (st', li')"
  shows "open_nodes st' \<and> fresh_top st'"
proof -
  define indent where "indent = length (takeWhile (\<lambda>c. c = TAB) buf)"
  define key where "key = drop indent buf"
  define st1 where "st1 = (if indent \<le> li then (up ^^ (li - indent + 1)) st else st)"
  define n where "n = takeWhile (\<lambda>c. \<not> is_kv_seperator c) key"
  define v where "v = tl (dropWhile (\<lambda>c. \<not> is_kv_seperator c) key)"
  have pk: "plain key" using assms(3) by (auto simp: plain_def key_def dest: in_set_dropD)
  consider "st' = st"
    | "hd key = CHR ''#''" "st' = add_child (new_child ''#'' (tl key) (hd st)) (hd st) # tl st"
    | "\<not> (key \<noteq> [] \<and> hd key = CHR ''#'')" "\<not> (key \<noteq> [] \<and> isspace (hd key))"
      "st' = new_child (trim n) (trim v) (hd st1) # st1"
    using assms(4) unfolding load_line_def Let_def prod.case
    by (fold indent_def, fold key_def, fold st1_def n_def v_def) (auto split: if_splits)
  then show ?thesis
  proof cases
    case 1
    with assms show ?thesis by simp
  next
    case 2
    obtain p rest where st: "st = p # rest" using assms(1) by (cases st) simp_all
    let ?c = "new_child ''#'' (tl key) p"
    have "set (tl key) \<subseteq> set key" by (cases key) auto
    with pk have "plain (tl key)" by (rule plain_subset)
    then have c: "good_comment ?c" "well_formed ?c" "depth ?c = Suc (depth p)" "is_comment ?c"
      by (simp_all add: good_comment_def new_child_def is_comment_def ordered_def)
    have p: "well_formed p" using assms(1) st by (cases rest) simp_all
    then have o: "ordered (children p)" by (cases p) simp
    have com: "list_all is_comment (children p)" using assms(2) st by (simp add: fresh_top_def)
    have w: "well_formed (extend p [?c])"
      using p c(2,3) ordered_add_comment [OF o com c(1)] by (rule well_formed_extend)
    have g: "good_entry (extend p [?c]) = good_entry p"
      by (simp add: good_entry_def extend_def is_comment_def)
    have "open_nodes (extend p [?c] # rest)"
    proof (cases rest)
      case Nil with assms(1) st w show ?thesis by (simp add: extend_def)
    next
      case Cons with assms(1) st w g show ?thesis by simp
    qed
    moreover have "fresh_top (extend p [?c] # rest)"
      using com c(4) by (simp add: fresh_top_def extend_def)
    ultimately show ?thesis using 2 st by simp
  next
    case 3
    have o1: "open_nodes st1" using assms(1) by (simp add: st1_def open_nodes_ups del: funpow.simps)
    then obtain p rest where st1: "st1 = p # rest" by (cases st1) simp_all
    have "set v \<subseteq> set key"
      unfolding v_def by (auto dest!: in_set_tlD set_dropWhileD)
    then have "good_entry (new_child (trim n) (trim v) p)"
      using new_entry_good [OF pk 3(1,2) n_def] by blast
    moreover have "well_formed (new_child (trim n) (trim v) p)"
      by (simp add: new_child_def ordered_def)
    ultimately show ?thesis using 3(3) o1 st1 by (simp add: new_child_def fresh_top_def)
  qed
qed

text \<open>What \<open>fgets\<close> reads has a newline at its end only.\<close>

lemma fgets_newline: "NEWLINE \<notin> set (butlast (fst (fgets n s)))"
  by (induction n s rule: fgets.induct) (auto split: prod.splits)

lemma plain_buf: "plain (butlast (c_str (fst (fgets n s))))"
proof -
  let ?l = "fst (fgets n s)"
  obtain x where x: "?l = c_str ?l @ x" unfolding c_str_def by (metis takeWhile_dropWhile_id)
  have "NEWLINE \<notin> set (butlast (c_str ?l))"
  proof (cases x)
    case Nil
    with x fgets_newline [of n s] show ?thesis by simp
  next
    case (Cons y ys)
    then have "butlast ?l = c_str ?l @ butlast x" by (subst x) (simp add: butlast_append)
    with fgets_newline [of n s] show ?thesis by (auto dest: in_set_butlastD)
  qed
  moreover have "NUL \<notin> set (butlast (c_str ?l))"
    using set_c_str [of ?l] by (auto dest: in_set_butlastD)
  ultimately show ?thesis by (simp add: plain_def)
qed

lemma load_loop_well_formed:
  "load_loop input s = Done (Some c) \<Longrightarrow> open_nodes (fst s) \<Longrightarrow> fresh_top (fst s) \<Longrightarrow>
   well_formed c \<and> (\<exists>cs. c = Node ''root'' [] 0 cs)"
proof (induction input s rule: load_loop.induct)
  case (1 input s)
  show ?case
  proof (cases "input = []")
    case True
    with 1(2) have "c = root_of (fst s)" by (simp add: load_loop.simps [of "[]" s])
    with open_nodes_root [OF 1(3)] show ?thesis by auto
  next
    case False
    let ?buf = "c_str (fst (fgets 4096 input))"
    from 1(2) False have ne: "?buf \<noteq> []"
      by (auto simp: load_loop.simps [of input s] Let_def split: if_splits)
    with 1(2) False obtain s' where s': "load_line (butlast ?buf) s = Some s'"
      "load_loop (snd (fgets 4096 input)) s' = Done (Some c)"
      by (auto simp: load_loop.simps [of input s] Let_def split: option.splits)
    obtain st li st' li' where st: "s = (st, li)" "s' = (st', li')" by (cases s, cases s') auto
    with s'(1) load_line_keeps [of st "butlast ?buf" li st' li'] 1(3,4) plain_buf
    have "open_nodes (fst s')" "fresh_top (fst s')" by auto
    with 1(1) [OF False refl ne s'(1) s'(2)] show ?thesis by simp
  qed
qed

lemma entry_text_plain: "good_comment c \<or> good_entry c \<Longrightarrow> plain (entry_text c)"
  by (auto simp: good_comment_def good_entry_def entry_text_def plain_def c_str_def
      dest: set_takeWhileD)

lemma lines_plain: "well_formed c \<Longrightarrow> \<forall>l \<in> set (save_lines c). plain l"
proof (induction c)
  case (Node k v d cs)
  then have o: "ordered cs" and w: "\<And>b. b \<in> set cs \<Longrightarrow> well_formed b" by auto
  have "plain (raw_line d b)" if "b \<in> set cs" for b
  proof -
    have "set cs = set (takeWhile is_comment cs) \<union> set (dropWhile is_comment cs)"
      by (metis set_append takeWhile_dropWhile_id)
    with that o have "good_comment b \<or> good_entry b" by (auto simp: ordered_def list_all_iff)
    from entry_text_plain [OF this] show ?thesis by (auto simp: raw_line_def plain_def)
  qed
  with Node.IH w show ?case by auto
qed

section \<open>Properties\<close>

text \<open>C29. A configuration is a map from paths to values: after \<open>set\<close> the value at the path (however
  its separators are written) is the new one and the value at every other path is unchanged, the
  nodes created on the way reading as empty.\<close>

theorem set_then_get:
  "get_str q (config_set p v c) =
     (if path_fields q = path_fields p then c_str v else get_str q c)"
proof -
  have "get_str k d = value_at (path_fields k) d" for k d
    by (simp add: get_str_def config_get_def value_at_def)
  then show ?thesis by (simp add: config_set_def value_at_set)
qed

text \<open>C30. A loaded configuration survives saving: when \<open>load\<close> returns a tree, saving it and loading
  the text gives exactly this tree again, provided no saved line is longer than the buffer of
  \<open>load\<close>.\<close>

theorem saved_loads_again:
  assumes "load files stdin ferror filename = Done (Some c)"
    and "list_all (\<lambda>l. length l < 4095) (save_lines c)"
    and "saved \<noteq> ''stdout''" and "files' saved = Some (save c)"
  shows "load files' stdin' False saved = Done (Some c)"
proof -
  from assms(1) obtain input where "load_loop input ([root_node], 0) = Done (Some c)"
    by (auto simp: load_def Let_def split: option.splits sum.splits if_splits)
  from load_loop_well_formed [OF this] have wf: "well_formed c" "\<exists>cs. c = Node ''root'' [] 0 cs"
    by (simp_all add: root_node_def ordered_def fresh_top_def)
  have "list_all (\<lambda>l. plain l \<and> length l < 4095) (save_lines c)" using assms(2) lines_plain [OF wf(1)]
    by (simp add: list_all_iff)
  moreover from load_saved wf obtain S where
    "load_lines (save_lines c) ([root_node], 0) = Some S" "root_of (fst S) = c" by blast
  ultimately have "load_loop (save c) ([root_node], 0) = Done (Some c)"
    by (simp add: save_as_text load_loop_lines)
  with assms(3,4) show ?thesis by (simp add: load_def)
qed

definition sample_text :: string where
  "sample_text = ''# top'' @ NEWLINE # ''proxy ='' @ NEWLINE # TAB # ''port: 8088'' @
     NEWLINE # ''#c'' @ [NEWLINE]"

definition sample_config :: config where
  "sample_config = Node ''root'' [] 0
     [Node ''#'' '' top'' 1 [],
      Node ''proxy'' [] 1 [Node ''port'' ''8088'' 2 [Node ''#'' ''c'' 3 []]]]"

lemma load_sample:
  "load (\<lambda>f. Some sample_text) [] False ''conf'' = Done (Some sample_config)"
  by code_simp

lemma saved_loads_again_witness:
  "load (\<lambda>f. Some (save sample_config)) [] False ''copy'' = Done (Some sample_config) \<and>
   save sample_config \<noteq> sample_text"
proof
  show "load (\<lambda>f. Some (save sample_config)) [] False ''copy'' = Done (Some sample_config)"
  proof (rule saved_loads_again [OF load_sample])
    show "list_all (\<lambda>l. length l < 4095) (save_lines sample_config)" by code_simp
  qed simp_all
  show "save sample_config \<noteq> sample_text" by code_simp
qed

text \<open>C31. Every tree that \<open>load\<close> returns is well-formed: its root is the node \<open>root\<close> at depth zero, every
  child is one level deeper than its parent, comments come before entries, keys have no separator
  in them, and keys and values are trimmed single-line texts.\<close>

theorem loaded_tree_well_formed:
  assumes "load files stdin ferror filename = Done (Some c)"
  shows "well_formed c \<and> ckey c = ''root'' \<and> cval c = [] \<and> depth c = 0"
proof -
  from assms obtain input where "load_loop input ([root_node], 0) = Done (Some c)"
    by (auto simp: load_def Let_def split: option.splits sum.splits if_splits)
  from load_loop_well_formed [OF this] have "well_formed c" "\<exists>cs. c = Node ''root'' [] 0 cs"
    by (simp_all add: root_node_def ordered_def fresh_top_def)
  then show ?thesis by auto
qed

lemma loaded_tree_well_formed_witness: "well_formed sample_config \<and> depth sample_config = 0"
  using loaded_tree_well_formed [OF load_sample] by simp

text \<open>What the reader of lines gets wrong: the last character of a file that does not end in a newline
  is cut off, and a line that starts with a NUL is written before its buffer.\<close>

lemma unterminated_line_cut:
  "load (\<lambda>f. Some ''port: 8088'') [] False ''conf'' =
     Done (Some (Node ''root'' [] 0 [Node ''port'' ''808'' 1 []]))"
  by code_simp

lemma nul_line_underruns:
  "filename \<noteq> ''stdout'' \<Longrightarrow> files filename = Some (NUL # rest) \<Longrightarrow>
   load files stdin ferror filename = Fault Out_of_bounds"
  by (simp add: load_def load_loop.simps [of "NUL # rest"] Let_def c_str_def split: prod.split)

end
