(* ===== verification/Logger.thy ===== *)
theory Logger
  imports CStrings
begin

text \<open>
  \<open>server-5204/util/log.h\<close> and \<open>log.cpp\<close>: the process-wide logger, its levels, the line it builds in
  a fixed buffer, and the rotation of the log file. Files are inodes under names, so that a rename
  moves a file without touching what is written to it; whether \<open>fopen\<close>, \<open>fstat\<close> and \<open>rename\<close>
  succeed, how many bytes of a line the file takes (the program ignores short writes and failed
  flushes), and the local time, come with each call. A formatted message is the text that
  \<open>vsnprintf\<close> would print without a limit.
\<close>

section \<open>Levels\<close>

abbreviation (input) LEVEL_NONE :: int where "LEVEL_NONE \<equiv> - 1"
abbreviation (input) LEVEL_FATAL :: int where "LEVEL_FATAL \<equiv> 0"
abbreviation (input) LEVEL_ERROR :: int where "LEVEL_ERROR \<equiv> 1"
abbreviation (input) LEVEL_WARN :: int where "LEVEL_WARN \<equiv> 2"
abbreviation (input) LEVEL_INFO :: int where "LEVEL_INFO \<equiv> 3"
abbreviation (input) LEVEL_DEBUG :: int where "LEVEL_DEBUG \<equiv> 4"
abbreviation (input) LEVEL_TRACE :: int where "LEVEL_TRACE \<equiv> 5"

definition get_level :: "string \<Rightarrow> int" where
  "get_level levelname =
     (if levelname = ''trace'' then LEVEL_TRACE
      else if levelname = ''debug'' then LEVEL_DEBUG
      else if levelname = ''info'' then LEVEL_INFO
      else if levelname = ''warn'' then LEVEL_WARN
      else if levelname = ''error'' then LEVEL_ERROR
      else if levelname = ''fatal'' then LEVEL_FATAL
      else if levelname = ''none'' then LEVEL_NONE
      else LEVEL_DEBUG)"

definition level_name :: "int \<Rightarrow> string" where
  "level_name l =
     (if l = LEVEL_FATAL then ''fatal'' else if l = LEVEL_ERROR then ''error''
      else if l = LEVEL_WARN then ''warn'' else if l = LEVEL_INFO then ''info''
      else if l = LEVEL_DEBUG then ''debug'' else if l = LEVEL_TRACE then ''trace'' else [])"

definition get_level_name :: "int \<Rightarrow> string" where
  "get_level_name l =
     (if l = LEVEL_FATAL then ''[FATAL] '' else if l = LEVEL_ERROR then ''[ERROR] ''
      else if l = LEVEL_WARN then ''[WARN ] '' else if l = LEVEL_INFO then ''[INFO ] ''
      else if l = LEVEL_DEBUG then ''[DEBUG] '' else if l = LEVEL_TRACE then ''[TRACE] '' else [])"

section \<open>State\<close>

datatype stream = Std_out | Std_err | Null | Inode nat | Closed

record Logger =
  fp :: stream
  filename :: string
  cur_level :: int
  mutex :: bool
  rotate_limit :: int
  w_curr :: int
  w_total :: int

record fs =
  names :: "string \<Rightarrow> nat option"
  data :: "nat \<Rightarrow> string"
  next_inode :: nat
  std_out :: string
  std_err :: string

record local_time =
  year :: int
  mon :: int
  mday :: int
  hour :: int
  minute :: int
  sec :: int
  msec :: int

definition Logger_new :: Logger where
  "Logger_new = \<lparr>fp = Std_out, filename = [], cur_level = LEVEL_DEBUG, mutex = False,
     rotate_limit = 0, w_curr = 0, w_total = 0\<rparr>"

definition set_level :: "int \<Rightarrow> Logger \<Rightarrow> Logger" where
  "set_level l L = L\<lparr>cur_level := l\<rparr>"

text \<open>\<open>set_log_level(const char *)\<close>: unknown names, \<open>none\<close> among them, mean debug.\<close>

definition set_log_level :: "string \<Rightarrow> Logger \<Rightarrow> Logger" where
  "set_log_level s L =
     (let ss = map tolower s in
      set_level
        (if ss = ''fatal'' then LEVEL_FATAL else if ss = ''error'' then LEVEL_ERROR
         else if ss = ''warn'' then LEVEL_WARN else if ss = ''info'' then LEVEL_INFO
         else if ss = ''debug'' then LEVEL_DEBUG else if ss = ''trace'' then LEVEL_TRACE
         else LEVEL_DEBUG) L)"

section \<open>Files\<close>

definition fopen_append :: "string \<Rightarrow> bool \<Rightarrow> fs \<Rightarrow> (nat \<times> fs) option" where
  "fopen_append path ok F =
     (if \<not> ok then None
      else case names F path of
        Some i \<Rightarrow> Some (i, F)
      | None \<Rightarrow> Some (next_inode F,
          F\<lparr>names := (names F)(path \<mapsto> next_inode F), data := (data F)(next_inode F := []),
            next_inode := Suc (next_inode F)\<rparr>))"

definition rename_file :: "string \<Rightarrow> string \<Rightarrow> bool \<Rightarrow> fs \<Rightarrow> fs option" where
  "rename_file old new ok F =
     (if \<not> ok then None
      else case names F old of
        None \<Rightarrow> None
      | Some i \<Rightarrow> Some (F\<lparr>names := ((names F)(old := None))(new \<mapsto> i)\<rparr>))"

text \<open>\<open>fwrite\<close> with the \<open>fflush\<close> after it, whose results nobody looks at: of the bytes \<open>bs\<close> the first
  \<open>n\<close> reach the file (all of them when \<open>n\<close> is large enough), and what does not is lost.\<close>

definition fwrite :: "string \<Rightarrow> nat \<Rightarrow> stream \<Rightarrow> fs \<Rightarrow> fs outcome" where
  "fwrite bs n s F =
     (case s of
        Std_out \<Rightarrow> Done (F\<lparr>std_out := std_out F @ take n bs\<rparr>)
      | Std_err \<Rightarrow> Done (F\<lparr>std_err := std_err F @ take n bs\<rparr>)
      | Null \<Rightarrow> Fault Null_deref
      | Inode i \<Rightarrow> Done (F\<lparr>data := (data F)(i := data F i @ take n bs)\<rparr>)
      | Closed \<Rightarrow> Fault Use_after_free)"

definition fclose :: "stream \<Rightarrow> stream outcome" where
  "fclose s =
     (case s of Null \<Rightarrow> Fault Null_deref | Closed \<Rightarrow> Fault Use_after_free | _ \<Rightarrow> Done Closed)"

section \<open>Opening and closing\<close>

text \<open>\<open>Logger::threadsafe\<close>: a new mutex, in place of an old one.\<close>

definition threadsafe :: "Logger \<Rightarrow> Logger" where
  "threadsafe L = (let L1 = (if mutex L then L\<lparr>mutex := False\<rparr> else L) in L1\<lparr>mutex := True\<rparr>)"

definition open_stream :: "stream \<Rightarrow> int \<Rightarrow> bool \<Rightarrow> Logger \<Rightarrow> Logger" where
  "open_stream s level is_threadsafe L =
     (let L1 = L\<lparr>fp := s, cur_level := level\<rparr> in if is_threadsafe then threadsafe L1 else L1)"

text \<open>The result, the logger and the files; \<open>can_open\<close> and \<open>can_stat\<close> are the answers of \<open>fopen\<close>
  and \<open>fstat\<close>. The fields are changed before \<open>fopen\<close> may fail.\<close>

definition open_file ::
  "string \<Rightarrow> int \<Rightarrow> bool \<Rightarrow> int \<Rightarrow> bool \<Rightarrow> bool \<Rightarrow> Logger \<Rightarrow> fs \<Rightarrow> int \<times> Logger \<times> fs" where
  "open_file name level is_threadsafe rotate_size can_open can_stat L F =
     (if length name > 4096 - 20 then (- 1, L, F)
      else
        (let L1 = L\<lparr>cur_level := level, rotate_limit := rotate_size, filename := name\<rparr> in
         if name = ''stdout'' then (0, open_stream Std_out level is_threadsafe L1, F)
         else if name = ''stderr'' then (0, open_stream Std_err level is_threadsafe L1, F)
         else case fopen_append name can_open F of
           None \<Rightarrow> (- 1, L1, F)
         | Some (i, F1) \<Rightarrow>
             if \<not> can_stat then (- 1, L1, F1)
             else (0, open_stream (Inode i) level is_threadsafe
                        (L1\<lparr>w_curr := int (length (data F1 i))\<rparr>), F1)))"

definition close_logger :: "Logger \<Rightarrow> Logger outcome" where
  "close_logger L =
     (if fp L = Std_out then Done L
      else case fclose (fp L) of Fault f \<Rightarrow> Fault f | Done s \<Rightarrow> Done (L\<lparr>fp := s\<rparr>))"

section \<open>Writing a line\<close>

text \<open>\<open>%0wd\<close>.\<close>

definition pad :: "nat \<Rightarrow> int \<Rightarrow> string" where
  "pad w i =
     (if i < 0
      then CHR ''-'' # replicate (w - 1 - length (show_nat (nat (- i)))) CHR ''0'' @
           show_nat (nat (- i))
      else replicate (w - length (show_nat (nat i))) CHR ''0'' @ show_nat (nat i))"

definition time_prefix :: "local_time \<Rightarrow> string" where
  "time_prefix tm =
     pad 4 (year tm) @ ''-'' @ pad 2 (mon tm) @ ''-'' @ pad 2 (mday tm) @ '' '' @
     pad 2 (hour tm) @ '':'' @ pad 2 (minute tm) @ '':'' @ pad 2 (sec tm) @ ''.'' @
     pad 3 (msec tm) @ '' ''"

definition rotated_name :: "string \<Rightarrow> local_time \<Rightarrow> string" where
  "rotated_name name tm =
     name @ ''.'' @ pad 4 (year tm) @ pad 2 (mon tm) @ pad 2 (mday tm) @ ''-'' @
     pad 2 (hour tm) @ pad 2 (minute tm) @ pad 2 (sec tm)"

text \<open>The bytes \<open>logv\<close> writes: \<open>vsnprintf\<close> leaves at most \<open>space - 1\<close> characters and a NUL, but the
  pointer is advanced by up to \<open>space\<close>, over the NUL. Eight bytes of the level name are copied
  whatever its length.\<close>

definition log_line :: "int \<Rightarrow> string \<Rightarrow> local_time \<Rightarrow> string outcome" where
  "log_line level msg tm =
     (let stamp = time_prefix tm; lname = get_level_name level in
      if length lname < 8 then Fault Out_of_bounds
      else
        (let space = 4096 - (length stamp + 8) - 10 in
         Done (stamp @ lname @
           (if length msg < space then msg else take (space - 1) msg @ [CHR 0x00]) @
           [CHR 0x0A])))"

text \<open>What the system answers to one call: the local times before the line and at the rotation, how
  many bytes of the line the file takes, and whether \<open>rename\<close> and \<open>fopen\<close> succeed.\<close>

record answers =
  line_time :: local_time
  rotate_time :: local_time
  taken :: nat
  rename_ok :: bool
  reopen_ok :: bool

definition rotate :: "answers \<Rightarrow> Logger \<Rightarrow> fs \<Rightarrow> (string list \<times> Logger \<times> fs) outcome" where
  "rotate w L F =
     (case fclose (fp L) of
        Fault f \<Rightarrow> Fault f
      | Done s \<Rightarrow>
          (let new = rotated_name (filename L) (rotate_time w) in
           case rename_file (filename L) new (rename_ok w) F of
             None \<Rightarrow> Done ([], L\<lparr>fp := s\<rparr>, F)
           | Some F1 \<Rightarrow>
               (case fopen_append (filename L) (reopen_ok w) F1 of
                  None \<Rightarrow> Done ([new], L\<lparr>fp := Null\<rparr>, F1)
                | Some (i, F2) \<Rightarrow> Done ([new], L\<lparr>fp := Inode i, w_curr := 0\<rparr>, F2))))"

definition count_bytes :: "int \<Rightarrow> Logger \<Rightarrow> Logger" where
  "count_bytes n L =
     L\<lparr>w_curr := (w_curr L + n) mod 2 ^ 64, w_total := (w_total L + n) mod 2 ^ 64\<rparr>"

text \<open>The result: what is returned, the names a file was renamed to (none or one), the logger, the files.\<close>

definition logv ::
  "int \<Rightarrow> string \<Rightarrow> answers \<Rightarrow> Logger \<Rightarrow> fs \<Rightarrow> (int \<times> string list \<times> Logger \<times> fs) outcome" where
  "logv level msg w L F =
     (if cur_level L < level then Done (0, [], L, F)
      else case log_line level msg (line_time w) of
        Fault f \<Rightarrow> Fault f
      | Done line \<Rightarrow>
          (case fwrite line (taken w) (fp L) F of
             Fault f \<Rightarrow> Fault f
           | Done F1 \<Rightarrow>
               (let L1 = count_bytes (int (length line)) L in
                if rotate_limit L1 > 0 \<and> w_curr L1 > rotate_limit L1
                then (case rotate w L1 F1 of
                        Fault f \<Rightarrow> Fault f
                      | Done (ps, L2, F2) \<Rightarrow> Done (int (length line), ps, L2, F2))
                else Done (int (length line), [], L1, F1))))"

section \<open>The global logger\<close>

text \<open>The functions of \<open>log.h\<close> act on the one static \<open>logger\<close>, here the argument \<open>G\<close>; so do the members
  \<open>trace\<close> to \<open>fatal\<close> of any other logger, the argument \<open>this\<close>.\<close>

type_synonym log_result = "(int \<times> string list \<times> Logger \<times> fs) outcome"

definition log_open_stream :: "stream \<Rightarrow> int \<Rightarrow> bool \<Rightarrow> Logger \<Rightarrow> int \<times> Logger" where
  "log_open_stream s level is_threadsafe G = (0, open_stream s level is_threadsafe G)"

definition log_open_file ::
  "string \<Rightarrow> int \<Rightarrow> bool \<Rightarrow> int \<Rightarrow> bool \<Rightarrow> bool \<Rightarrow> Logger \<Rightarrow> fs \<Rightarrow> int \<times> Logger \<times> fs" where
  "log_open_file name level is_threadsafe rotate_size can_open can_stat G F =
     open_file name level is_threadsafe rotate_size can_open can_stat G F"

definition log_level :: "Logger \<Rightarrow> int" where
  "log_level G = cur_level G"

definition output_name :: "Logger \<Rightarrow> string" where
  "output_name L = filename L"

definition get_rotate_size :: "Logger \<Rightarrow> int" where
  "get_rotate_size L = rotate_limit L"

definition log_write :: "int \<Rightarrow> string \<Rightarrow> answers \<Rightarrow> Logger \<Rightarrow> fs \<Rightarrow> log_result" where
  "log_write level msg w G F = logv level msg w G F"

definition Logger_trace :: "Logger \<Rightarrow> string \<Rightarrow> answers \<Rightarrow> Logger \<Rightarrow> fs \<Rightarrow> log_result" where
  "Logger_trace this msg w G F = logv LEVEL_TRACE msg w G F"

definition Logger_debug :: "Logger \<Rightarrow> string \<Rightarrow> answers \<Rightarrow> Logger \<Rightarrow> fs \<Rightarrow> log_result" where
  "Logger_debug this msg w G F = logv LEVEL_DEBUG msg w G F"

definition Logger_info :: "Logger \<Rightarrow> string \<Rightarrow> answers \<Rightarrow> Logger \<Rightarrow> fs \<Rightarrow> log_result" where
  "Logger_info this msg w G F = logv LEVEL_INFO msg w G F"

definition Logger_warn :: "Logger \<Rightarrow> string \<Rightarrow> answers \<Rightarrow> Logger \<Rightarrow> fs \<Rightarrow> log_result" where
  "Logger_warn this msg w G F = logv LEVEL_WARN msg w G F"

definition Logger_error :: "Logger \<Rightarrow> string \<Rightarrow> answers \<Rightarrow> Logger \<Rightarrow> fs \<Rightarrow> log_result" where
  "Logger_error this msg w G F = logv LEVEL_ERROR msg w G F"

definition Logger_fatal :: "Logger \<Rightarrow> string \<Rightarrow> answers \<Rightarrow> Logger \<Rightarrow> fs \<Rightarrow> log_result" where
  "Logger_fatal this msg w G F = logv LEVEL_FATAL msg w G F"

text \<open>The macros \<open>log_trace\<close> to \<open>log_fatal\<close> put the source position in front of the message.\<close>

definition log_at :: "int \<Rightarrow> string \<Rightarrow> nat \<Rightarrow> string \<Rightarrow> answers \<Rightarrow> Logger \<Rightarrow> fs \<Rightarrow> log_result" where
  "log_at level src line msg w G F =
     log_write level (src @ ''('' @ show_nat line @ ''): '' @ msg) w G F"

text \<open>The destructor frees the mutex and closes the stream.\<close>

definition Logger_destroy :: "Logger \<Rightarrow> Logger outcome" where
  "Logger_destroy L = close_logger (L\<lparr>mutex := False\<rparr>)"

text \<open>After a rotation whose rename failed the destructor closes the stream a second time.\<close>

lemma destroy_after_failed_rotation:
  assumes "rotate w L F = Done (ps, L', F')" and "fp L = Inode i" and "\<not> rename_ok w"
  shows "Logger_destroy L' = Fault Use_after_free"
  using assms
  by (auto simp: rotate_def fclose_def rename_file_def Logger_destroy_def close_logger_def)

text \<open>Opening a log does not close the one before: its stream is in no field of the logger.\<close>

lemma reopening_forgets_stream:
  assumes "log_open_file name level ts n True True G F = (0, G', F')" and "names F name = Some j"
    and "name \<noteq> ''stdout''" "name \<noteq> ''stderr''"
  shows "fp G' = Inode j"
  using assms by (auto simp: log_open_file_def open_file_def fopen_append_def open_stream_def
      threadsafe_def Let_def
      Let_def split: if_splits)

section \<open>Runs\<close>

type_synonym log_call = "int \<times> string \<times> answers"

text \<open>A sequence of log calls; the names of the rotated files in order.\<close>

fun log_run :: "log_call list \<Rightarrow> Logger \<Rightarrow> fs \<Rightarrow> (string list \<times> Logger \<times> fs) outcome" where
  "log_run [] L F = Done ([], L, F)"
| "log_run ((level, msg, w) # calls) L F =
     (case logv level msg w L F of
        Fault f \<Rightarrow> Fault f
      | Done (n, ps, L1, F1) \<Rightarrow>
          (case log_run calls L1 F1 of
             Fault f \<Rightarrow> Fault f
           | Done (qs, L2, F2) \<Rightarrow> Done (ps @ qs, L2, F2)))"

definition logged :: "int \<Rightarrow> log_call \<Rightarrow> string" where
  "logged threshold c =
     (case c of (level, msg, w) \<Rightarrow>
        if threshold < level then []
        else case log_line level msg (line_time w) of Fault f \<Rightarrow> [] | Done line \<Rightarrow> line)"

text \<open>What reaches the file of it.\<close>

definition stored :: "int \<Rightarrow> log_call \<Rightarrow> string" where
  "stored threshold c = take (taken (snd (snd c))) (logged threshold c)"

definition file_text :: "fs \<Rightarrow> string \<Rightarrow> string" where
  "file_text F p = (case names F p of None \<Rightarrow> [] | Some i \<Rightarrow> data F i)"

text \<open>The logger writes to the file that has its name, and to no other; new inodes are unused.\<close>

definition logging :: "Logger \<Rightarrow> fs \<Rightarrow> bool" where
  "logging L F \<longleftrightarrow>
     (\<exists>i. fp L = Inode i \<and> names F (filename L) = Some i \<and> i < next_inode F \<and>
          (\<forall>p. names F p = Some i \<longrightarrow> p = filename L)) \<and>
     (\<forall>p j. names F p = Some j \<longrightarrow> j < next_inode F)"

definition kept_files :: "string \<Rightarrow> string list \<Rightarrow> fs \<Rightarrow> fs \<Rightarrow> bool" where
  "kept_files log ps F F' \<longleftrightarrow>
     (\<forall>p. p \<noteq> log \<longrightarrow> p \<notin> set ps \<longrightarrow> names F' p = names F p \<and> file_text F' p = file_text F p)"

lemma fwrite_logging:
  assumes "logging L F"
  obtains F' where "fwrite bs n (fp L) F = Done F'" "logging L F'" "kept_files (filename L) [] F F'"
    "file_text F' (filename L) = file_text F (filename L) @ take n bs" "names F' = names F"
proof -
  from assms obtain i where i: "fp L = Inode i" "names F (filename L) = Some i"
    "\<And>p. names F p = Some i \<Longrightarrow> p = filename L" by (auto simp: logging_def)
  show ?thesis
  proof (rule that [of "F\<lparr>data := (data F)(i := data F i @ take n bs)\<rparr>"])
    show "fwrite bs n (fp L) F = Done (F\<lparr>data := (data F)(i := data F i @ take n bs)\<rparr>)"
      using i(1) by (simp add: fwrite_def)
    show "logging L (F\<lparr>data := (data F)(i := data F i @ take n bs)\<rparr>)"
      using assms by (simp add: logging_def)
    have "\<forall>p. names F p = Some i \<longrightarrow> p = filename L" using i(3) by blast
    then show "kept_files (filename L) [] F (F\<lparr>data := (data F)(i := data F i @ take n bs)\<rparr>)"
      by (auto simp: kept_files_def file_text_def split: option.split)
  qed (simp_all add: file_text_def i(2))
qed

lemma logging_named: "logging L F \<Longrightarrow> names F (filename L) \<noteq> None"
  by (auto simp: logging_def)

lemma rotate_names:
  assumes "logging L F" and "rename_ok w" "reopen_ok w"
  shows "\<exists>L' F'. rotate w L F = Done ([rotated_name (filename L) (rotate_time w)], L', F')"
proof -
  from assms(1) obtain i where i: "fp L = Inode i" "names F (filename L) = Some i"
    by (auto simp: logging_def)
  have "\<exists>j F'. fopen_append p True F = Some (j, F')" for p F
    by (cases "names F p") (simp_all add: fopen_append_def)
  then obtain j F' where "fopen_append (filename L) True (F\<lparr>names := (names F)(filename L := None,
      rotated_name (filename L) (rotate_time w) \<mapsto> i)\<rparr>) = Some (j, F')" by blast
  with i assms(2,3) show ?thesis by (simp add: rotate_def fclose_def rename_file_def Let_def)
qed

lemma rotate_logging:
  assumes l: "logging L F" and ok: "rename_ok w" "reopen_ok w"
    and new: "names F p = None" and p_def: "p = rotated_name (filename L) (rotate_time w)"
  obtains L' F' where "rotate w L F = Done ([p], L', F')" "logging L' F'" "kept_files (filename L) [p] F F'"
    "filename L' = filename L" "cur_level L' = cur_level L" "file_text F' p = file_text F (filename L)"
    "file_text F' (filename L) = []" "names F' p \<noteq> None"
proof -
  from l obtain i where i: "fp L = Inode i" "names F (filename L) = Some i" "i < next_inode F"
    "\<And>q. names F q = Some i \<Longrightarrow> q = filename L" "\<And>q j. names F q = Some j \<Longrightarrow> j < next_inode F"
    by (auto simp: logging_def)
  have pn: "p \<noteq> filename L" "names F p = None" using new i(2) by auto
  let ?k = "next_inode F"
  let ?F = "F\<lparr>names := (((names F)(filename L := None))(p \<mapsto> i))(filename L \<mapsto> ?k),
    data := (data F)(?k := []), next_inode := Suc ?k\<rparr>"
  let ?L = "L\<lparr>fp := Inode ?k, w_curr := 0\<rparr>"
  have "rotate w L F = Done ([p], ?L, ?F)"
    using i(1,2) ok pn(1)
    by (simp add: rotate_def fclose_def rename_file_def fopen_append_def p_def [symmetric])
  moreover have "logging ?L ?F"
    using i(3) i(5) pn(1) by (auto simp: logging_def dest: less_SucI)
  moreover have "kept_files (filename L) [p] F ?F"
    using i(5) by (auto simp: kept_files_def file_text_def split: option.split)
  moreover have "file_text ?F p = file_text F (filename L)" "file_text ?F (filename L) = []"
    using i(2,3) pn(1) by (simp_all add: file_text_def)
  ultimately show ?thesis using pn(1) by (intro that [of ?L ?F]) simp_all
qed

lemma logv_logging:
  assumes l: "logging L F" and run: "logv level msg w L F = Done (n, ps, L', F')"
    and ok: "rename_ok w" "reopen_ok w" and new: "\<forall>p \<in> set ps. names F p = None"
  shows "logging L' F' \<and> kept_files (filename L) ps F F' \<and> filename L' = filename L \<and>
    cur_level L' = cur_level L \<and> (\<forall>p \<in> set ps. names F' p \<noteq> None) \<and>
    concat (map (file_text F') ps) @ file_text F' (filename L) =
      file_text F (filename L) @ stored (cur_level L) (level, msg, w)"
proof (cases "cur_level L < level")
  case True
  with run l show ?thesis by (auto simp: logv_def stored_def logged_def kept_files_def)
next
  case False
  with run obtain line where line: "log_line level msg (line_time w) = Done line"
    by (auto simp: logv_def split: sum.splits)
  from fwrite_logging [OF l, of line "taken w"] obtain F1 where
    F1: "fwrite line (taken w) (fp L) F = Done F1"
    "logging L F1" "kept_files (filename L) [] F F1"
    "file_text F1 (filename L) = file_text F (filename L) @ take (taken w) line" "names F1 = names F" .
  define L1 where "L1 = count_bytes (int (length line)) L"
  have L1: "logging L1 F1" "filename L1 = filename L" "cur_level L1 = cur_level L"
    using F1(2) by (simp_all add: L1_def logging_def count_bytes_def)
  have lg: "stored (cur_level L) (level, msg, w) = take (taken w) line"
    using False line by (simp add: stored_def logged_def)
  show ?thesis
  proof (cases "rotate_limit L1 > 0 \<and> w_curr L1 > rotate_limit L1")
    case False
    then have "logv level msg w L F = Done (int (length line), [], L1, F1)"
      using \<open>\<not> cur_level L < level\<close> line F1(1)
      by (auto simp: logv_def L1_def [symmetric] Let_def)
    with run have "ps = []" "L' = L1" "F' = F1" by simp_all
    with F1 L1 lg show ?thesis by simp
  next
    case True
    then have eq: "logv level msg w L F = (case rotate w L1 F1 of Fault f \<Rightarrow> Fault f
        | Done (ps, L2, F2) \<Rightarrow> Done (int (length line), ps, L2, F2))"
      using \<open>\<not> cur_level L < level\<close> line F1(1)
      by (simp add: logv_def L1_def [symmetric] Let_def del: not_gr_zero)
    let ?p = "rotated_name (filename L1) (rotate_time w)"
    have "ps = [?p]"
      using run rotate_names [OF L1(1) ok] unfolding eq by auto
    with new F1(5) have "names F1 ?p = None" by simp
    from rotate_logging [OF L1(1) ok this refl] obtain L2 F2 where
      r: "rotate w L1 F1 = Done ([?p], L2, F2)" "logging L2 F2" "kept_files (filename L1) [?p] F1 F2"
      "filename L2 = filename L1" "cur_level L2 = cur_level L1"
      "file_text F2 ?p = file_text F1 (filename L1)" "file_text F2 (filename L1) = []"
      "names F2 ?p \<noteq> None" .
    from run eq r(1) have "L' = L2" "F' = F2" "ps = [?p]" by simp_all
    moreover have "kept_files (filename L) [?p] F F2"
      using F1(3) r(3) L1(2) by (simp add: kept_files_def)
    moreover have "logging L2 F2" "filename L2 = filename L" "cur_level L2 = cur_level L"
      "names F2 ?p \<noteq> None" using r(2,4,5,8) L1(2,3) by simp_all
    moreover have "file_text F2 ?p @ file_text F2 (filename L) =
        file_text F (filename L) @ stored (cur_level L) (level, msg, w)"
      unfolding lg F1(4) [symmetric] using r(6,7) L1(2) by (simp only: append_Nil2)
    ultimately show ?thesis by simp
  qed
qed

section \<open>How long a line is\<close>

definition valid_time :: "local_time \<Rightarrow> bool" where
  "valid_time tm \<longleftrightarrow>
     0 \<le> year tm \<and> year tm \<le> 9999 \<and> 0 \<le> mon tm \<and> mon tm \<le> 99 \<and> 0 \<le> mday tm \<and> mday tm \<le> 99 \<and>
     0 \<le> hour tm \<and> hour tm \<le> 99 \<and> 0 \<le> minute tm \<and> minute tm \<le> 99 \<and> 0 \<le> sec tm \<and> sec tm \<le> 99 \<and>
     0 \<le> msec tm \<and> msec tm \<le> 999"

lemma length_pad: "0 \<le> i \<Longrightarrow> i < 10 ^ w \<Longrightarrow> 0 < w \<Longrightarrow> length (pad w i) = w"
proof -
  assume i: "0 \<le> i" "i < 10 ^ w" and w: "0 < w"
  from i have "nat i < 10 ^ w" by (simp add: nat_less_iff)
  from show_nat_length_le [OF this w] i(1) show ?thesis by (simp add: pad_def)
qed

lemma length_time_prefix: "valid_time tm \<Longrightarrow> length (time_prefix tm) = 24"
  by (simp add: time_prefix_def valid_time_def length_pad)

lemma length_level_name: "0 \<le> l \<Longrightarrow> l \<le> 5 \<Longrightarrow> length (get_level_name l) = 8"
proof -
  assume "0 \<le> l" "l \<le> 5"
  then have "l = 0 \<or> l = 1 \<or> l = 2 \<or> l = 3 \<or> l = 4 \<or> l = 5" by arith
  then show ?thesis by (auto simp: get_level_name_def)
qed

lemma no_level_name: "l < 0 \<or> 5 < l \<Longrightarrow> get_level_name l = []"
  by (auto simp: get_level_name_def)

lemma level_names_round_trip: "0 \<le> l \<Longrightarrow> l \<le> 5 \<Longrightarrow> get_level (level_name l) = l"
proof -
  assume "0 \<le> l" "l \<le> 5"
  then have "l = 0 \<or> l = 1 \<or> l = 2 \<or> l = 3 \<or> l = 4 \<or> l = 5" by arith
  then show ?thesis by (auto simp: get_level_def level_name_def)
qed

text \<open>The name of a rotated file fits its buffer of \<open>PATH_MAX\<close> bytes.\<close>

lemma rotated_name_fits:
  "valid_time tm \<Longrightarrow> length name \<le> 4096 - 20 \<Longrightarrow> length (rotated_name name tm) + 1 \<le> 4096"
  by (simp add: rotated_name_def valid_time_def length_pad)

lemma kept_files_trans:
  "kept_files log ps F F1 \<Longrightarrow> kept_files log qs F1 F2 \<Longrightarrow> kept_files log (ps @ qs) F F2"
  by (simp add: kept_files_def)

lemma log_run_conserves:
  "log_run calls L F = Done (rs, L', F') \<Longrightarrow> logging L F \<Longrightarrow>
   \<forall>(l, m, w) \<in> set calls. rename_ok w \<and> reopen_ok w \<Longrightarrow>
   distinct rs \<Longrightarrow> \<forall>p \<in> set rs. names F p = None \<Longrightarrow>
   concat (map (file_text F') rs) @ file_text F' (filename L) =
     file_text F (filename L) @ concat (map (stored (cur_level L)) calls) \<and>
   kept_files (filename L) rs F F'"
proof (induction calls L F arbitrary: rs rule: log_run.induct)
  case (1 L F)
  then show ?case by (simp add: kept_files_def)
next
  case (2 level msg w calls L F)
  from "2.prems"(1) obtain n ps L1 F1 qs where
    s: "logv level msg w L F = Done (n, ps, L1, F1)" "log_run calls L1 F1 = Done (qs, L', F')"
      "rs = ps @ qs"
    by (auto split: sum.splits)
  from "2.prems" s(3) have "rename_ok w" "reopen_ok w" "\<forall>p \<in> set ps. names F p = None" by auto
  from logv_logging [OF "2.prems"(2) s(1) this] have
    k: "logging L1 F1" "kept_files (filename L) ps F F1" "filename L1 = filename L"
      "cur_level L1 = cur_level L" "\<forall>p \<in> set ps. names F1 p \<noteq> None"
      "concat (map (file_text F1) ps) @ file_text F1 (filename L) =
        file_text F (filename L) @ stored (cur_level L) (level, msg, w)" by simp_all
  have ne: "p \<noteq> filename L" if "p \<in> set rs" for p
    using logging_named [OF "2.prems"(2)] "2.prems"(5) that by auto
  have qs: "\<forall>p \<in> set qs. names F1 p = None"
  proof
    fix p assume "p \<in> set qs"
    with ne "2.prems"(4,5) s(3) have "p \<noteq> filename L" "p \<notin> set ps" "names F p = None" by auto
    with k(2) show "names F1 p = None" by (simp add: kept_files_def)
  qed
  have tail: "concat (map (file_text F') qs) @ file_text F' (filename L1) =
      file_text F1 (filename L1) @ concat (map (stored (cur_level L1)) calls)"
    "kept_files (filename L1) qs F1 F'"
    using "2.IH" [OF s(1) refl refl refl s(2) k(1) _ _ qs] "2.prems"(3,4) s(3) by auto
  have "map (file_text F') ps = map (file_text F1) ps"
  proof (rule map_cong)
    fix p assume "p \<in> set ps"
    with ne "2.prems"(4) s(3) have "p \<noteq> filename L1" "p \<notin> set qs" by (auto simp: k(3))
    with tail(2) show "file_text F' p = file_text F1 p" by (simp add: kept_files_def)
  qed simp
  moreover have "kept_files (filename L) rs F F'"
    using kept_files_trans [OF k(2)] tail(2) by (simp add: s(3) k(3))
  moreover have "concat (map (file_text F') rs) @ file_text F' (filename L) =
      concat (map (file_text F') ps) @ (concat (map (file_text F') qs) @ file_text F' (filename L1))"
    by (simp add: s(3) k(3))
  ultimately have "concat (map (file_text F') rs) @ file_text F' (filename L) =
      (concat (map (file_text F1) ps) @ file_text F1 (filename L)) @
        concat (map (stored (cur_level L)) calls)"
    by (simp only: tail(1) [unfolded k(3,4)] k(3) append_assoc)
  with \<open>kept_files (filename L) rs F F'\<close> show ?case by (simp add: k(6))
qed

section \<open>Properties\<close>

text \<open>C32. Rotation loses nothing: when the renames and reopenings succeed and every rotated file gets
  a name of its own that was not in use, the rotated files in order followed by the current file hold
  what the log held before and then, in order, what the files took of every line logged; when they
  took all of it (no write was short and no flush failed), every line logged.\<close>

theorem rotation_keeps_lines:
  assumes "logging L F" and "log_run calls L F = Done (rs, L', F')"
    and "\<forall>(l, m, w) \<in> set calls. rename_ok w \<and> reopen_ok w"
    and "distinct rs" and "\<forall>p \<in> set rs. names F p = None"
  shows "concat (map (file_text F') rs) @ file_text F' (filename L) =
           file_text F (filename L) @ concat (map (stored (cur_level L)) calls) \<and>
         ((\<forall>c \<in> set calls. length (logged (cur_level L) c) \<le> taken (snd (snd c))) \<longrightarrow>
           concat (map (file_text F') rs) @ file_text F' (filename L) =
             file_text F (filename L) @ concat (map (logged (cur_level L)) calls))"
proof -
  have "map (stored (cur_level L)) calls = map (logged (cur_level L)) calls"
    if "\<forall>c \<in> set calls. length (logged (cur_level L) c) \<le> taken (snd (snd c))"
    using that by (simp add: stored_def)
  then show ?thesis using log_run_conserves [OF assms(2,1,3,4,5)] by metis
qed

definition sample_time :: "int \<Rightarrow> local_time" where
  "sample_time s = \<lparr>year = 2024, mon = 1, mday = 2, hour = 3, minute = 4, sec = s, msec = 5\<rparr>"

definition sample_answers :: "int \<Rightarrow> bool \<Rightarrow> answers" where
  "sample_answers s ok = \<lparr>line_time = sample_time s, rotate_time = sample_time s, taken = 4096, rename_ok = ok,
     reopen_ok = True\<rparr>"

definition sample_logger :: Logger where
  "sample_logger = \<lparr>fp = Inode 0, filename = ''log'', cur_level = 4, mutex = False,
     rotate_limit = 40, w_curr = 3, w_total = 0\<rparr>"

definition sample_fs :: fs where
  "sample_fs = \<lparr>names = (\<lambda>p. if p = ''log'' then Some 0 else None), data = (\<lambda>i. ''old''),
     next_inode = 1, std_out = [], std_err = []\<rparr>"

definition sample_calls :: "log_call list" where
  "sample_calls = [(1, ''first'', sample_answers 6 True), (5, ''quiet'', sample_answers 6 True)]"

definition sample_names :: "string list" where
  "sample_names = [''log.20240102-030406'']"

definition rotated_names :: "(string list \<times> Logger \<times> fs) outcome \<Rightarrow> string list option" where
  "rotated_names r = (case r of Fault f \<Rightarrow> None | Done (rs, L, F) \<Rightarrow> Some rs)"

lemma sample_run_names:
  "rotated_names (log_run sample_calls sample_logger sample_fs) = Some sample_names"
  by code_simp

lemma rotation_keeps_lines_witness:
  "\<exists>L' F'. log_run sample_calls sample_logger sample_fs = Done (sample_names, L', F') \<and>
     file_text F' ''log.20240102-030406'' @ file_text F' ''log'' =
       ''old'' @ concat (map (logged 4) sample_calls)"
proof -
  obtain L' F' where r: "log_run sample_calls sample_logger sample_fs = Done (sample_names, L', F')"
    using sample_run_names
    by (cases "log_run sample_calls sample_logger sample_fs") (auto simp: rotated_names_def)
  have l: "logging sample_logger sample_fs"
    by (simp add: logging_def sample_logger_def sample_fs_def)
  have "list_all (\<lambda>c. length (logged (cur_level sample_logger) c) \<le> taken (snd (snd c))) sample_calls"
    by code_simp
  moreover have "\<forall>(l, m, w) \<in> set sample_calls. rename_ok w \<and> reopen_ok w"
    "distinct sample_names" "\<forall>p \<in> set sample_names. names sample_fs p = None"
    by (simp_all add: sample_calls_def sample_answers_def sample_names_def sample_fs_def)
  ultimately have "concat (map (file_text F') sample_names) @ file_text F' (filename sample_logger) =
      file_text sample_fs (filename sample_logger) @
        concat (map (logged (cur_level sample_logger)) sample_calls)"
    using rotation_keeps_lines [OF l r] by (auto simp: list_all_iff)
  moreover have "filename sample_logger = ''log''" "cur_level sample_logger = 4"
    "file_text sample_fs ''log'' = ''old''"
    by (simp_all add: sample_logger_def sample_fs_def file_text_def)
  ultimately show ?thesis using r by (simp add: sample_names_def)
qed

text \<open>A failed rotation breaks the logger: when \<open>rename\<close> fails, the call that rotates still returns
  the length of its line, but every later message that passes the level is written to the closed
  stream.\<close>

theorem failed_rotation_breaks_logger:
  assumes "fp L = Inode i" and "level \<le> cur_level L" and "log_line level msg (line_time w) = Done line"
    and "0 < rotate_limit L" and "rotate_limit L < (w_curr L + int (length line)) mod 2 ^ 64"
    and "\<not> rename_ok w"
  shows "\<exists>L' F'. logv level msg w L F = Done (int (length line), [], L', F') \<and>
           (\<forall>l m v. 0 \<le> l \<and> l \<le> 5 \<and> l \<le> cur_level L \<longrightarrow>
              logv l m v L' F' = Fault Use_after_free)"
proof -
  let ?L = "(count_bytes (int (length line)) L)\<lparr>fp := Closed\<rparr>"
  obtain F1 where F1: "fwrite line (taken w) (fp L) F = Done F1" using assms(1) by (simp add: fwrite_def)
  have "logv level msg w L F = Done (int (length line), [], ?L, F1)"
    using assms F1
    by (simp add: logv_def count_bytes_def rotate_def fclose_def rename_file_def)
  moreover have "logv l m v ?L F1 = Fault Use_after_free"
    if "0 \<le> l" "l \<le> 5" "l \<le> cur_level L" for l m v
    using that length_level_name [OF that(1,2)]
    by (simp add: logv_def count_bytes_def log_line_def Let_def fwrite_def)
  ultimately show ?thesis by blast
qed

lemma failed_rotation_breaks_logger_witness:
  "\<exists>L' F'. logv 1 ''first'' (sample_answers 6 False) sample_logger sample_fs = Done (38, [], L', F') \<and>
     (\<forall>l m v. 0 \<le> l \<and> l \<le> 5 \<and> l \<le> 4 \<longrightarrow> logv l m v L' F' = Fault Use_after_free)"
proof -
  have "log_line 1 ''first'' (sample_time 6) = Done (''2024-01-02 03:04:06.005 [ERROR] first'' @ [CHR 0x0A])"
    by code_simp
  then show ?thesis
    using failed_rotation_breaks_logger
      [of sample_logger 0 1 "''first''" "sample_answers 6 False" _ sample_fs]
    by (simp add: sample_logger_def sample_answers_def)
qed

text \<open>C33. What a line holds: for a valid level and time a line never overruns its buffer, and it is the
  time, the level, the message and a newline exactly when the message has at most 4053 bytes; a
  longer one is cut and followed by a NUL byte in the log.\<close>

theorem log_line_contents:
  assumes "valid_time tm" and "0 \<le> level" and "level \<le> 5"
  shows "\<exists>line. log_line level msg tm = Done line \<and> length line + 1 \<le> 4096 \<and>
           line = time_prefix tm @ get_level_name level @
             (if length msg \<le> 4053 then msg else take 4053 msg @ [CHR 0x00]) @ [CHR 0x0A]"
  using assms
  by (simp add: log_line_def length_time_prefix length_level_name Let_def)

lemma log_line_contents_witness:
  "\<exists>line. log_line 3 ''up'' (sample_time 9) = Done line \<and> length line + 1 \<le> 4096 \<and>
     line = time_prefix (sample_time 9) @ ''[INFO ] '' @ ''up'' @ [CHR 0x0A]"
  using log_line_contents [of "sample_time 9" 3 "''up''"]
  by (simp add: valid_time_def sample_time_def get_level_name_def)

text \<open>A level without a name makes \<open>logv\<close> copy eight bytes of an empty string.\<close>

lemma nameless_level_overreads:
  "l < 0 \<or> 5 < l \<Longrightarrow> l \<le> cur_level L \<Longrightarrow> logv l m w L F = Fault Out_of_bounds"
  by (simp add: logv_def log_line_def no_level_name Let_def)

end
