(* ===== verification/App.thy ===== *)
theory App
  imports Config Logger
begin

text \<open>
  \<open>server-5204/util/app.h\<close>, \<open>app.cpp\<close>, \<open>file.h\<close> and \<open>daemon.h\<close>: the command line, the configuration,
  the pid file and the life of a server process. Names of the configuration file are seen from the
  directory the process starts in, all other names from the directory of the configuration file,
  where the process changes to before it uses them; the disk is that of the logger.
  What the operating system answers is the record \<open>host\<close>; the virtual functions \<open>welcome\<close> (printing)
  and \<open>run\<close> are the subclass's. A result \<^const>\<open>None\<close> means that the process waits for ever.
\<close>

section \<open>file.h\<close>

record host =
  conf_files :: "string \<Rightarrow> string option"
  work_dirs :: "string \<Rightarrow> bool"
  cwd :: "string option"
  can_chdir :: "string \<Rightarrow> bool"
  can_write :: bool
  disk_room :: nat
  io_block :: nat
  can_remove :: bool
  can_open_log :: bool
  can_stat_log :: bool

definition file_exists :: "host \<Rightarrow> fs \<Rightarrow> string \<Rightarrow> bool" where
  "file_exists h F name \<longleftrightarrow> names F name \<noteq> None \<or> work_dirs h name"

definition is_dir :: "host \<Rightarrow> string \<Rightarrow> bool" where
  "is_dir h name \<longleftrightarrow> work_dirs h name"

definition is_file :: "(string \<Rightarrow> string option) \<Rightarrow> string \<Rightarrow> bool" where
  "is_file files name \<longleftrightarrow> files name \<noteq> None"

text \<open>The read loop, 8192 bytes at a time: the result and the contents appended so far.\<close>

function read_chunks :: "string \<Rightarrow> int \<Rightarrow> string \<Rightarrow> int \<times> string" where
  "read_chunks file ret content =
     (if file = [] then (ret, content)
      else read_chunks (drop 8192 file) (wrap32 (ret + int (length (take 8192 file))))
             (content @ take 8192 file))"
  by pat_completeness auto
termination by (relation "measure (\<lambda>(file, ret, content). length file)") auto

declare read_chunks.simps [simp del]

definition file_get_contents :: "fs \<Rightarrow> string \<Rightarrow> string \<Rightarrow> int \<times> string" where
  "file_get_contents F name content =
     (case names F name of
        None \<Rightarrow> (-1, content)
      | Some i \<Rightarrow> read_chunks (data F i) 0 content)"

text \<open>\<open>fopen("wb")\<close> empties or creates the file. The stream is fully buffered: \<open>fwrite\<close> writes the whole
  blocks of \<open>io_block\<close> bytes, where a full disk makes it fall short, and only copies the rest, which
  \<open>fclose\<close> writes; the result of \<open>fclose\<close> is not looked at. The file ends with what the disk had room
  for.\<close>

definition file_put_contents :: "host \<Rightarrow> fs \<Rightarrow> string \<Rightarrow> string \<Rightarrow> int \<times> fs" where
  "file_put_contents h F name content =
     (case fopen_append name (can_write h) F of
        None \<Rightarrow> (-1, F)
      | Some (i, F1) \<Rightarrow>
          (let blocks = length content - length content mod io_block h in
           (if blocks \<le> disk_room h then int (length content) else -1,
            F1\<lparr>data := (data F1)(i := take (disk_room h) content)\<rparr>)))"

section \<open>daemon.h\<close>

datatype forked = Fork_failed | Parent | Child

text \<open>The answers of \<open>setsid\<close>, \<open>chdir\<close> (when a directory is given), three \<open>close\<close>, \<open>open\<close> and three
  \<open>dup2\<close> in this order: the first that fails ends the process.\<close>

definition daemonize :: "forked \<Rightarrow> bool list \<Rightarrow> int outcome" where
  "daemonize fork answers =
     (case fork of
        Fork_failed \<Rightarrow> Done (-1)
      | Parent \<Rightarrow> Fault (Exit 0)
      | Child \<Rightarrow> if list_all (\<lambda>ok. ok) answers then Done 0 else Fault (Exit 0))"

section \<open>The application\<close>

record app =
  is_daemon :: bool
  pidfile :: string
  conf_file :: string
  work_dir :: string
  start_opt :: string

definition AppArgs :: app where
  "AppArgs = \<lparr>is_daemon = False, pidfile = [], conf_file = [], work_dir = [], start_opt = ''start''\<rparr>"

fun parse_arg_list :: "string list \<Rightarrow> app \<Rightarrow> app outcome" where
  "parse_arg_list [] A = (if conf_file A = [] then Fault (Exit 1) else Done A)"
| "parse_arg_list (arg # args) A =
     (if arg = ''-d'' then parse_arg_list args (A\<lparr>is_daemon := True\<rparr>)
      else if arg = ''-v'' then Fault (Exit 0)
      else if arg = ''-h'' then Fault (Exit 0)
      else if arg = ''-s''
      then (case args of
              [] \<Rightarrow> Fault (Exit 1)
            | o1 # args' \<Rightarrow>
                if o1 \<notin> {''start'', ''stop'', ''restart''} then Fault (Exit 1)
                else parse_arg_list args' (A\<lparr>start_opt := o1\<rparr>))
      else parse_arg_list args (A\<lparr>conf_file := arg\<rparr>))"

text \<open>Other processes: the answers of \<open>kill\<close> for a process id, and whether the process that is asked
  to end removes the pid file at some time.\<close>

datatype kill_answer = Killed | No_such_process | Not_permitted

record processes =
  probe :: "int \<Rightarrow> kill_answer"
  terminate :: "int \<Rightarrow> kill_answer"
  cleans_up :: "int \<Rightarrow> bool"

definition read_pid :: "fs \<Rightarrow> app \<Rightarrow> int" where
  "read_pid F A =
     (if pidfile A = [] then -1
      else let s = snd (file_get_contents F (pidfile A) []) in
        if s = [] then -1 else fst (str_to_int s 0))"

definition write_pid :: "host \<Rightarrow> int \<Rightarrow> fs \<Rightarrow> app \<Rightarrow> fs outcome" where
  "write_pid h pid F A =
     (if pidfile A = [] then Done F
      else let (ret, F') = file_put_contents h F (pidfile A) (str_int pid) in
        if ret = -1 then Fault (Exit 1) else Done F')"

definition check_pidfile :: "host \<Rightarrow> fs \<Rightarrow> app \<Rightarrow> unit outcome" where
  "check_pidfile h F A =
     (if pidfile A \<noteq> [] \<and> file_exists h F (pidfile A) then Fault (Exit 1) else Done ())"

text \<open>The result of \<open>remove\<close>, which can fail, is not looked at.\<close>

definition remove_file :: "host \<Rightarrow> string \<Rightarrow> fs \<Rightarrow> fs" where
  "remove_file h name F = (if can_remove h then F\<lparr>names := (names F)(name := None)\<rparr> else F)"

definition remove_pidfile :: "host \<Rightarrow> fs \<Rightarrow> app \<Rightarrow> fs" where
  "remove_pidfile h F A = (if pidfile A \<noteq> [] then remove_file h (pidfile A) F else F)"

text \<open>\<open>kill_process\<close>: the process ids that were sent \<open>SIGTERM\<close>, and the disk afterwards.\<close>

definition kill_process ::
  "host \<Rightarrow> processes \<Rightarrow> fs \<Rightarrow> app \<Rightarrow> (int list \<times> fs) outcome option" where
  "kill_process h P F A =
     (let pid = read_pid F A in
      if pid = -1 then Some (Fault (Exit 1))
      else if probe P pid = No_such_process then Some (Done ([], remove_pidfile h F A))
      else if terminate P pid \<noteq> Killed then Some (Fault (Exit 1))
      else if \<not> file_exists h F (pidfile A) then Some (Done ([pid], F))
      else if cleans_up P pid then Some (Done ([pid], remove_pidfile h F A))
      else None)"

text \<open>The second half of \<open>init\<close>: the log, the working directory and the daemon.\<close>

definition open_log :: "host \<Rightarrow> config \<Rightarrow> Logger \<Rightarrow> fs \<Rightarrow> (Logger \<times> fs) outcome" where
  "open_log h conf L F =
     (let level0 = strtolower (get_str ''logger.level'' conf);
          level = get_level (if level0 = [] then ''debug'' else level0);
          rotate_size = fst (get_int64 ''logger.rotate.size'' conf 0);
          output0 = get_str ''logger.output'' conf;
          output = (if output0 = [] then ''stdout'' else output0);
          (ret, L', F') = open_file output level True rotate_size (can_open_log h) (can_stat_log h) L F in
      if ret = -1 then Fault (Exit 1) else Done (L', F'))"

definition start_work :: "host \<Rightarrow> config \<Rightarrow> forked \<Rightarrow> bool list \<Rightarrow> app \<Rightarrow> app outcome" where
  "start_work h conf fork answers A =
     (let dir0 = get_str ''work_dir'' conf;
          A1 = A\<lparr>work_dir := (if dir0 = [] then ''.'' else dir0)\<rparr> in
      if \<not> is_dir h (work_dir A1) then Fault (Exit 1)
      else if is_daemon A1
      then (case daemonize fork answers of Fault f \<Rightarrow> Fault f | Done r \<Rightarrow> Done A1)
      else Done A1)"

text \<open>\<open>init\<close> up to the pid file check: the signals sent, the configuration and the application.\<close>

definition init_conf ::
  "host \<Rightarrow> processes \<Rightarrow> fs \<Rightarrow> app \<Rightarrow> (int list \<times> fs \<times> config \<times> app) outcome option" where
  "init_conf h P F A =
     (if \<not> is_file (conf_files h) (conf_file A) then Some (Fault (Exit 1))
      else case load (conf_files h) [] False (conf_file A) of
        Fault f \<Rightarrow> Some (Fault f)
      | Done None \<Rightarrow> Some (Fault (Exit 1))
      | Done (Some conf) \<Rightarrow>
          if \<not> can_chdir h (real_dirname (cwd h) (conf_file A)) then Some (Fault (Exit 1))
          else
            (let A1 = A\<lparr>pidfile := get_str ''pidfile'' conf\<rparr> in
             if start_opt A1 = ''stop''
             then Option.bind (kill_process h P F A1)
                    (\<lambda>r. case r of Fault f \<Rightarrow> Some (Fault f) | Done x \<Rightarrow> Some (Fault (Exit 0)))
             else if start_opt A1 = ''restart'' \<and> file_exists h F (pidfile A1)
             then Option.bind (kill_process h P F A1)
                    (\<lambda>r. case r of
                       Fault f \<Rightarrow> Some (Fault f)
                     | Done (sigs, F1) \<Rightarrow> Some (Done (sigs, F1, conf, A1)))
             else Some (Done ([], F, conf, A1))))"

definition init ::
  "host \<Rightarrow> processes \<Rightarrow> forked \<Rightarrow> bool list \<Rightarrow> Logger \<Rightarrow> fs \<Rightarrow> app \<Rightarrow>
   (int list \<times> Logger \<times> fs \<times> app) outcome option" where
  "init h P fork answers L F A =
     Option.bind (init_conf h P F A)
       (\<lambda>r. Some (case r of
          Fault f \<Rightarrow> Fault f
        | Done (sigs, F1, conf, A1) \<Rightarrow>
       (case check_pidfile h F1 A1 of
          Fault f \<Rightarrow> Fault f
        | Done u \<Rightarrow>
       (case open_log h conf L F1 of
          Fault f \<Rightarrow> Fault f
        | Done (L1, F2) \<Rightarrow>
       (case start_work h conf fork answers A1 of
          Fault f \<Rightarrow> Fault f
        | Done A2 \<Rightarrow> Done (sigs, L1, F2, A2))))))"

text \<open>\<open>main\<close> with the subclass's \<open>run\<close>, which is given the disk as it finds it; \<open>pid\<close> is the process
  that runs it.\<close>

definition app_main ::
  "host \<Rightarrow> processes \<Rightarrow> forked \<Rightarrow> bool list \<Rightarrow> int \<Rightarrow> (app \<Rightarrow> fs \<Rightarrow> fs outcome option) \<Rightarrow> string list \<Rightarrow>
   fs \<Rightarrow> (int list \<times> fs) outcome option" where
  "app_main h P fork answers pid run args F =
     (case parse_arg_list args AppArgs of
        Fault f \<Rightarrow> Some (Fault f)
      | Done A \<Rightarrow>
     (case init h P fork answers Logger_new F A of
        None \<Rightarrow> None
      | Some (Fault f) \<Rightarrow> Some (Fault f)
      | Some (Done (sigs, L, F1, A1)) \<Rightarrow>
     (case write_pid h pid F1 A1 of
        Fault f \<Rightarrow> Some (Fault f)
      | Done F2 \<Rightarrow>
     (case run A1 F2 of
        None \<Rightarrow> None
      | Some (Fault f) \<Rightarrow> Some (Fault f)
      | Some (Done F3) \<Rightarrow> Some (Done (sigs, remove_pidfile h F3 A1))))))"

section \<open>The pid file\<close>

lemma read_chunks_all: "snd (read_chunks file ret content) = content @ file"
proof (induction "file" ret content rule: read_chunks.induct)
  case (1 f ret content)
  then show ?case by (subst read_chunks.simps) simp
qed

lemma file_contents_after_put:
  assumes "file_put_contents h F name content = (ret, F')" and "ret \<noteq> -1"
  shows "snd (file_get_contents F' name []) = take (disk_room h) content \<and> names F' name \<noteq> None"
proof -
  from assms obtain i F1 where o: "fopen_append name (can_write h) F = Some (i, F1)"
    and F': "F' = F1\<lparr>data := (data F1)(i := take (disk_room h) content)\<rparr>"
    by (auto simp: file_put_contents_def Let_def split: option.splits if_splits)
  from o have "names F1 name = Some i"
    by (auto simp: fopen_append_def split: if_splits option.splits)
  then show ?thesis by (simp add: F' file_get_contents_def read_chunks_all)
qed

lemma str_to_int_str: "INT_MIN \<le> v \<Longrightarrow> v \<le> INT_MAX \<Longrightarrow> fst (str_to_int (str_int v) e) = v"
  by (simp add: str_to_int_def str_int_def scan_show_int Let_def)

text \<open>After \<open>write_pid\<close> the pid file holds as much of the process id as the disk had room for.\<close>

lemma written_pid:
  assumes "write_pid h pid F A = Done F'" and "pidfile A \<noteq> []"
  shows "snd (file_get_contents F' (pidfile A) []) = take (disk_room h) (str_int pid) \<and>
    file_exists h F' (pidfile A)"
proof -
  obtain ret F1 where put: "file_put_contents h F (pidfile A) (str_int pid) = (ret, F1)"
    by (cases "file_put_contents h F (pidfile A) (str_int pid)")
  with assms(1,2) have "ret \<noteq> -1" "F1 = F'" by (auto simp: write_pid_def split: if_splits)
  with file_contents_after_put [OF put] show ?thesis by (simp add: file_exists_def)
qed

lemma written_pid_read:
  assumes "write_pid h pid F A = Done F'" and "pidfile A \<noteq> []" and "INT_MIN \<le> pid" "pid \<le> INT_MAX"
    and "length (str_int pid) \<le> disk_room h"
  shows "read_pid F' A = pid \<and> file_exists h F' (pidfile A)"
proof -
  have "str_int pid \<noteq> []" by (simp add: str_int_def show_int_def)
  with written_pid [OF assms(1,2)] assms(2,5) str_to_int_str [OF assms(3,4), of 0]
  show ?thesis by (simp add: read_pid_def)
qed

text \<open>On a full disk \<open>write_pid\<close> succeeds all the same: the process id stays in the buffer, and the
  server runs with an empty pid file, from which \<open>stop\<close> cannot read its process id.\<close>

lemma full_disk_empty_pidfile:
  assumes "disk_room h = 0" "length (str_int pid) < io_block h" "can_write h" "pidfile A \<noteq> []"
  shows "\<exists>F'. write_pid h pid F A = Done F' \<and> file_exists h F' (pidfile A) \<and>
    kill_process h P F' A = Some (Fault (Exit 1))"
proof -
  obtain i F1 where o: "fopen_append (pidfile A) True F = Some (i, F1)"
    by (cases "names F (pidfile A)") (simp_all add: fopen_append_def)
  with assms obtain F' where w: "write_pid h pid F A = Done F'"
    by (simp add: write_pid_def file_put_contents_def)
  from written_pid [OF w assms(4)] assms(1,4) have "read_pid F' A = -1" "file_exists h F' (pidfile A)"
    by (simp_all add: read_pid_def)
  with w show ?thesis by (simp add: kill_process_def)
qed

text \<open>A pid file without a number makes \<open>stop\<close> send its signal to process 0, that is, to every process
  of the caller's own group.\<close>

lemma garbage_pid_signals_group:
  assumes "names F (pidfile A) = Some i" "pidfile A \<noteq> []" "data F i \<noteq> []"
    and "fst (scan_int (c_str (data F i))) = 0" "probe P 0 = Killed" "terminate P 0 = Killed" "cleans_up P 0"
  shows "kill_process h P F A = Some (Done ([0], remove_pidfile h F A))"
  using assms
  by (simp add: kill_process_def read_pid_def file_get_contents_def read_chunks_all str_to_int_def
      file_exists_def case_prod_beta)

text \<open>The check for the pid file and its writing are two steps: two processes that start at the same time
  both pass the check, and the first one to end removes the pid file of the other.\<close>

lemma start_race:
  assumes "pidfile A \<noteq> []" "\<not> file_exists h F (pidfile A)" "can_write h" "20 \<le> disk_room h"
    and "can_remove h"
    and "0 < p1" "p1 \<le> INT_MAX" "0 < p2" "p2 \<le> INT_MAX"
  shows "\<exists>F1 F2. check_pidfile h F A = Done () \<and>
    write_pid h p1 F A = Done F1 \<and> write_pid h p2 F1 A = Done F2 \<and> read_pid F2 A = p2 \<and>
    \<not> file_exists h (remove_pidfile h F2 A) (pidfile A)"
proof -
  have len: "length (str_int p) \<le> disk_room h" if "0 < p" "p \<le> INT_MAX" for p
  proof -
    have "nat p < 10 ^ 10" using that by simp
    then have "length (show_nat (nat p)) \<le> 10" by (rule show_nat_length_le) simp
    with that assms(4) show ?thesis by (simp add: str_int_def show_int_def)
  qed
  have w: "\<exists>F2. write_pid h p F1 A = Done F2" if "0 < p" "p \<le> INT_MAX" for p F1
    using len [OF that] assms(1,3)
    by (auto simp: write_pid_def file_put_contents_def fopen_append_def Let_def split: option.splits)
  from w [OF assms(6,7), of F] obtain F1 where F1: "write_pid h p1 F A = Done F1" by blast
  from w [OF assms(8,9), of F1] obtain F2 where F2: "write_pid h p2 F1 A = Done F2" by blast
  have "read_pid F2 A = p2" using written_pid_read [OF F2 assms(1)] len [OF assms(8,9)] assms(8,9) by simp
  moreover have "check_pidfile h F A = Done ()" using assms(2) by (simp add: check_pidfile_def)
  moreover have "\<not> file_exists h (remove_pidfile h F2 A) (pidfile A)"
    using assms(1,2,5) by (simp add: file_exists_def remove_pidfile_def remove_file_def)
  ultimately show ?thesis using F1 F2 by blast
qed

section \<open>What \<open>init\<close> leaves\<close>

lemma bind_outcome_Done:
  assumes "Option.bind x (\<lambda>r. case r of Fault f \<Rightarrow> Some (Fault f) | Done y \<Rightarrow> g y) = Some (Done z)"
  obtains y where "x = Some (Done y)" "g y = Some (Done z)"
proof (cases x)
  case (Some r)
  with assms that show thesis by (cases r) auto
qed (use assms in simp)

lemma init_conf_pidfile:
  assumes "init_conf h P F A = Some (Done (sigs, F1, c, B))"
    and "load (conf_files h) [] False (conf_file A) = Done (Some conf)"
  shows "pidfile B = get_str ''pidfile'' conf"
proof -
  let ?A = "A\<lparr>pidfile := get_str ''pidfile'' conf\<rparr>"
  have "is_file (conf_files h) (conf_file A)" "can_chdir h (real_dirname (cwd h) (conf_file A))"
    using assms by (auto simp: init_conf_def split: if_splits)
  with assms have "B = ?A"
    by (auto simp: init_conf_def Let_def elim!: bind_outcome_Done split: if_splits prod.splits)
  then show ?thesis by simp
qed

lemma init_pidfile:
  assumes "init h P fork answers L F A = Some (Done (sigs, L1, F1, B))"
    and "load (conf_files h) [] False (conf_file A) = Done (Some conf)"
  shows "pidfile B = get_str ''pidfile'' conf"
proof -
  have work: "pidfile B = pidfile A1" if "start_work h c fork answers A1 = Done B" for c A1
    using that by (auto simp: start_work_def Let_def split: if_splits sum.splits)
  from assms(1) obtain r where r: "init_conf h P F A = Some r" by (auto simp: init_def bind_eq_Some_conv)
  with assms(1) obtain x where "r = Done x" by (cases r) (auto simp: init_def)
  then obtain sg F2 c A1 where x: "r = Done (sg, F2, c, A1)" by (cases x) auto
  with assms(1) r have "start_work h c fork answers A1 = Done B"
    by (auto simp: init_def split: sum.splits prod.splits)
  with r x init_conf_pidfile [OF _ assms(2)] work show ?thesis by metis
qed

lemma init_start_existing:
  assumes "start_opt A = ''start'' \<and> file_exists h F pf"
    and "load (conf_files h) [] False (conf_file A) = Done (Some conf)"
    and "pf = get_str ''pidfile'' conf" "pf \<noteq> []"
  shows "init h P fork answers L F A = Some (Fault (Exit 1))"
  using assms by (simp add: init_def init_conf_def Let_def check_pidfile_def)

section \<open>Properties\<close>

text \<open>Stopping reaches the server that was started: the process id that \<open>write_pid\<close> put into the pid
  file, on a disk with room for it, is read back, so that \<open>kill_process\<close> with the same configuration signals exactly this process
  and returns when the pid file is gone; it refuses to act without a pid file (\<open>remove\<close> is taken to
  succeed).\<close>

theorem stop_reaches_server:
  assumes "write_pid h pid F A = Done F'" and "pidfile A \<noteq> []" and "0 < pid" "pid \<le> INT_MAX"
    and "pidfile B = pidfile A" and "length (str_int pid) \<le> disk_room h" and "can_remove h"
  shows "read_pid F' B = pid \<and>
    (probe P pid = Killed \<and> terminate P pid = Killed \<and> cleans_up P pid \<longrightarrow>
       kill_process h P F' B = Some (Done ([pid], remove_pidfile h F' B))) \<and>
    (probe P pid = No_such_process \<longrightarrow>
       kill_process h P F' B = Some (Done ([], remove_pidfile h F' B))) \<and>
    kill_process h P (remove_pidfile h F' B) B = Some (Fault (Exit 1))"
proof -
  have "read_pid F' B = read_pid F' A" using assms(5) by (simp add: read_pid_def)
  with written_pid_read [OF assms(1,2)] assms(3-6)
  have r: "read_pid F' B = pid" "file_exists h F' (pidfile B)" by auto
  have "read_pid (remove_pidfile h F' B) B = -1"
    using assms(2,5,7) by (simp add: read_pid_def remove_pidfile_def remove_file_def file_get_contents_def)
  with r assms(3) show ?thesis by (simp add: kill_process_def Let_def)
qed

definition sample_host :: host where
  "sample_host = \<lparr>conf_files = (\<lambda>f. Some (''pidfile: p'' @ [CHR 0x0A])), work_dirs = (\<lambda>d. d = ''.''),
     cwd = Some ''/'', can_chdir = (\<lambda>d. True), can_write = True, disk_room = 4096, io_block = 4096, can_remove = True,
     can_open_log = True, can_stat_log = True\<rparr>"

definition sample_disk :: fs where
  "sample_disk = \<lparr>names = (\<lambda>f. if f = ''p'' then Some 0 else None), data = (\<lambda>i. ''7''),
     next_inode = 1, std_out = [], std_err = []\<rparr>"

definition sample_conf :: config where
  "sample_conf = Node ''root'' [] 0 [Node ''pidfile'' ''p'' 1 []]"

lemma load_sample_conf:
  "load (conf_files sample_host) [] False f = Done (Some sample_conf)" if "f \<noteq> ''stdout''"
proof -
  have "load_loop (''pidfile: p'' @ [CHR 0x0A]) ([root_node], 0) = Done (Some sample_conf)"
    by code_simp
  with that show ?thesis by (simp add: load_def sample_host_def)
qed

lemma sample_pidfile: "get_str ''pidfile'' sample_conf = ''p''"
  by code_simp

lemma stop_reaches_server_witness:
  "\<exists>F'. write_pid sample_host 42 sample_disk (AppArgs\<lparr>pidfile := ''p''\<rparr>) = Done F' \<and>
    kill_process sample_host
      \<lparr>probe = (\<lambda>p. Killed), terminate = (\<lambda>p. Killed), cleans_up = (\<lambda>p. True)\<rparr> F'
      (AppArgs\<lparr>pidfile := ''p''\<rparr>) = Some (Done ([42], remove_pidfile sample_host F' (AppArgs\<lparr>pidfile := ''p''\<rparr>)))"
proof -
  have "str_int 42 = ''42''" by code_simp
  then obtain F' where "write_pid sample_host 42 sample_disk (AppArgs\<lparr>pidfile := ''p''\<rparr>) = Done F'"
    by (simp add: write_pid_def file_put_contents_def fopen_append_def sample_host_def sample_disk_def)
  with stop_reaches_server [OF this, of "AppArgs\<lparr>pidfile := ''p''\<rparr>"
      "\<lparr>probe = (\<lambda>p. Killed), terminate = (\<lambda>p. Killed), cleans_up = (\<lambda>p. True)\<rparr>"] \<open>str_int 42 = ''42''\<close>
  show ?thesis by (simp add: sample_host_def)
qed

text \<open>C40. The life of a server with a pid file. \<open>run\<close> is only ever entered while the pid file exists
  and holds the process's own id, so that it is read back as such, if the disk has room for it; on a full
  disk \<open>run\<close> is entered all the same, with as much of the id in the file as there was room for. A
  start while the pid file exists ends with an error. When \<open>run\<close> returns no pid file is left behind,
  unless \<open>remove\<close> fails, and then it stays as \<open>run\<close> left it.\<close>

theorem pidfile_guards_run:
  assumes "0 < pid" "pid \<le> INT_MAX" and "parse_arg_list args AppArgs = Done A"
    and "load (conf_files h) [] False (conf_file A) = Done (Some conf)"
    and "pf = get_str ''pidfile'' conf" "pf \<noteq> []"
  shows "app_main h P fork answers pid
      (\<lambda>B F. if pidfile B = pf \<and> file_exists h F pf \<and>
                snd (file_get_contents F pf []) = take (disk_room h) (str_int pid) \<and>
                (length (str_int pid) \<le> disk_room h \<longrightarrow> read_pid F B = pid)
             then run B F else Some (Fault Uncaught)) args F =
    app_main h P fork answers pid run args F \<and>
    (start_opt A = ''start'' \<and> file_exists h F pf \<longrightarrow>
      app_main h P fork answers pid run args F = Some (Fault (Exit 1))) \<and>
    (app_main h P fork answers pid run args F = Some (Done (sigs, F')) \<longrightarrow>
      (\<exists>B F2 F3. run B F2 = Some (Done F3) \<and>
        names F' pf = (if can_remove h then None else names F3 pf)))"
proof (cases "init h P fork answers Logger_new F A")
  case None
  with assms(3) init_start_existing [OF _ assms(4,5,6)] show ?thesis
    by (auto simp: app_main_def)
next
  case (Some r)
  show ?thesis
  proof (cases r)
    case (Inl f)
    with Some assms(3) init_start_existing [OF _ assms(4,5,6)] show ?thesis
      by (fastforce simp: app_main_def)
  next
    case (Inr x)
    obtain sg L F1 B where x: "x = (sg, L, F1, B)" by (cases x)
    from Some Inr x have init: "init h P fork answers Logger_new F A = Some (Done (sg, L, F1, B))" by simp
    from init_pidfile [OF this assms(4)] assms(5) have B: "pidfile B = pf" by simp
    have "\<not> (start_opt A = ''start'' \<and> file_exists h F pf)"
      using init_start_existing [OF _ assms(4,5,6)] init by fastforce
    moreover have "file_exists h F2 pf" "snd (file_get_contents F2 pf []) = take (disk_room h) (str_int pid)"
      "length (str_int pid) \<le> disk_room h \<Longrightarrow> read_pid F2 B = pid"
      if "write_pid h pid F1 B = Done F2" for F2
      using written_pid [OF that] written_pid_read [OF that] B assms by simp_all
    ultimately show ?thesis
      using B assms(3,6) init
      by (auto simp: app_main_def remove_pidfile_def remove_file_def
          split: sum.splits option.splits prod.splits)
  qed
qed

text \<open>A start on a disk without the pid file: \<open>run\<close> sees the file, and it is gone afterwards.\<close>

definition sample_processes :: processes where
  "sample_processes = \<lparr>probe = (\<lambda>p. Killed), terminate = (\<lambda>p. Killed), cleans_up = (\<lambda>p. True)\<rparr>"

definition ended_with :: "(int list \<times> fs) outcome option \<Rightarrow> (int list \<times> nat option) option" where
  "ended_with r = (case r of Some (Done (sigs, F)) \<Rightarrow> Some (sigs, names F ''p'') | _ \<Rightarrow> None)"

definition sample_run :: "app \<Rightarrow> fs \<Rightarrow> fs outcome option" where
  "sample_run A F = Some (if read_pid F A = 42 then Done F else Fault Uncaught)"

lemma sample_args: "parse_arg_list [''app.conf''] AppArgs = Done (AppArgs\<lparr>conf_file := ''app.conf''\<rparr>)"
  by (simp add: AppArgs_def)

lemma sample_start:
  "ended_with (app_main sample_host sample_processes Child [] 42 sample_run [''app.conf'']
     (sample_disk\<lparr>names := Map.empty\<rparr>)) = Some ([], None)"
  by code_simp

lemma pidfile_guards_run_witness:
  "app_main sample_host sample_processes Child [] 42 sample_run [''app.conf''] sample_disk =
     Some (Fault (Exit 1)) \<and>
   (\<exists>F'. app_main sample_host sample_processes Child [] 42 sample_run [''app.conf'']
      (sample_disk\<lparr>names := Map.empty\<rparr>) = Some (Done ([], F')) \<and> names F' ''p'' = None)"
proof -
  note p = pidfile_guards_run [OF _ _ sample_args load_sample_conf refl, of 42]
  from p have "app_main sample_host sample_processes Child [] 42 sample_run [''app.conf''] sample_disk =
     Some (Fault (Exit 1))"
    by (simp add: sample_pidfile AppArgs_def file_exists_def sample_disk_def)
  moreover from sample_start obtain F' where
    F': "app_main sample_host sample_processes Child [] 42 sample_run [''app.conf'']
      (sample_disk\<lparr>names := Map.empty\<rparr>) = Some (Done ([], F'))"
    by (auto simp: ended_with_def split: option.splits sum.splits prod.splits)
  moreover from this p have "names F' ''p'' = None"
    by (auto simp: sample_pidfile sample_host_def)
  ultimately show ?thesis by blast
qed

end
