(* ===== verification/BenchClient.thy ===== *)
theory BenchClient
  imports KvStore
begin

text \<open>
  \<open>client/main.cpp\<close> and \<open>client/utils.cpp\<close>: the load generator. Its counters are 32-bit words,
  so the sending loops are partial functions, \<^const>\<open>None\<close> where a loop never ends. The socket
  is not looked at: \<open>send\<close> and \<open>recv\<close> are called and their results ignored. The loops return
  the counter and the number of requests they made. Times are pairs of seconds and nanoseconds.
\<close>

section \<open>The messages\<close>

text \<open>What the client sends over TCP: a GET of sixteen spaces.\<close>

definition bench_message :: send_message where
  "bench_message = \<lparr>operation = CHR 0x00, keepalive = CHR 0x04, key = replicate 16 CHR 0x20,
     msg_value = replicate 32 CHR 0xFF\<rparr>"

definition bench_request :: "16 word \<Rightarrow> string" where
  "bench_request m = concat (replicate (unat m) (encode_send bench_message))"

text \<open>\<open>sprintf("%02X")\<close> of a \<open>char\<close>: a negative one is promoted to eight digits.\<close>

fun show_hex :: "nat \<Rightarrow> string" where
  "show_hex n = (if n < 16 then [''0123456789ABCDEF'' ! n]
                 else show_hex (n div 16) @ [''0123456789ABCDEF'' ! (n mod 16)])"

declare show_hex.simps [simp del]

definition hex_char :: "char \<Rightarrow> string" where
  "hex_char c =
     (let s = show_hex (nat (schar c mod 2 ^ 32)) in if length s < 2 then CHR ''0'' # s else s)"

text \<open>The text printed into an array of \<open>room\<close> bytes, one character after the other, each \<open>sprintf\<close>
  with its terminating NUL.\<close>

fun hex_into :: "nat \<Rightarrow> string \<Rightarrow> string \<Rightarrow> string outcome" where
  "hex_into room out [] = Done out"
| "hex_into room out (c # cs) =
     (let out' = out @ hex_char c in
      if room < length out' + 1 then Fault Out_of_bounds else hex_into room out' cs)"

definition print_message :: "send_message \<Rightarrow> (string \<times> string \<times> string) outcome" where
  "print_message m =
     (case hex_into 33 [] (key m) of
        Fault f \<Rightarrow> Fault f
      | Done k \<Rightarrow>
          (case hex_into 65 [] (msg_value m) of
             Fault f \<Rightarrow> Fault f
           | Done v \<Rightarrow> Done (show_hex (nat (schar (operation m) mod 2 ^ 32)), k, v)))"

section \<open>The sending loops\<close>

text \<open>\<open>while (msgs_sent < num - 100)\<close> with 32-bit arithmetic; the second component counts the
  requests. In verbose mode every message is printed after each request.\<close>

partial_function (option) tcp_loop ::
  "32 word \<Rightarrow> 32 word \<Rightarrow> 32 word \<Rightarrow> nat \<Rightarrow> (32 word \<times> nat) option" where
  "tcp_loop msgs_per_request limit msgs_sent requests =
     (if msgs_sent < limit
      then tcp_loop msgs_per_request limit (msgs_sent + msgs_per_request) (Suc requests)
      else Some (msgs_sent, requests))"

text \<open>The outer option is \<^const>\<open>None\<close> when the loop does not return.\<close>

definition send_tcp_requests ::
  "bool \<Rightarrow> 16 word \<Rightarrow> 32 word \<Rightarrow> ((32 word \<times> nat) outcome) option" where
  "send_tcp_requests g_verbose msgs_per_request num =
     (if g_verbose \<and> 0 < num - 100 \<and> 0 < msgs_per_request
      then (case print_message bench_message of
              Fault f \<Rightarrow> Some (Fault f)
            | Done t \<Rightarrow> map_option Done (tcp_loop (ucast msgs_per_request) (num - 100) 0 0))
      else map_option Done (tcp_loop (ucast msgs_per_request) (num - 100) 0 0))"

lemma tcp_loop_done: "\<not> sent < limit \<Longrightarrow> tcp_loop m limit sent k = Some (sent, k)"
  by (simp add: tcp_loop.simps [of m limit sent k])

lemma tcp_loop_more: "sent < limit \<Longrightarrow> tcp_loop m limit sent k = tcp_loop m limit (sent + m) (Suc k)"
  by (simp add: tcp_loop.simps [of m limit sent k])

text \<open>Without messages per request the counter stands still.\<close>

lemma tcp_loop_zero: "0 < limit \<Longrightarrow> tcp_loop 0 limit 0 k = None"
proof -
  have "tcp_loop m limit s k = Some r \<Longrightarrow> m = 0 \<Longrightarrow> \<not> s < limit" for m s k r
    by (induction arbitrary: r rule: tcp_loop.raw_induct [rotated, consumes 1])
      (auto split: if_splits)
  then show "0 < limit \<Longrightarrow> tcp_loop 0 limit 0 k = None"
    by (cases "tcp_loop 0 limit 0 k") auto
qed

lemma unat_msgs_per_request: "unat (ucast (m :: 16 word) :: 32 word) = unat m"
proof -
  have "uint (ucast m :: 32 word) = uint m" by (rule uint_up_ucast) (simp add: is_up)
  then show ?thesis by (metis unat_eq_nat_uint)
qed

text \<open>How many steps of \<open>m\<close> lead from \<open>s\<close> to \<open>l\<close>: one more than from \<open>s + m\<close>.\<close>

lemma ceiling_step:
  fixes m s l :: nat
  assumes "0 < m" and "s < l"
  shows "(l - s + m - 1) div m = Suc ((l - (s + m) + m - 1) div m)"
proof (cases "s + m \<le> l")
  case True
  with assms have "l - s + m - 1 = (l - (s + m) + m - 1) + m" by simp
  with assms show ?thesis by (simp only: div_add_self2 less_not_refl3 Suc_eq_plus1 if_True)
next
  case False
  moreover from this assms have "(l - s + m - 1) div m = 1" by (intro div_nat_eqI) auto
  ultimately show ?thesis using assms by simp
qed

text \<open>With room for one more step below the word size, the loop stops at the first multiple of \<open>m\<close>
  that reaches the limit.\<close>

lemma tcp_loop_returns:
  assumes "0 < m" and "unat limit + unat m \<le> 2 ^ 32" and "unat sent < unat limit + unat m"
  shows "\<exists>s. tcp_loop m limit sent k = Some (s, k + (unat limit - unat sent + unat m - 1) div unat m) \<and>
    unat s = unat sent + (unat limit - unat sent + unat m - 1) div unat m * unat m"
  using assms(3)
proof (induction "unat limit - unat sent" arbitrary: sent k rule: less_induct)
  case less
  from assms(1) have m: "0 < unat m" by (simp add: unat_gt_0)
  show ?case
  proof (cases "sent < limit")
    case False
    then have "unat limit \<le> unat sent" by (simp add: word_less_nat_alt)
    with m have "(unat limit - unat sent + unat m - 1) div unat m = 0" by simp
    with False show ?thesis by (simp add: tcp_loop_done)
  next
    case True
    then have lt: "unat sent < unat limit" by (simp add: word_less_nat_alt)
    with assms(2) have add: "unat (sent + m) = unat sent + unat m"
      by (subst unat_add_lem [THEN iffD1]) auto
    with lt m have "unat limit - unat (sent + m) < unat limit - unat sent"
      "unat (sent + m) < unat limit + unat m" by simp_all
    from less.hyps [OF this, of "Suc k"] obtain s where
      s: "tcp_loop m limit (sent + m) (Suc k) =
          Some (s, Suc k + (unat limit - unat (sent + m) + unat m - 1) div unat m)"
        "unat s = unat (sent + m) + (unat limit - unat (sent + m) + unat m - 1) div unat m * unat m"
      by blast
    have "(unat limit - unat sent + unat m - 1) div unat m =
        Suc ((unat limit - unat (sent + m) + unat m - 1) div unat m)"
      unfolding add using m lt by (rule ceiling_step)
    with s True add show ?thesis by (auto simp: tcp_loop_more)
  qed
qed

text \<open>The UDP variant, which nothing calls: only the key of a message is filled in, by sixteen calls
  of \<open>rand()\<close>, the other fields are what the stack held. The arguments count the random numbers; the
  loop returns the requests and the counter.\<close>

definition udp_message :: "send_message \<Rightarrow> (nat \<Rightarrow> nat) \<Rightarrow> nat \<Rightarrow> send_message" where
  "udp_message garbage rnd p =
     garbage\<lparr>key := map (\<lambda>j. char_of (rnd (p + j) mod 256)) [0..<16]\<rparr>"

definition udp_request :: "(nat \<Rightarrow> send_message) \<Rightarrow> (nat \<Rightarrow> nat) \<Rightarrow> nat \<Rightarrow> nat \<Rightarrow> send_message list" where
  "udp_request stack rnd m p = map (\<lambda>i. udp_message (stack (p + 16 * i)) rnd (p + 16 * i)) [0..<m]"

partial_function (option) send_udp_requests ::
  "(nat \<Rightarrow> send_message) \<Rightarrow> (nat \<Rightarrow> nat) \<Rightarrow> 16 word \<Rightarrow> 32 word \<Rightarrow> 32 word \<Rightarrow> nat \<Rightarrow>
   (send_message list list \<times> 32 word) option" where
  "send_udp_requests stack rnd m num msgs_sent p =
     (if msgs_sent < num
      then Option.bind (send_udp_requests stack rnd m num (msgs_sent + ucast m) (p + 16 * unat m))
             (\<lambda>(reqs, s). Some (udp_request stack rnd (unat m) p # reqs, s))
      else Some ([], msgs_sent))"

text \<open>It makes as many requests as the TCP loop does with the same limit.\<close>

lemma udp_counts:
  assumes "tcp_loop m num sent k = Some r" and "m = ucast w"
  shows "\<exists>reqs. send_udp_requests stack rnd w num sent p = Some (reqs, fst r) \<and> snd r = k + length reqs"
proof -
  have "\<forall>p. m = ucast w \<longrightarrow>
      (\<exists>reqs. send_udp_requests stack rnd w num sent p = Some (reqs, fst r) \<and> snd r = k + length reqs)"
    using assms(1)
  proof (induction m num sent k r rule: tcp_loop.raw_induct [rotated, consumes 1])
    case (1 rec m num sent k r)
    show ?case
    proof (cases "sent < num")
      case True
      with 1(2) have "rec m num (sent + m) (Suc k) = Some r" by simp
      note IH = 1(1) [OF this]
      show ?thesis
      proof (intro allI impI)
        fix p
        assume "m = ucast w"
        with IH obtain reqs where
          "send_udp_requests stack rnd w num (sent + ucast w) (p + 16 * unat w) = Some (reqs, fst r)"
          "snd r = Suc k + length reqs"
          by blast
        with True show "\<exists>reqs. send_udp_requests stack rnd w num sent p = Some (reqs, fst r) \<and>
            snd r = k + length reqs"
          by (intro exI [of _ "udp_request stack rnd (unat w) p # reqs"])
            (simp add: send_udp_requests.simps [of stack rnd w num sent])
      qed
    next
      case False
      with 1(2) show ?thesis by (subst send_udp_requests.simps) auto
    qed
  qed
  with assms(2) show ?thesis by blast
qed

section \<open>Merging the results of the connections\<close>

type_synonym timespec = "int \<times> int"

definition before :: "timespec \<Rightarrow> timespec \<Rightarrow> bool" where
  "before s t \<longleftrightarrow> (if fst s = fst t then snd s < snd t else fst s < fst t)"

definition min_timespec :: "timespec \<Rightarrow> timespec \<Rightarrow> timespec" where
  "min_timespec t1 t2 = (if before t1 t2 then t1 else t2)"

definition max_timespec :: "timespec \<Rightarrow> timespec \<Rightarrow> timespec" where
  "max_timespec t1 t2 = (if before t2 t1 then t1 else t2)"

record benchmark_results =
  tstart :: timespec
  tend :: timespec
  messages_sent :: "32 word"

record totals =
  earliest_start :: timespec
  latest_end :: timespec
  total_messages_sent :: "64 word"

definition totals_new :: totals where
  "totals_new = \<lparr>earliest_start = (0, 0), latest_end = (0, 0), total_messages_sent = 0\<rparr>"

definition add_result :: "totals \<Rightarrow> benchmark_results \<Rightarrow> totals" where
  "add_result T br =
     \<lparr>earliest_start =
        (if fst (earliest_start T) = 0 \<and> fst (latest_end T) = 0 then tstart br
         else min_timespec (tstart br) (earliest_start T)),
      latest_end =
        (if fst (earliest_start T) = 0 \<and> fst (latest_end T) = 0 then tend br
         else max_timespec (tend br) (latest_end T)),
      total_messages_sent = total_messages_sent T + ucast (messages_sent br)\<rparr>"

definition merge_results :: "benchmark_results list \<Rightarrow> totals" where
  "merge_results brs = foldl add_result totals_new brs"

section \<open>The command line\<close>

record bench_options =
  ip_addr :: "string option"
  port :: "16 word"
  num_of_connections :: "16 word"
  msgs_per_request :: "16 word"
  num_of_msgs :: "32 word"
  delay :: "32 word"
  verbose :: bool
  req_args :: "8 word"

definition bench_options_new :: bench_options where
  "bench_options_new = \<lparr>ip_addr = None, port = 0, num_of_connections = 1, msgs_per_request = 1,
     num_of_msgs = 1024, delay = 0, verbose = False, req_args = 3\<rparr>"

text \<open>\<open>htons\<close> on a little-endian machine.\<close>

definition htons :: "16 word \<Rightarrow> 16 word" where
  "htons w = or (push_bit 8 w) (drop_bit 8 w)"

text \<open>One option of \<open>getopt\<close> with its argument; anything else prints the help and exits.\<close>

definition bench_option :: "bench_options \<Rightarrow> char \<times> string \<Rightarrow> bench_options outcome" where
  "bench_option R opt =
     (let (c, optarg) = opt in
      if c = CHR ''i'' then Done (R\<lparr>ip_addr := Some optarg, req_args := and (req_args R) 2\<rparr>)
      else if c = CHR ''p''
      then Done (R\<lparr>port := htons (word_of_int (atoi optarg)), req_args := and (req_args R) 1\<rparr>)
      else if c = CHR ''c'' then Done (R\<lparr>num_of_connections := word_of_int (atoi optarg)\<rparr>)
      else if c = CHR ''m'' then Done (R\<lparr>msgs_per_request := word_of_int (atoi optarg)\<rparr>)
      else if c = CHR ''n'' then Done (R\<lparr>num_of_msgs := word_of_int (atoi optarg)\<rparr>)
      else if c = CHR ''d'' then Done (R\<lparr>delay := word_of_int (atoi optarg)\<rparr>)
      else if c = CHR ''v'' then Done (R\<lparr>verbose := True\<rparr>)
      else Fault (Exit 1))"

fun bench_parse :: "(char \<times> string) list \<Rightarrow> bench_options \<Rightarrow> bench_options outcome" where
  "bench_parse [] R = (if req_args R \<noteq> 0 then Fault (Exit 1) else Done R)"
| "bench_parse (opt # opts) R =
     (case bench_option R opt of Fault f \<Rightarrow> Fault f | Done R' \<Rightarrow> bench_parse opts R')"

text \<open>The flags of the required options are cleared by \<open>-i\<close> and \<open>-p\<close> alone: the benchmark runs only
  when both were given, and with exactly the options that were given.\<close>

lemma bench_option_flags:
  assumes "bench_option R (c, a) = Done R'" and "req_args R \<in> {0, 1, 2, 3}"
  shows "req_args R' = (if c = CHR ''i'' then and (req_args R) 2
      else if c = CHR ''p'' then and (req_args R) 1 else req_args R)"
    and "req_args R' \<in> {0, 1, 2, 3}" and "c \<in> set ''ipcmndv''"
  using assms by (auto simp: bench_option_def split: if_splits)

lemma bench_parse_required:
  assumes "bench_parse opts R = Done R'" and "req_args R \<in> {0, 1, 2, 3}"
  shows "(and (req_args R) 1 = 1 \<longrightarrow> CHR ''i'' \<in> fst ` set opts) \<and>
         (and (req_args R) 2 = 2 \<longrightarrow> CHR ''p'' \<in> fst ` set opts) \<and>
         fst ` set opts \<subseteq> set ''ipcmndv''"
  using assms
proof (induction opts arbitrary: R)
  case Nil
  then show ?case by (auto split: if_splits)
next
  case (Cons opt opts)
  obtain c a where opt: "opt = (c, a)" by (cases opt)
  from Cons.prems(1) opt obtain R1 where R1: "bench_option R (c, a) = Done R1"
    and rest: "bench_parse opts R1 = Done R'" by (auto split: sum.splits)
  from bench_option_flags [OF R1 Cons.prems(2)] Cons.IH [OF rest] Cons.prems(2) opt
  show ?case by (auto split: if_splits)
qed

lemma before_total: "before s t \<or> before t s \<or> s = t"
  by (cases s; cases t) (auto simp: before_def)

lemma before_trans: "before s t \<Longrightarrow> before t u \<Longrightarrow> before s u"
  by (auto simp: before_def split: if_splits)

lemma not_before_trans: "\<not> before t s \<Longrightarrow> \<not> before u t \<Longrightarrow> \<not> before u s"
  by (auto simp: before_def split: if_splits)

lemma before_irrefl [simp]: "\<not> before t t"
  by (simp add: before_def)

text \<open>What the totals are after some connections, none of which ended within the first second of
  the clock.\<close>

definition merged :: "benchmark_results list \<Rightarrow> totals \<Rightarrow> bool" where
  "merged brs T \<longleftrightarrow>
     earliest_start T \<in> tstart ` set brs \<and> latest_end T \<in> tend ` set brs \<and>
     (\<forall>br \<in> set brs. \<not> before (tstart br) (earliest_start T) \<and> \<not> before (latest_end T) (tend br)) \<and>
     0 < fst (latest_end T) \<and>
     total_messages_sent T = sum_list (map (\<lambda>br. ucast (messages_sent br)) brs)"

lemma merged_first: "0 < fst (tend br) \<Longrightarrow> merged [br] (add_result totals_new br)"
  by (simp add: merged_def add_result_def totals_new_def)

lemma merged_next:
  assumes m: "merged brs T" and e: "0 < fst (tend br)"
  shows "merged (brs @ [br]) (add_result T br)"
proof -
  have T: "earliest_start (add_result T br) = min_timespec (tstart br) (earliest_start T)"
    "latest_end (add_result T br) = max_timespec (tend br) (latest_end T)"
    "total_messages_sent (add_result T br) = total_messages_sent T + ucast (messages_sent br)"
    using m by (simp_all add: merged_def add_result_def)
  have "\<not> before b (min_timespec a c)" if "\<not> before b c" for a b c
    using that before_trans [of b a c] by (auto simp: min_timespec_def)
  moreover have "\<not> before a (min_timespec a c)" for a c
    by (simp add: min_timespec_def)
  moreover have "\<not> before (max_timespec a c) b" if "\<not> before c b" for a b c
    using that before_trans [of c a b] by (auto simp: max_timespec_def)
  moreover have "\<not> before (max_timespec a c) a" for a c
    by (simp add: max_timespec_def)
  moreover have "min_timespec (tstart br) (earliest_start T) \<in> tstart ` set (brs @ [br])"
    "max_timespec (tend br) (latest_end T) \<in> tend ` set (brs @ [br])"
    "0 < fst (max_timespec (tend br) (latest_end T))"
    using m e by (auto simp: merged_def min_timespec_def max_timespec_def)
  ultimately show ?thesis using m by (auto simp: merged_def T)
qed

lemma merged_all:
  "merged bs T \<Longrightarrow> \<forall>br \<in> set brs. 0 < fst (tend br) \<Longrightarrow> merged (bs @ brs) (foldl add_result T brs)"
proof (induction brs arbitrary: bs T)
  case (Cons br brs)
  from merged_next [OF Cons.prems(1), of br] Cons.prems(2)
  have "merged (bs @ [br]) (add_result T br)" by simp
  from Cons.IH [OF this] Cons.prems(2) show ?case by simp
qed simp

section \<open>Properties\<close>

text \<open>Verbose mode overruns a buffer: a byte of 0x80 and above prints as eight digits, and the
  client's own messages carry a value of 0xFF bytes, so the first message printed is written past
  the end of \<open>value\<close>.\<close>

lemma bench_message_overruns: "print_message bench_message = Fault Out_of_bounds"
proof -
  have "hex_char CHR 0x20 = ''20''" "hex_char CHR 0xFF = ''FFFFFFFF''"
    by (simp_all add: hex_char_def schar_def code_of_def show_hex.simps)
  then show ?thesis by (simp add: print_message_def bench_message_def numeral_eq_Suc)
qed

lemma verbose_client_overruns:
  assumes "0 < m" and "num \<noteq> 100"
  shows "send_tcp_requests True m num = Some (Fault Out_of_bounds)"
  using assms by (simp add: send_tcp_requests_def word_gt_0 bench_message_overruns)

lemma quiet_client_returns:
  assumes "0 < m" "unat (num - 100) + unat m \<le> 2 ^ 32" and "\<not> g_verbose \<or> num = 100"
  shows "\<exists>s. send_tcp_requests g_verbose m num =
      Some (Done (s, (unat (num - 100) + unat m - 1) div unat m)) \<and>
    unat s = (unat (num - 100) + unat m - 1) div unat m * unat m"
proof -
  note u = unat_msgs_per_request [of m]
  from assms(1) have "0 < (ucast m :: 32 word)" using u by (metis unat_gt_0 word_gt_0)
  from tcp_loop_returns [OF this, of "num - 100" 0 0] assms u show ?thesis
    using unat_gt_0 [of m] by (auto simp: send_tcp_requests_def word_gt_0)
qed

text \<open>C34. What the TCP loop does, in either mode. Without messages per request it never returns, unless
  \<open>num\<close> is 100, when it returns at once. With messages, verbose mode is undefined behaviour
  before the first request is done with (the message printed overruns a buffer), again unless \<open>num\<close> is
  100. Otherwise, whenever the limit \<open>num - 100\<close> (computed in 32 bits) leaves room for one request
  below the word size, the loop returns: it makes \<open>ceil((num - 100) / msgs_per_request)\<close> requests and
  reports their messages. A larger limit, where the counter can wrap past it, is not covered.\<close>

theorem bench_loop_termination:
  "(m = 0 \<longrightarrow> send_tcp_requests g_verbose m num = (if num = 100 then Some (Done (0, 0)) else None)) \<and>
   (0 < m \<and> g_verbose \<and> num \<noteq> 100 \<longrightarrow>
     send_tcp_requests g_verbose m num = Some (Fault Out_of_bounds)) \<and>
   (0 < m \<and> (\<not> g_verbose \<or> num = 100) \<and> unat (num - 100) + unat m \<le> 2 ^ 32 \<longrightarrow>
     (\<exists>s. send_tcp_requests g_verbose m num =
            Some (Done (s, (unat (num - 100) + unat m - 1) div unat m)) \<and>
          unat s = (unat (num - 100) + unat m - 1) div unat m * unat m))"
proof (intro conjI impI)
  assume "m = 0"
  then show "send_tcp_requests g_verbose m num = (if num = 100 then Some (Done (0, 0)) else None)"
    by (simp add: send_tcp_requests_def tcp_loop_zero tcp_loop_done word_gt_0)
next
  assume "0 < m \<and> g_verbose \<and> num \<noteq> 100"
  then show "send_tcp_requests g_verbose m num = Some (Fault Out_of_bounds)"
    by (simp add: verbose_client_overruns)
next
  assume "0 < m \<and> (\<not> g_verbose \<or> num = 100) \<and> unat (num - 100) + unat m \<le> 2 ^ 32"
  then show "\<exists>s. send_tcp_requests g_verbose m num =
      Some (Done (s, (unat (num - 100) + unat m - 1) div unat m)) \<and>
    unat s = (unat (num - 100) + unat m - 1) div unat m * unat m"
    by (intro quiet_client_returns) auto
qed

lemma bench_loop_termination_witness:
  "(\<exists>s. send_tcp_requests False 10 1024 = Some (Done (s, 93)) \<and> unat s = 930) \<and>
   (\<exists>s. send_tcp_requests False 1 99 = Some (Done (s, 4294967295)) \<and> unat s = 4294967295) \<and>
   send_tcp_requests False 0 1024 = None \<and>
   send_tcp_requests True 0 100 = Some (Done (0, 0)) \<and>
   send_tcp_requests True 1 1024 = Some (Fault Out_of_bounds)"
  using bench_loop_termination [of 10 False 1024] bench_loop_termination [of 1 False 99]
    bench_loop_termination [of 0 False 1024] bench_loop_termination [of 0 True 100]
    bench_loop_termination [of 1 True 1024]
  by (simp add: unsigned_minus_1_eq_mask mask_eq_exp_minus_1)

text \<open>The parent's totals: when every connection ended after the first second of the clock, the
  earliest start and the latest end are those of the connections and the message counts are added
  up in 64 bits.\<close>

theorem merged_results:
  assumes "brs \<noteq> []" and "\<forall>br \<in> set brs. 0 < fst (tend br)"
  shows "earliest_start (merge_results brs) \<in> tstart ` set brs \<and>
         latest_end (merge_results brs) \<in> tend ` set brs \<and>
         (\<forall>br \<in> set brs. \<not> before (tstart br) (earliest_start (merge_results brs)) \<and>
            \<not> before (latest_end (merge_results brs)) (tend br)) \<and>
         total_messages_sent (merge_results brs) =
           sum_list (map (\<lambda>br. ucast (messages_sent br)) brs)"
proof -
  from assms obtain b bs where brs: "brs = b # bs" by (cases brs) auto
  with assms merged_all [OF merged_first [of b], of bs] have "merged brs (merge_results brs)"
    by (simp add: merge_results_def)
  then show ?thesis by (simp add: merged_def)
qed

lemma merged_results_witness:
  "earliest_start (merge_results
     [\<lparr>tstart = (5, 7), tend = (9, 1), messages_sent = 10\<rparr>,
      \<lparr>tstart = (5, 3), tend = (8, 9), messages_sent = 20\<rparr>]) \<in> {(5, 7), (5, 3)}"
  using merged_results [of "[\<lparr>tstart = (5, 7), tend = (9, 1), messages_sent = 10\<rparr>,
      \<lparr>tstart = (5, 3), tend = (8, 9), messages_sent = 20\<rparr>]"] by simp

end
