(* ===== verification/CheckOutput.thy ===== *)
theory CheckOutput
  imports KvStore
begin

text \<open>
  \<open>testclient/redooutput.c\<close> and \<open>testclient/checkoutput.c\<close>: the tools that judge a test run from the
  client's system call trace. The first joins calls that the trace shows in two parts, the second
  parses the messages in the traced strings, predicts the answer to every request with a map of its
  own and compares. A read past the end of a string and an uncaught exception of \<open>stoi\<close>, \<open>substr\<close>
  or \<open>at\<close> are faults. The prediction is compared with what the store promises.
\<close>

section \<open>redooutput.c: joining split calls\<close>

text \<open>\<open>s.find(p) != std::string::npos\<close>\<close>

fun contains_str :: "string \<Rightarrow> string \<Rightarrow> bool" where
  "contains_str [] p = (p = [])"
| "contains_str (c # s) p = (take (length p) (c # s) = p \<or> contains_str s p)"

text \<open>\<open>linestream >> token\<close>, on the token and what is left of the line: white space is skipped and
  the token runs to the next white space; when the line has no more words the token stays as it is.\<close>

definition next_word :: "string \<times> string \<Rightarrow> string \<times> string" where
  "next_word s =
     (case dropWhile isspace (snd s) of
        [] \<Rightarrow> (fst s, [])
      | c # cs \<Rightarrow> (takeWhile (\<lambda>c. \<not> isspace c) (c # cs), dropWhile (\<lambda>c. \<not> isspace c) (c # cs)))"

lemma next_word_shorter:
  "next_word (t, s) = (w, rest) \<Longrightarrow> length rest < length s \<or> w = t \<and> rest = []"
proof -
  assume n: "next_word (t, s) = (w, rest)"
  show ?thesis
  proof (cases "dropWhile isspace s")
    case Nil
    with n show ?thesis by (simp add: next_word_def)
  next
    case (Cons c cs)
    then have "length (c # cs) \<le> length s" using length_dropWhile_le [of isspace s] by simp
    moreover have "\<not> isspace c" using Cons hd_dropWhile [of isspace s] by simp
    moreover have "length (dropWhile (\<lambda>c. \<not> isspace c) cs) \<le> length cs" by (rule length_dropWhile_le)
    ultimately show ?thesis using n Cons by (auto simp: next_word_def)
  qed
qed

text \<open>The inner loop: it stops at a word with \<open>unfinished\<close> or at one that equals the word before,
  as it does when the line has no more words.\<close>

function join_words :: "string \<Rightarrow> string \<Rightarrow> string \<Rightarrow> string \<Rightarrow> string \<times> string" where
  "join_words token token2 linestream line2 =
     (if token = token2 \<or> contains_str token ''unfinished'' then (token, line2)
      else
        (let (next_token, rest) = next_word (token, linestream) in
         join_words next_token token rest (line2 @ '' '' @ token)))"
  by pat_completeness auto
termination
proof (relation "measure (\<lambda>(t, t2, s, l). 2 * length s + (if t = t2 then 0 else 1))", goal_cases)
  case (2 t t2 s l x next_token rest)
  then have "next_word (t, s) = (next_token, rest)" by simp
  from next_word_shorter [OF this] 2 show ?case by auto
qed simp

declare join_words.simps [simp del]

text \<open>One line of the trace: the pending texts by process and the line written, if any.\<close>

definition redo_line ::
  "(string \<rightharpoonup> string) \<Rightarrow> string \<Rightarrow> (string \<rightharpoonup> string) \<times> string option" where
  "redo_line pending line =
     (if \<not> (contains_str line ''send'' \<or> contains_str line ''recv'') then (pending, None)
      else
        (let (pid, linestream) = next_word ([], line);
             line2 = (case pending pid of None \<Rightarrow> [] | Some t \<Rightarrow> t);
             s0 = ([], linestream);
             s1 = (if contains_str line ''resumed>'' then next_word (next_word (next_word s0)) else s0);
             (token, rest) = next_word s1;
             (token, line2) = join_words token [] rest line2 in
         if contains_str token ''unfinished'' then (pending(pid \<mapsto> line2), None)
         else ((if pending pid = None then pending else pending(pid \<mapsto> [])),
               Some (pid @ '' '' @ line2 @ [CHR 0x0A]))))"

section \<open>checkoutput.c: parsing the traced strings\<close>

definition digit_at :: "string \<Rightarrow> int outcome" where
  "digit_at s = (if s \<noteq> [] \<and> is_digit (hd s) then Done (int (digit_val (hd s))) else Fault Uncaught)"

text \<open>The character at the front of the rest of the token: an escape is read as a decimal number.\<close>

definition traced_char :: "char \<Rightarrow> string \<Rightarrow> (char \<times> string) outcome" where
  "traced_char c cs =
     (if c = CHR 0x5C
      then (let ds = takeWhile is_digit cs in
            if int (digits_val ds) > INT_MAX then Fault Int_overflow
            else Done (byte_of (int (digits_val ds)), drop (length ds) cs))
      else Done (c, cs))"

text \<open>The loop of \<open>parseSend\<close> and \<open>parseResponse\<close> (\<open>bounded\<close>: the latter also stops at 32 bytes of
  value). A byte that went to the key is replaced by a question mark, and a question mark is never
  stored in the value. After a message the digit of the next one is read, and its escape skipped.\<close>

function token_loop ::
  "bool \<Rightarrow> string \<Rightarrow> string \<Rightarrow> string \<Rightarrow> int \<Rightarrow> (int \<times> string \<times> string) list \<Rightarrow>
   (int \<times> string \<times> string) list outcome" where
  "token_loop bounded rest k v code acc =
     (case rest of
        [] \<Rightarrow> Fault Out_of_bounds
      | c # cs \<Rightarrow>
          if c = CHR 0x22 \<or> bounded \<and> 32 \<le> length v then Done acc
          else
            (case traced_char c cs of
               Fault f \<Rightarrow> Fault f
             | Done (ch, rest1) \<Rightarrow>
                 (let k1 = (if length k < 16 then k @ [ch] else k);
                      ch1 = (if length k < 16 then CHR ''?'' else ch);
                      v1 = (if 16 \<le> length k1 \<and> length v < 32 \<and> ch1 \<noteq> CHR ''?'' then v @ [ch1] else v) in
                  if length k1 = 16 \<and> length v1 = 32
                  then (let acc1 = acc @ [(code, k1, v1)] in
                        if rest1 \<noteq> [] \<and> hd rest1 = CHR 0x22 then Done acc1
                        else (case digit_at (tl rest1) of
                                Fault f \<Rightarrow> Fault f
                              | Done d \<Rightarrow> token_loop bounded (drop 2 rest1) [] [] d acc1))
                  else token_loop bounded rest1 k1 v1 code acc)))"
  by pat_completeness auto
termination
  by (relation "measure (\<lambda>(b, rest, k, v, code, acc). length rest)")
    (auto simp: traced_char_def Let_def split: if_splits)

declare token_loop.simps [simp del]

definition parse_token :: "bool \<Rightarrow> string \<Rightarrow> (int \<times> string \<times> string) list outcome" where
  "parse_token bounded token =
     (if length token < 2 then Fault Uncaught
      else case digit_at (drop 2 token) of
        Fault f \<Rightarrow> Fault f
      | Done code \<Rightarrow>
          if length token < 5 then Fault Out_of_bounds
          else token_loop bounded (drop 5 token) [] [] code [])"

definition parseSend :: "string \<Rightarrow> (int \<times> string \<times> string) list outcome" where
  "parseSend token = parse_token False token"

definition parseResponse :: "string \<Rightarrow> (int \<times> string \<times> string) list outcome" where
  "parseResponse token = parse_token True token"

section \<open>Predicting and comparing\<close>

text \<open>Keys and values of sixteen and thirty-two bytes.\<close>

definition compareResp :: "string \<times> string \<Rightarrow> string \<times> string \<Rightarrow> nat" where
  "compareResp resp checkresp =
     (if take 16 (fst resp) = take 16 (fst checkresp) \<and> take 32 (snd resp) = take 32 (snd checkresp)
      then 1 else 0)"

definition expect_one ::
  "(string \<rightharpoonup> string) \<Rightarrow> int \<times> string \<times> string \<Rightarrow> (string \<rightharpoonup> string) \<times> (string \<times> string)" where
  "expect_one hashmap s =
     (let (op, k, v) = s in
      if op = 0
      then (hashmap,
            (k, (case hashmap k of
                   None \<Rightarrow> replicate 32 CHR 0x00
                 | Some w \<Rightarrow> take 16 w @ replicate 16 CHR 0x00)))
      else if op = 1 \<or> op = 3 then (hashmap(k \<mapsto> v), (k, v))
      else ((if hashmap k = None then hashmap(k := None) else hashmap), (k, v)))"

fun expect_all ::
  "(string \<rightharpoonup> string) \<Rightarrow> (int \<times> string \<times> string) list \<Rightarrow>
   (string \<rightharpoonup> string) \<times> (string \<times> string) list" where
  "expect_all hashmap [] = (hashmap, [])"
| "expect_all hashmap (s # ss) =
     (let (h1, e) = expect_one hashmap s; (h2, es) = expect_all h1 ss in (h2, e # es))"

fun compare_all :: "(string \<times> string) list \<Rightarrow> (string \<times> string) list \<Rightarrow> (nat \<times> nat) outcome" where
  "compare_all [] es = Done (0, 0)"
| "compare_all (r # rs) [] = Fault Uncaught"
| "compare_all (r # rs) (e # es) =
     (case compare_all rs es of
        Fault f \<Rightarrow> Fault f | Done (correct, n) \<Rightarrow> Done (compareResp r e + correct, Suc n))"

text \<open>The variables of \<open>main\<close>: the words \<open>pid\<close> and \<open>token\<close> (\<open>cpid\<close>, \<open>ctoken\<close>) keep their values
  from line to line.\<close>

record checker =
  cpid :: string
  ctoken :: string
  hashmap :: "string \<rightharpoonup> string"
  checkmap :: "string \<rightharpoonup> (string \<times> string) list"
  correctcount :: nat
  totalcount :: nat

text \<open>A call of \<open>send\<close> and a call of \<open>recv\<close> with the token that follows.\<close>

definition check_send :: "checker \<Rightarrow> checker outcome" where
  "check_send C =
     (case parseSend (ctoken C) of
        Fault f \<Rightarrow> Fault f
      | Done ss \<Rightarrow>
          (let (h, es) = expect_all (hashmap C) ss in
           Done (C\<lparr>hashmap := h, checkmap := (checkmap C)(cpid C \<mapsto> es)\<rparr>)))"

definition check_recv :: "checker \<Rightarrow> checker outcome" where
  "check_recv C =
     (case parseResponse (ctoken C) of
        Fault f \<Rightarrow> Fault f
      | Done rs \<Rightarrow>
          (case checkmap C (cpid C) of
             None \<Rightarrow> Fault Uncaught
           | Some es \<Rightarrow>
               (case compare_all (map snd rs) es of
                  Fault f \<Rightarrow> Fault f
                | Done (correct, n) \<Rightarrow>
                    Done (C\<lparr>correctcount := correctcount C + correct,
                            totalcount := totalcount C + n\<rparr>))))"

text \<open>One line of the joined trace, split at white space.\<close>

definition check_line :: "checker \<Rightarrow> string \<Rightarrow> checker outcome" where
  "check_line C line =
     (let (pid, s1) = next_word (cpid C, line);
          (token, s2) = next_word (ctoken C, s1);
          (token', s3) = next_word (token, s2) in
      if contains_str token ''send'' then check_send (C\<lparr>cpid := pid, ctoken := token'\<rparr>)
      else if contains_str token ''recv'' then check_recv (C\<lparr>cpid := pid, ctoken := token'\<rparr>)
      else Done (C\<lparr>cpid := pid, ctoken := token\<rparr>))"

text \<open>The main loop, over the lines of the joined trace.\<close>

fun check_trace :: "checker \<Rightarrow> string list \<Rightarrow> checker outcome" where
  "check_trace C [] = Done C"
| "check_trace C (line # lines) =
     (case check_line C line of Fault f \<Rightarrow> Fault f | Done C' \<Rightarrow> check_trace C' lines)"

lemma check_trace_append:
  "check_trace C (ls @ ms) =
     (case check_trace C ls of Fault f \<Rightarrow> Fault f | Done C' \<Rightarrow> check_trace C' ms)"
  by (induction C ls rule: check_trace.induct) (auto split: sum.splits)

section \<open>The prediction against the store\<close>

text \<open>What the checker sees of a request and of a reply.\<close>

definition sent :: "send_message \<Rightarrow> int \<times> string \<times> string" where
  "sent q = (schar (operation q), key q, msg_value q)"

definition seen :: "send_message \<Rightarrow> string \<times> string" where
  "seen r = (key r, msg_value r)"

text \<open>The requests for which the prediction is the reply of a correct store: no operation fails, the
  key of a DELETE is absent, values end in sixteen NUL bytes and an absent key is asked for with an
  all-NUL value.\<close>

fun predictable :: "(string \<rightharpoonup> string) \<Rightarrow> Operation \<Rightarrow> string \<Rightarrow> string \<Rightarrow> bool" where
  "predictable m GET k v =
     (case m k of None \<Rightarrow> v = replicate 32 CHR 0x00 | Some w \<Rightarrow> drop 16 w = replicate 16 CHR 0x00)"
| "predictable m PUT k v = (m k = None)"
| "predictable m DELETE k v = (m k = None)"
| "predictable m UPDATE k v = (m k \<noteq> None)"

fun predictable_run :: "(string \<rightharpoonup> string) \<Rightarrow> send_message list \<Rightarrow> bool" where
  "predictable_run m [] = True"
| "predictable_run m (q # qs) =
     (case operation_of (operation q) of
        None \<Rightarrow> False
      | Some op \<Rightarrow> predictable m op (key q) (msg_value q) \<and>
          predictable_run (fst (snd (kv_spec m op (key q) (msg_value q)))) qs)"

lemma operation_of_code: "operation_of c = Some op \<longleftrightarrow> schar c = operation_code op"
  by (cases op) (auto simp: operation_of_def)

lemma take_pad: "drop 16 w = replicate 16 CHR 0x00 \<Longrightarrow> take 16 w @ replicate 16 CHR 0x00 = w"
  by (metis append_take_drop_id)

lemma expect_one_predicts:
  assumes "operation_of (operation q) = Some op" and "predictable m op (key q) (msg_value q)"
    and "kv_spec m op (key q) (msg_value q) = (ok, m', v)"
  shows "expect_one m (sent q) = (m', (key q, v))"
proof -
  from assms(1) have "schar (operation q) = operation_code op" by (simp add: operation_of_code)
  with assms(2,3) show ?thesis
    by (cases op) (auto simp: expect_one_def sent_def take_pad split: option.splits)
qed

lemma expect_all_predicts:
  "predictable_run m qs \<Longrightarrow>
   expect_all m (map sent qs) = (fst (spec_run m qs), map seen (snd (spec_run m qs)))"
proof (induction qs arbitrary: m)
  case (Cons q qs)
  from Cons.prems obtain op where op: "operation_of (operation q) = Some op"
    "predictable m op (key q) (msg_value q)"
    "predictable_run (fst (snd (kv_spec m op (key q) (msg_value q)))) qs"
    by (auto split: option.splits)
  obtain ok m' v where sp: "kv_spec m op (key q) (msg_value q) = (ok, m', v)"
    by (cases "kv_spec m op (key q) (msg_value q)") auto
  from Cons.IH [of m'] op sp expect_one_predicts [OF op(1,2) sp] show ?case
    by (auto simp: seen_def spec_reply_def split: prod.splits)
qed simp

lemma compare_all_same: "compare_all rs rs = Done (length rs, length rs)"
  by (induction rs) (simp_all add: compareResp_def)

lemma length_spec_run [simp]: "length (snd (spec_run m qs)) = length qs"
proof (induction qs arbitrary: m)
  case (Cons q qs)
  obtain ok m' v where "kv_spec m (the (operation_of (operation q))) (key q) (msg_value q) = (ok, m', v)"
    by (cases "kv_spec m (the (operation_of (operation q))) (key q) (msg_value q)") auto
  with Cons.IH [of m'] show ?case by (auto split: prod.splits)
qed simp

section \<open>Traced tokens\<close>

text \<open>How a message prints in the trace: operation and keepalive byte as escapes, a NUL as \<open>\0\<close>, the
  other bytes as themselves. \<open>traceable\<close> keeps to bytes that print so (printable ones without the
  quote and the backslash, and no digit right after a NUL), and leaves out the space, at which the
  checker cuts the token, and the question mark, which its parser cannot store.\<close>

fun trace_text :: "string \<Rightarrow> string" where
  "trace_text [] = []"
| "trace_text (c # s) = (if c = CHR 0x00 then [CHR 0x5C, CHR ''0''] else [c]) @ trace_text s"

fun traceable :: "string \<Rightarrow> bool" where
  "traceable [] = True"
| "traceable (c # s) =
     ((c = CHR 0x00 \<or> 32 < code_of c \<and> code_of c < 127) \<and>
      c \<noteq> CHR 0x22 \<and> c \<noteq> CHR 0x5C \<and> c \<noteq> CHR ''?'' \<and>
      (c = CHR 0x00 \<and> s \<noteq> [] \<longrightarrow> \<not> is_digit (hd s)) \<and> traceable s)"

definition no_digit_first :: "string \<Rightarrow> bool" where
  "no_digit_first s \<longleftrightarrow> s = [] \<or> \<not> is_digit (hd s)"

definition traced :: "nat \<Rightarrow> nat \<Rightarrow> string \<Rightarrow> string \<Rightarrow> string" where
  "traced code ka k v = [CHR 0x5C, digit code, CHR 0x5C, digit ka] @ trace_text (k @ v)"

lemma trace_text_append [simp]: "trace_text (s @ t) = trace_text s @ trace_text t"
  by (induction s) auto

lemma traceable_append: "traceable (s @ t) \<Longrightarrow> traceable s \<and> traceable t"
  by (induction s) auto

lemma traceable_replicate:
  "c \<notin> {CHR 0x22, CHR 0x5C, CHR ''?'', CHR 0x00} \<Longrightarrow> 32 < code_of c \<Longrightarrow> code_of c < 127 \<Longrightarrow> traceable (replicate n c @ s) \<longleftrightarrow> traceable s"
  "traceable (replicate n CHR 0x00)"
  by (induction n) (auto simp: is_digit_def code_of_def)

lemma no_digit_trace_text:
  "no_digit_first s \<Longrightarrow> no_digit_first rest \<Longrightarrow> no_digit_first (trace_text s @ rest)"
  by (cases s) (auto simp: no_digit_first_def is_digit_def code_of_def)

lemma takeWhile_no_digit: "no_digit_first s \<Longrightarrow> takeWhile is_digit s = []"
  by (cases s) (auto simp: no_digit_first_def)

lemma traced_char_escape:
  "d < 10 \<Longrightarrow> no_digit_first s \<Longrightarrow> traced_char CHR 0x5C (digit d # s) = Done (byte_of (int d), s)"
  by (simp add: traced_char_def takeWhile_no_digit digits_val_def)

lemma zero_escape: "digit 0 = CHR ''0''" "byte_of 0 = CHR 0x00"
  by code_simp+

text \<open>One byte of the text, whichever way it prints.\<close>

lemma traced_char_text:
  assumes "traceable (c # s)" and "no_digit_first rest"
  obtains x xs where "trace_text (c # s) @ rest = x # xs" "x \<noteq> CHR 0x22"
    "traced_char x xs = Done (c, trace_text s @ rest)"
proof (cases "c = CHR 0x00")
  case True
  with assms have "no_digit_first (trace_text s @ rest)"
    by (intro no_digit_trace_text) (auto simp: no_digit_first_def)
  from traced_char_escape [OF _ this, of 0]
  have "traced_char CHR 0x5C (CHR ''0'' # trace_text s @ rest) = Done (c, trace_text s @ rest)"
    using True by (simp add: zero_escape)
  with True that show thesis by simp
next
  case False
  with assms have "traced_char c (trace_text s @ rest) = Done (c, trace_text s @ rest)"
    by (simp add: traced_char_def)
  with False assms that show thesis by simp
qed

lemma token_loop_key:
  assumes "traceable (ks @ s)" and "no_digit_first rest" and "length k + length ks \<le> 16"
  shows "token_loop b (trace_text (ks @ s) @ rest) k [] code acc =
    token_loop b (trace_text s @ rest) (k @ ks) [] code acc"
  using assms
proof (induction ks arbitrary: k)
  case (Cons c ks)
  from Cons.prems have tr: "traceable (c # (ks @ s))" by simp
  from traced_char_text [OF tr assms(2)] obtain x xs where
    x: "trace_text (c # (ks @ s)) @ rest = x # xs" "x \<noteq> CHR 0x22"
      "traced_char x xs = Done (c, trace_text (ks @ s) @ rest)" .
  have "token_loop b (trace_text ((c # ks) @ s) @ rest) k [] code acc =
      token_loop b (trace_text (ks @ s) @ rest) (k @ [c]) [] code acc"
    unfolding append_Cons [of c ks s] x(1) using x(2,3) Cons.prems(3)
    by (subst token_loop.simps) simp
  with Cons show ?case by simp
qed simp

lemma token_loop_value:
  assumes "traceable (vs @ s)" and "no_digit_first rest" and "length k = 16"
    and "length v + length vs < 32"
  shows "token_loop b (trace_text (vs @ s) @ rest) k v code acc =
    token_loop b (trace_text s @ rest) k (v @ vs) code acc"
  using assms
proof (induction vs arbitrary: v)
  case (Cons c vs)
  from Cons.prems have tr: "traceable (c # (vs @ s))" by simp
  from traced_char_text [OF tr assms(2)] obtain x xs where
    x: "trace_text (c # (vs @ s)) @ rest = x # xs" "x \<noteq> CHR 0x22"
      "traced_char x xs = Done (c, trace_text (vs @ s) @ rest)" .
  have "token_loop b (trace_text ((c # vs) @ s) @ rest) k v code acc =
      token_loop b (trace_text (vs @ s) @ rest) k (v @ [c]) code acc"
    unfolding append_Cons [of c vs s] x(1) using x(2,3) Cons.prems(1,3,4)
    by (subst token_loop.simps) simp
  with Cons show ?case by simp
qed simp

text \<open>What follows a complete message.\<close>

definition after_message ::
  "bool \<Rightarrow> string \<Rightarrow> (int \<times> string \<times> string) list \<Rightarrow> (int \<times> string \<times> string) list outcome" where
  "after_message b rest acc =
     (if rest \<noteq> [] \<and> hd rest = CHR 0x22 then Done acc
      else (case digit_at (tl rest) of
              Fault f \<Rightarrow> Fault f
            | Done d \<Rightarrow> token_loop b (drop 2 rest) [] [] d acc))"

lemma token_loop_last:
  assumes "traceable (c # s)" and "no_digit_first rest" and "length k = 16" and "length v = 31"
  shows "token_loop b (trace_text (c # s) @ rest) k v code acc =
    after_message b (trace_text s @ rest) (acc @ [(code, k, v @ [c])])"
proof -
  from traced_char_text [OF assms(1,2)] obtain x xs where
    x: "trace_text (c # s) @ rest = x # xs" "x \<noteq> CHR 0x22"
      "traced_char x xs = Done (c, trace_text s @ rest)" .
  show ?thesis
    unfolding x(1) using x(2,3) assms(1,3,4)
    by (subst token_loop.simps) (simp add: after_message_def Let_def)
qed

lemma token_loop_whole_value:
  assumes "traceable (vs @ s)" and "no_digit_first rest" and "length k = 16" and "length vs = 32"
  shows "token_loop b (trace_text (vs @ s) @ rest) k [] code acc =
    after_message b (trace_text s @ rest) (acc @ [(code, k, vs)])"
proof -
  obtain us c where vs: "vs = us @ [c]" using assms(4) by (cases vs rule: rev_cases) auto
  have tr: "traceable (us @ (c # s))" using assms(1) vs by simp
  have "token_loop b (trace_text (us @ (c # s)) @ rest) k [] code acc =
      token_loop b (trace_text (c # s) @ rest) k ([] @ us) code acc"
    using assms vs by (intro token_loop_value tr) auto
  also have "\<dots> = after_message b (trace_text s @ rest) (acc @ [(code, k, ([] @ us) @ [c])])"
    using assms vs traceable_append [OF tr] by (intro token_loop_last) auto
  finally show ?thesis using vs by simp
qed

lemma token_loop_message:
  assumes "traceable (k @ v @ s)" "no_digit_first rest" "length k = 16" "length v = 32"
  shows "token_loop b (trace_text (k @ v @ s) @ rest) [] [] code acc =
    after_message b (trace_text s @ rest) (acc @ [(code, k, v)])"
proof -
  have "token_loop b (trace_text (k @ (v @ s)) @ rest) [] [] code acc =
      token_loop b (trace_text (v @ s) @ rest) ([] @ k) [] code acc"
    using assms by (intro token_loop_key) auto
  also have "\<dots> = after_message b (trace_text s @ rest) (acc @ [(code, k, v)])"
    using assms traceable_append [of k "v @ s"] token_loop_whole_value [of v s rest k b code acc] by simp
  finally show ?thesis .
qed

lemma no_digit_quote [simp]: "no_digit_first (CHR 0x22 # s)" "no_digit_first (CHR 0x5C # s)"
  by (simp_all add: no_digit_first_def is_digit_def code_of_def)

lemma after_message_quote [simp]: "after_message b (CHR 0x22 # s) acc = Done acc"
  by (simp add: after_message_def)

lemma parse_token_message:
  assumes "traceable (k @ v)" "no_digit_first rest" "length k = 16" "length v = 32" "code < 10"
  shows "parse_token b (CHR 0x22 # traced code ka k v @ rest) =
    after_message b rest [(int code, k, v)]"
  using assms token_loop_message [of k v "[]" rest b "int code" "[]"]
  by (simp add: parse_token_def traced_def digit_at_def)

text \<open>A second message in a token: its keepalive escape is read as a byte of the key, and the last
  byte of its value is left over.\<close>

lemma batch_shifts:
  assumes "traceable (k @ v)" "length k = 16" "length v = 32" "code < 10" "ka < 10"
    and "no_digit_first k"
  shows "after_message b (traced code ka k v @ CHR 0x22 # tail) acc =
    (if last v = CHR 0x00
     then Done (acc @ [(int code, byte_of (int ka) # butlast k, last k # butlast v)])
     else Fault Uncaught)"
proof -
  obtain k1 k2 where k: "k = k1 @ [k2]" using assms(2) by (cases k rule: rev_cases) auto
  obtain v1 v2 where v: "v = v1 @ [v2]" using assms(3) by (cases v rule: rev_cases) auto
  let ?rest = "CHR 0x22 # tail" and ?c = "byte_of (int ka)"
  have len: "length k1 = 15" "length v1 = 31" using assms k v by auto
  have tr: "traceable (k1 @ (k2 # v1) @ [v2])" using assms(1) k v by simp
  from traceable_append [OF tr] traceable_append [of "k2 # v1" "[v2]"]
  have tr2: "traceable ((k2 # v1) @ [v2])" "traceable [v2]" by blast+
  have nd: "no_digit_first (trace_text (k @ v) @ ?rest)"
    using assms(2,6) by (intro no_digit_trace_text no_digit_quote) (cases k; simp add: no_digit_first_def)
  have "after_message b (traced code ka k v @ ?rest) acc =
      token_loop b (CHR 0x5C # digit ka # trace_text (k @ v) @ ?rest) [] [] (int code) acc"
    using assms(4) by (simp add: after_message_def traced_def digit_at_def)
  also have "\<dots> = token_loop b (trace_text (k @ v) @ ?rest) [?c] [] (int code) acc"
    using traced_char_escape [OF assms(5) nd] by (subst token_loop.simps) simp
  also have "\<dots> = token_loop b (trace_text ((k2 # v1) @ [v2]) @ ?rest) (?c # k1) [] (int code) acc"
    using token_loop_key [OF tr, of ?rest "[?c]" b "int code" acc] len k v by simp
  also have "\<dots> = after_message b (trace_text [v2] @ ?rest) (acc @ [(int code, ?c # k1, k2 # v1)])"
    using token_loop_whole_value [OF tr2(1), of ?rest "?c # k1" b "int code" acc] len by simp
  also have "\<dots> = (if v2 = CHR 0x00 then Done (acc @ [(int code, ?c # k1, k2 # v1)])
      else Fault Uncaught)"
    using tr2(2) by (auto simp: after_message_def digit_at_def is_digit_def code_of_def token_loop.simps)
  finally show ?thesis using k v by simp
qed

section \<open>The words of a line\<close>

definition is_word :: "string \<Rightarrow> bool" where
  "is_word w \<longleftrightarrow> w \<noteq> [] \<and> (\<forall>c \<in> set w. \<not> isspace c)"

definition word_end :: "string \<Rightarrow> bool" where
  "word_end s \<longleftrightarrow> s = [] \<or> isspace (hd s)"

definition words_text :: "string list \<Rightarrow> string" where
  "words_text ws = concat (map (\<lambda>w. '' '' @ w) ws)"

lemma words_text_simps [simp]: "words_text [] = []" "words_text (w # ws) = '' '' @ w @ words_text ws"
  by (simp_all add: words_text_def)

lemma word_end_simps [simp]: "word_end []" "word_end (CHR '' '' # s)"
  by (simp_all add: word_end_def isspace_def)

lemma word_end_text [simp]:
  "word_end (words_text ws)" "word_end rest \<Longrightarrow> word_end (words_text ws @ rest)"
  by (cases ws; simp)+

lemma next_word_none [simp]: "next_word (t, []) = (t, [])"
  by (simp add: next_word_def)

lemma next_word_first:
  assumes "is_word w" and "word_end rest"
  shows "next_word (t, w @ rest) = (w, rest)"
proof -
  obtain c cs where w: "w = c # cs" "\<not> isspace c" using assms(1) by (cases w) (auto simp: is_word_def)
  have "takeWhile (\<lambda>c. \<not> isspace c) (w @ rest) = w \<and> dropWhile (\<lambda>c. \<not> isspace c) (w @ rest) = rest"
    using assms by (cases rest) (auto simp: is_word_def word_end_def takeWhile_append dropWhile_append)
  with w show ?thesis by (simp add: next_word_def)
qed

lemma next_word_text [simp]:
  assumes "is_word w" and "word_end rest"
  shows "next_word (t, CHR '' '' # w @ rest) = (w, rest)"
proof -
  have "dropWhile isspace (CHR '' '' # w @ rest) = dropWhile isspace (w @ rest)"
    by (simp add: isspace_def)
  then have "next_word (t, CHR '' '' # w @ rest) = next_word (t, w @ rest)"
    by (simp only: next_word_def fst_conv snd_conv)
  with next_word_first [OF assms] show ?thesis by simp
qed

section \<open>Joining the words of a line\<close>

lemma join_words_stops: "contains_str w ''unfinished'' \<Longrightarrow> join_words w w' ws l = (w, l)"
  by (subst join_words.simps) simp

lemma join_words_twice: "join_words w w ws l = (w, l)"
  by (subst join_words.simps) simp

lemma join_words_next:
  "w \<noteq> w' \<Longrightarrow> \<not> contains_str w ''unfinished'' \<Longrightarrow> is_word u \<Longrightarrow> word_end rest \<Longrightarrow>
   join_words w w' (CHR '' '' # u @ rest) l = join_words u w rest (l @ '' '' @ w)"
  by (subst join_words.simps) simp

lemma join_words_end:
  "w \<noteq> w' \<Longrightarrow> \<not> contains_str w ''unfinished'' \<Longrightarrow> join_words w w' [] l = (w, l @ '' '' @ w)"
  by (subst join_words.simps) (simp add: join_words_twice)

lemma distinct_adj_last: "distinct_adj (ws @ [u]) \<Longrightarrow> ws \<noteq> [] \<Longrightarrow> last ws \<noteq> u"
  by (simp add: distinct_adj_append_iff)

lemma join_words_over:
  assumes "distinct_adj (w' # w # ws @ [u])" and "\<forall>x \<in> set (w # ws). \<not> contains_str x ''unfinished''"
    and "\<forall>x \<in> set (ws @ [u]). is_word x" and "word_end rest"
  shows "join_words w w' (words_text (ws @ [u]) @ rest) l =
    join_words u (last (w # ws)) rest (l @ words_text (w # ws))"
  using assms
proof (induction ws arbitrary: w w' l)
  case Nil
  then show ?case using join_words_next [of w w' u rest l] by auto
next
  case (Cons x xs)
  then have "join_words w w' (words_text ((x # xs) @ [u]) @ rest) l =
      join_words x w (words_text (xs @ [u]) @ rest) (l @ '' '' @ w)"
    using join_words_next [of w w' x "words_text (xs @ [u]) @ rest" l] by auto
  also have "\<dots> = join_words u (last (x # xs)) rest ((l @ '' '' @ w) @ words_text (x # xs))"
    using Cons.prems by (intro Cons.IH) auto
  finally show ?case by simp
qed

lemma join_words_all:
  assumes "distinct_adj (w' # w # ws)" and "\<forall>u \<in> set (w # ws). \<not> contains_str u ''unfinished''"
    and "\<forall>x \<in> set ws. is_word x"
  shows "join_words w w' (words_text ws) l = (last (w # ws), l @ words_text (w # ws))"
proof (cases ws rule: rev_cases)
  case Nil
  with assms show ?thesis by (simp add: join_words_end)
next
  case (snoc us u)
  have "last (w # us) \<noteq> u" using assms(1) distinct_adj_last [of "w' # w # us" u] unfolding snoc by simp
  with join_words_over [of w' w us u "[]" l] join_words_end [of u "last (w # us)" "l @ words_text (w # us)"]
  show ?thesis using assms unfolding snoc by (auto simp: words_text_def)
qed

lemma join_words_until:
  assumes "distinct_adj (w' # w # ws @ [u])" and "\<forall>x \<in> set (w # ws). \<not> contains_str x ''unfinished''"
    and "contains_str u ''unfinished''" and "\<forall>x \<in> set (ws @ [u]). is_word x" and "word_end rest"
  shows "join_words w w' (words_text (ws @ [u]) @ rest) l = (u, l @ words_text (w # ws))"
  using join_words_over [OF assms(1,2,4,5)] join_words_stops [OF assms(3)] by simp

lemma distinct_adj_unfinished:
  "distinct_adj us \<Longrightarrow> \<forall>w \<in> set us. \<not> contains_str w ''unfinished'' \<Longrightarrow>
   contains_str mark ''unfinished'' \<Longrightarrow> distinct_adj (us @ [mark])"
proof (cases us rule: rev_cases)
  case (snoc ws w)
  moreover assume "distinct_adj us" "\<forall>w \<in> set us. \<not> contains_str w ''unfinished''"
    "contains_str mark ''unfinished''"
  ultimately show ?thesis by (auto simp: distinct_adj_append_iff)
qed simp

text \<open>The line ends at the first word that equals the one before it.\<close>

lemma join_words_cut:
  assumes "distinct_adj (w' # w # ws @ [u])" and "\<forall>x \<in> set (w # ws @ [u]). \<not> contains_str x ''unfinished''"
    and "\<forall>x \<in> set (ws @ [u]). is_word x" and "word_end rest"
  shows "join_words w w' (words_text (ws @ [u, u]) @ rest) l = (u, l @ words_text (w # ws @ [u]))"
proof -
  have ne: "last (w # ws) \<noteq> u" using assms(1) distinct_adj_last [of "w' # w # ws" u] by simp
  have "word_end (words_text [u] @ rest)" by simp
  from join_words_over [OF assms(1) _ assms(3) this, of l] assms(2)
  have "join_words w w' (words_text (ws @ [u]) @ words_text [u] @ rest) l =
      join_words u (last (w # ws)) (words_text [u] @ rest) (l @ words_text (w # ws))" by simp
  also have "\<dots> = join_words u u rest ((l @ words_text (w # ws)) @ '' '' @ u)"
    using join_words_next [of u "last (w # ws)" u rest "l @ words_text (w # ws)"] ne assms(2,3,4) by simp
  also have "\<dots> = (u, l @ words_text (w # ws @ [u]))" by (simp add: join_words_twice words_text_def)
  finally show ?thesis by (simp add: words_text_def)
qed

text \<open>A key that is deleted stays in the checker's map: the correct answer to the GET that follows is
  counted as wrong.\<close>

lemma deleted_key_rejected:
  assumes "m k = Some w" and "take 16 w \<noteq> replicate 16 CHR 0x00" and "length w = 32"
    and "operation_of d = Some DELETE" and "operation_of g = Some GET"
  shows "compare_all
      (map seen (snd (spec_run m [\<lparr>operation = d, keepalive = a, key = k, msg_value = v\<rparr>,
         \<lparr>operation = g, keepalive = a, key = k, msg_value = replicate 32 CHR 0x00\<rparr>])))
      (snd (expect_all m (map sent [\<lparr>operation = d, keepalive = a, key = k, msg_value = v\<rparr>,
         \<lparr>operation = g, keepalive = a, key = k, msg_value = replicate 32 CHR 0x00\<rparr>]))) = Done (1, 2)"
proof -
  have "take 32 (take 16 w @ replicate 16 CHR 0x00) \<noteq> replicate 32 CHR 0x00"
  proof
    assume "take 32 (take 16 w @ replicate 16 CHR 0x00) = replicate 32 CHR 0x00"
    then have "take 16 (take 32 (take 16 w @ replicate 16 CHR 0x00)) = take 16 (replicate 32 CHR 0x00)"
      by simp
    with assms(2,3) show False by (simp add: min_def)
  qed
  moreover have "schar d = 2" "schar g = 0"
    using assms(4,5) by (simp_all add: operation_of_code)
  ultimately show ?thesis
    using assms by (simp add: seen_def sent_def expect_one_def spec_reply_def compareResp_def)
qed

section \<open>A whole session\<close>

text \<open>A call whose data is one message, as the trace shows it.\<close>

definition message_token :: "send_message \<Rightarrow> string" where
  "message_token q =
     CHR 0x22 # traced (nat (schar (operation q))) (code_of (keepalive q)) (key q) (msg_value q) @
       [CHR 0x22, CHR '','']"

text \<open>The two lines of a call and its answer: process, call, string and the rest of the line.\<close>

definition call_lines :: "string \<Rightarrow> send_message \<Rightarrow> send_message \<Rightarrow> string list" where
  "call_lines pid q r =
     [pid @ '' sendto(4, '' @ message_token q @ '' 50, 0, NULL, 0) = 50'',
      pid @ '' recvfrom(4, '' @ message_token r @ '' 50, 0, NULL, NULL) = 50'']"

definition session :: "string \<Rightarrow> send_message list \<Rightarrow> send_message list \<Rightarrow> string list" where
  "session pid qs rs = concat (map2 (call_lines pid) qs rs)"

definition traceable_request :: "send_message \<Rightarrow> bool" where
  "traceable_request q \<longleftrightarrow>
     valid_request q \<and> code_of (keepalive q) < 8 \<and> no_digit_first (key q) \<and> traceable (key q @ msg_value q)"

definition traceable_store :: "(string \<rightharpoonup> string) \<Rightarrow> bool" where
  "traceable_store m \<longleftrightarrow> (\<forall>k w. m k = Some w \<longrightarrow> length w = 32 \<and> traceable (k @ w))"

lemma printable_not_space: "32 < code_of c \<Longrightarrow> \<not> isspace c"
  by (auto simp: isspace_def) (simp add: code_of_def)

lemma trace_text_word: "traceable s \<Longrightarrow> \<forall>c \<in> set (trace_text s). \<not> isspace c"
proof (induction s)
  case (Cons c s)
  moreover have "\<not> isspace CHR 0x5C" "\<not> isspace CHR ''0''" by (simp_all add: isspace_def code_of_def)
  ultimately show ?case using printable_not_space [of c] by auto
qed simp

lemma digit_word: "d < 10 \<Longrightarrow> \<not> isspace (digit d)"
  by (rule digit_not_space) simp

lemma message_token_word:
  assumes "traceable (key q @ msg_value q)" and "nat (schar (operation q)) < 10" and "code_of (keepalive q) < 10"
  shows "is_word (message_token q)"
  using trace_text_word [OF assms(1)] digit_word [OF assms(2)] digit_word [OF assms(3)]
  by (auto simp: is_word_def message_token_def traced_def isspace_def code_of_def)

text \<open>A line of such a call, as the program splits it.\<close>

lemma check_call_line:
  assumes "is_word pid" and "is_word call" and "is_word tok" and "word_end rest"
  shows "check_line C (pid @ '' '' @ call @ '' '' @ tok @ rest) =
    (if contains_str call ''send'' then check_send (C\<lparr>cpid := pid, ctoken := tok\<rparr>)
     else if contains_str call ''recv'' then check_recv (C\<lparr>cpid := pid, ctoken := tok\<rparr>)
     else Done (C\<lparr>cpid := pid, ctoken := call\<rparr>))"
  using assms next_word_first [of pid "CHR '' '' # call @ CHR '' '' # tok @ rest"]
  by (simp add: check_line_def)

lemma parse_message_token:
  assumes "traceable (key q @ msg_value q)" "length (key q) = 16" "length (msg_value q) = 32"
    and "0 \<le> schar (operation q)" "schar (operation q) < 10"
  shows "parse_token b (message_token q) = Done [sent q]"
  using assms parse_token_message [of "key q" "msg_value q" "[CHR 0x22, CHR '','']"
      "nat (schar (operation q))" b "code_of (keepalive q)"]
  by (simp add: message_token_def sent_def)

lemma traceable_store_step [keeps]:
  assumes "traceable_store m" "traceable (k @ v)" "length v = 32" "kv_spec m op k v = (ok, m', w)"
  shows "traceable_store m' \<and> traceable (k @ w) \<and> length w = 32"
  using assms by (cases op) (auto simp: traceable_store_def split: option.splits if_splits)

lemma call_predicted:
  assumes pid: "is_word pid" and "traceable_store (hashmap C)" "traceable_request q"
    and op: "operation_of (operation q) = Some op" "predictable (hashmap C) op (key q) (msg_value q)"
    and sp: "kv_spec (hashmap C) op (key q) (msg_value q) = (ok, m', v)"
  shows "check_trace C (call_lines pid q (spec_reply ok v q)) =
    Done (C\<lparr>cpid := pid, ctoken := message_token (spec_reply ok v q), hashmap := m',
      checkmap := (checkmap C)(pid \<mapsto> [(key q, v)]),
      correctcount := Suc (correctcount C), totalcount := Suc (totalcount C)\<rparr>)"
proof -
  let ?r = "spec_reply ok v q"
  from assms(3) have q: "length (key q) = 16" "length (msg_value q) = 32"
      "traceable (key q @ msg_value q)" "code_of (keepalive q) < 10"
    by (auto simp: traceable_request_def valid_request_def wf_send_def)
  from traceable_store_step [OF assms(2) q(3,2) sp] have w: "traceable (key q @ v)" "length v = 32"
    by auto
  have "schar (operation q) = operation_code op" using op(1) by (simp add: operation_of_code)
  then have o: "0 \<le> schar (operation q)" "schar (operation q) < 10" by (cases op; simp)+
  with q have send: "parseSend (message_token q) = Done [sent q]" "is_word (message_token q)"
    by (simp_all add: parseSend_def parse_message_token message_token_word)
  have s: "schar (operation ?r) \<in> {0, 1}"
    by (simp add: schar_def code_of_def spec_reply_def)
  have f: "key ?r = key q" "msg_value ?r = v" "keepalive ?r = keepalive q"
    by (simp_all add: spec_reply_def)
  have recv: "parseResponse (message_token ?r) = Done [sent ?r]" "is_word (message_token ?r)"
    using s f q w unfolding parseResponse_def by (auto intro!: parse_message_token message_token_word)
  have words: "is_word ''sendto(4,''" "is_word ''recvfrom(4,''"
    by (simp_all add: is_word_def isspace_def code_of_def)
  have "check_line C (pid @ '' sendto(4, '' @ message_token q @ '' 50, 0, NULL, 0) = 50'') =
      check_send (C\<lparr>cpid := pid, ctoken := message_token q\<rparr>)"
    using check_call_line [OF pid words(1) send(2), of "'' 50, 0, NULL, 0) = 50''" C] by simp
  moreover have "check_line D (pid @ '' recvfrom(4, '' @ message_token ?r @ '' 50, 0, NULL, NULL) = 50'') =
      check_recv (D\<lparr>cpid := pid, ctoken := message_token ?r\<rparr>)" for D
    using check_call_line [OF pid words(2) recv(2), of "'' 50, 0, NULL, NULL) = 50''" D] by simp
  ultimately show ?thesis
    using expect_one_predicts [OF op sp] send recv f
    by (simp add: call_lines_def check_send_def check_recv_def seen_def sent_def compareResp_def)
qed

lemma session_predicted:
  assumes pid: "is_word pid" and "traceable_store (hashmap C)" and "\<forall>q \<in> set qs. traceable_request q"
    and "predictable_run (hashmap C) qs"
  shows "\<exists>C'. check_trace C (session pid qs (snd (spec_run (hashmap C) qs))) = Done C' \<and>
    hashmap C' = fst (spec_run (hashmap C) qs) \<and>
    correctcount C' = correctcount C + length qs \<and> totalcount C' = totalcount C + length qs"
  using assms(2-)
proof (induction qs arbitrary: C)
  case Nil
  then show ?case by (simp add: session_def)
next
  case (Cons q qs)
  from Cons.prems(3) obtain op where op: "operation_of (operation q) = Some op"
    "predictable (hashmap C) op (key q) (msg_value q)"
    "predictable_run (fst (snd (kv_spec (hashmap C) op (key q) (msg_value q)))) qs"
    by (auto split: option.splits)
  obtain ok m' v where sp: "kv_spec (hashmap C) op (key q) (msg_value q) = (ok, m', v)"
    by (cases "kv_spec (hashmap C) op (key q) (msg_value q)") auto
  let ?C1 = "C\<lparr>cpid := pid, ctoken := message_token (spec_reply ok v q), hashmap := m', checkmap := (checkmap C)(pid \<mapsto> [(key q, v)]),
      correctcount := Suc (correctcount C), totalcount := Suc (totalcount C)\<rparr>"
  from Cons.prems(2) have q: "traceable_request q" "\<forall>q \<in> set qs. traceable_request q" by auto
  then have "traceable (key q @ msg_value q)" "length (msg_value q) = 32"
    by (auto simp: traceable_request_def valid_request_def wf_send_def)
  from traceable_store_step [OF Cons.prems(1) this sp] have "traceable_store (hashmap ?C1)" by simp
  from Cons.IH [OF this q(2)] op(3) sp obtain C' where
    C': "check_trace ?C1 (session pid qs (snd (spec_run m' qs))) = Done C'"
      "hashmap C' = fst (spec_run m' qs)"
      "correctcount C' = correctcount ?C1 + length qs" "totalcount C' = totalcount ?C1 + length qs"
    by auto
  have ses: "session pid (q # qs) (snd (spec_run (hashmap C) (q # qs))) =
      call_lines pid q (spec_reply ok v q) @ session pid qs (snd (spec_run m' qs))"
    using op(1) sp by (simp add: session_def split: prod.splits)
  have "check_trace C (session pid (q # qs) (snd (spec_run (hashmap C) (q # qs)))) = Done C'"
    unfolding ses check_trace_append call_predicted [OF pid Cons.prems(1) q(1) op(1,2) sp] using C'(1) by simp
  moreover have "fst (spec_run (hashmap C) (q # qs)) = fst (spec_run m' qs)"
    using op(1) sp by (simp split: prod.splits)
  ultimately show ?case using C'(2-4) by auto
qed

section \<open>Properties\<close>



text \<open>A traced call with one message is parsed back exactly; with a second message in the call the
  escape of its keepalive byte is taken for the first byte of its key, so that the second message
  comes out shifted by one byte when its value ends in NUL, and the checker is aborted by an uncaught
  exception otherwise.\<close>

theorem traced_messages_parsed:
  assumes "traceable (k @ v)" "length k = 16" "length v = 32" "code < 10"
    and "traceable (k2 @ v2)" "length k2 = 16" "length v2 = 32" "code2 < 10" "ka2 < 10"
    and "no_digit_first k2"
  shows "parse_token b (CHR 0x22 # traced code ka k v @ CHR 0x22 # tail) = Done [(int code, k, v)] \<and>
    parse_token b (CHR 0x22 # traced code ka k v @ traced code2 ka2 k2 v2 @ CHR 0x22 # tail) =
      (if last v2 = CHR 0x00
       then Done [(int code, k, v),
              (int code2, byte_of (int ka2) # butlast k2, last k2 # butlast v2)]
       else Fault Uncaught)"
proof (rule conjI)
  show "parse_token b (CHR 0x22 # traced code ka k v @ CHR 0x22 # tail) = Done [(int code, k, v)]"
    using assms(1-4) by (simp add: parse_token_message)
  have "no_digit_first (traced code2 ka2 k2 v2 @ CHR 0x22 # tail)" by (simp add: traced_def)
  from parse_token_message [OF assms(1) this assms(2-4)] batch_shifts [OF assms(5-10)]
  show "parse_token b (CHR 0x22 # traced code ka k v @ traced code2 ka2 k2 v2 @ CHR 0x22 # tail) =
      (if last v2 = CHR 0x00
       then Done [(int code, k, v),
              (int code2, byte_of (int ka2) # butlast k2, last k2 # butlast v2)]
       else Fault Uncaught)"
    by simp
qed

lemma traced_messages_parsed_witness:
  "parse_token False (CHR 0x22 # traced 1 4 (replicate 16 CHR ''k'') (replicate 32 CHR ''v'') @
      CHR 0x22 # '','') = Done [(1, replicate 16 CHR ''k'', replicate 32 CHR ''v'')] \<and>
   parse_token False (CHR 0x22 # traced 1 4 (replicate 16 CHR ''k'') (replicate 32 CHR ''v'') @
      traced 0 4 (replicate 16 CHR ''k'') (replicate 32 CHR ''v'') @ CHR 0x22 # '','') =
    Fault Uncaught"
  using traced_messages_parsed [of "replicate 16 CHR ''k''" "replicate 32 CHR ''v''" 1
    "replicate 16 CHR ''k''" "replicate 32 CHR ''v''" 0 4 False 4 "'',''"]
    traceable_replicate(1) [of "CHR ''v''" 32 "[]"]
  by (simp add: no_digit_first_def is_digit_def code_of_def traceable_replicate)

text \<open>Two traced lines of one interrupted call are joined into one: the words before the
  \<open>unfinished\<close> mark, then the words after \<open>resumed>\<close>, provided no word is followed by itself.\<close>

theorem split_call_rejoined:
  assumes "line1 = pid @ words_text (us @ [mark]) @ rest" and "line2 = pid @ words_text ([a, b, c] @ vs)"
    and "contains_str line1 ''send''" "\<not> contains_str line1 ''resumed>''"
    and "contains_str line2 ''send''" "contains_str line2 ''resumed>''"
    and "pending pid = None" "contains_str mark ''unfinished''" "word_end rest"
    and "\<forall>w \<in> set (pid # us @ [mark, a, b, c] @ vs). is_word w"
    and "distinct_adj us" "distinct_adj vs" "us \<noteq> []" "vs \<noteq> []"
    and "\<forall>w \<in> set us \<union> set vs. \<not> contains_str w ''unfinished''"
    and "redo_line pending line1 = (pending1, out1)"
  shows "out1 = None \<and>
    redo_line pending1 line2 =
      (pending1(pid \<mapsto> []), Some (pid @ '' '' @ words_text us @ words_text vs @ [CHR 0x0A]))"
proof -
  obtain u us' where us: "us = u # us'" using assms(13) by (cases us) auto
  obtain v vs' where vs: "vs = v # vs'" using assms(14) by (cases vs) auto
  have w: "is_word pid" "is_word u" "is_word v" "is_word a" "is_word b" "is_word c"
      "\<forall>x \<in> set (us' @ [mark]). is_word x" "\<forall>x \<in> set vs'. is_word x"
    using assms(10) us vs by auto
  have n1: "next_word ([], line1) = (pid, words_text (u # us' @ [mark]) @ rest)"
    using next_word_first [OF w(1), of "words_text (u # us' @ [mark]) @ rest"] assms(1,9) us by simp
  have n2: "next_word ([], line2) = (pid, words_text ([a, b, c] @ v # vs'))"
    using next_word_first [OF w(1), of "words_text ([a, b, c] @ v # vs')"] assms(2) vs by simp
  have d: "distinct_adj ([] # u # us' @ [mark])" "distinct_adj ([] # v # vs')"
    using distinct_adj_unfinished [of us mark] assms(8,11,12,15) us vs w(2,3)
    by (auto simp: is_word_def)
  have "join_words u [] (words_text (us' @ [mark]) @ rest) [] = (mark, [] @ words_text (u # us'))"
    using assms(8,9,15) us w d by (intro join_words_until) auto
  with assms(3,4,7,8,16) us have 1: "out1 = None" "pending1 = pending(pid \<mapsto> words_text us)"
    using n1 w assms(9) by (auto simp: redo_line_def)
  have "join_words v [] (words_text vs') (words_text us) = (last (v # vs'), words_text us @ words_text (v # vs'))"
    using assms(15) vs w d by (intro join_words_all) auto
  moreover have "\<not> contains_str (last (v # vs')) ''unfinished''"
    using assms(15) vs last_in_set [of "v # vs'"] by blast
  ultimately show ?thesis using assms(5,6) 1 vs n2 w by (simp add: redo_line_def)
qed

lemma split_call_rejoined_witness:
  "snd (redo_line (fst (redo_line Map.empty ''7 send(4, <unfinished ..>''))
      ''7 <.. send resumed> x 3'') = Some ''7  send(4, x 3\<newline>''"
proof -
  have c: "''7 send(4, <unfinished ..>'' = ''7'' @ words_text ([''send(4,''] @ [''<unfinished'']) @ '' ..>''"
    "''7 <.. send resumed> x 3'' = ''7'' @ words_text ([''<..'', ''send'', ''resumed>''] @ [''x'', ''3''])"
    "contains_str ''7 send(4, <unfinished ..>'' ''send''"
    "\<not> contains_str ''7 send(4, <unfinished ..>'' ''resumed>''"
    "contains_str ''7 <.. send resumed> x 3'' ''send''"
    "contains_str ''7 <.. send resumed> x 3'' ''resumed>''" "contains_str ''<unfinished'' ''unfinished''"
    "\<forall>w \<in> set [''send(4,''] \<union> set [''x'', ''3'']. \<not> contains_str w ''unfinished''"
    by simp_all
  have w: "\<forall>w \<in> set (''7'' # [''send(4,''] @ [''<unfinished'', ''<..'', ''send'', ''resumed>''] @ [''x'', ''3'']).
      is_word w"
    by (simp add: is_word_def isspace_def code_of_def)
  from split_call_rejoined [OF c(1,2,3-6) _ c(7) _ w _ _ _ _ c(8), of Map.empty
      "fst (redo_line Map.empty ''7 send(4, <unfinished ..>'')"
      "snd (redo_line Map.empty ''7 send(4, <unfinished ..>'')"]
  show ?thesis by simp
qed

end
