(* ===== verification/TestGen.thy ===== *)
theory TestGen
  imports KvStore
begin

text \<open>
  \<open>testclient/createTest.c\<close>: the generator of test files. The results of successive \<open>rand()\<close> calls
  are a function \<open>rnd\<close> of their position, which the state carries. The keys believed to be in the
  store are the list \<open>keymap\<close>; the order in which the \<open>unordered_map\<close> is iterated is unspecified and
  therefore a parameter \<open>order\<close>, which may change with every call of \<open>rand\<close>; \<open>visits_all\<close> says that it
  visits every key once.
  A file is the list of its lines. Opening a file is taken to succeed.
\<close>

section \<open>Options\<close>

record gen_options =
  testcount :: int
  readProb :: int
  keyLength :: int
  valueLength :: int
  keyvariance :: int
  valuevariance :: int
  clientcount :: int
  offset :: int
  alphabet :: string
  title :: string
  limitfile :: "string option"
  startchar :: "string option"
  failurerate :: int
  writeamount :: int
  updatechance :: int
  deletechance :: int

definition gen_options_new :: gen_options where
  "gen_options_new =
     \<lparr>testcount = 50, readProb = 90, keyLength = 16, valueLength = 32, keyvariance = 0,
      valuevariance = 0, clientcount = 1, offset = 0,
      alphabet = ''abcdefghijklmnopqrstuvwxyzABCDEFGHIJKLMNOPQRSTUVWXYZ'', title = ''test'',
      limitfile = None, startchar = None, failurerate = 0, writeamount = 1, updatechance = 50,
      deletechance = 10\<rparr>"

definition gen_option :: "gen_options \<Rightarrow> char \<times> string \<Rightarrow> gen_options outcome" where
  "gen_option o1 opt =
     (let (c, optarg) = opt in
      if c = CHR ''n'' then Done (o1\<lparr>testcount := atoi optarg\<rparr>)
      else if c = CHR ''u'' then Done (o1\<lparr>updatechance := atoi optarg\<rparr>)
      else if c = CHR ''d'' then Done (o1\<lparr>deletechance := atoi optarg\<rparr>)
      else if c = CHR ''k'' then Done (o1\<lparr>keyLength := atoi optarg\<rparr>)
      else if c = CHR ''v'' then Done (o1\<lparr>valueLength := atoi optarg\<rparr>)
      else if c = CHR ''p'' then Done (o1\<lparr>readProb := atoi optarg\<rparr>)
      else if c = CHR ''w'' then Done (o1\<lparr>writeamount := atoi optarg\<rparr>)
      else if c = CHR ''c'' then Done (o1\<lparr>clientcount := atoi optarg\<rparr>)
      else if c = CHR ''o'' then Done (o1\<lparr>offset := atoi optarg\<rparr>)
      else if c = CHR ''y'' then Done (o1\<lparr>keyvariance := atoi optarg\<rparr>)
      else if c = CHR ''z'' then Done (o1\<lparr>valuevariance := atoi optarg\<rparr>)
      else if c = CHR ''f'' then Done (o1\<lparr>failurerate := atoi optarg\<rparr>)
      else if c = CHR ''t'' then Done (o1\<lparr>title := optarg\<rparr>)
      else if c = CHR ''a'' then Done (o1\<lparr>alphabet := optarg\<rparr>)
      else if c = CHR ''l'' then Done (o1\<lparr>limitfile := Some optarg\<rparr>)
      else if c = CHR ''s'' then Done (o1\<lparr>startchar := Some optarg\<rparr>)
      else Fault (Exit 1))"

fun gen_parse :: "(char \<times> string) list \<Rightarrow> gen_options \<Rightarrow> gen_options outcome" where
  "gen_parse [] o1 = Done o1"
| "gen_parse (opt # opts) o1 =
     (case gen_option o1 opt of Fault f \<Rightarrow> Fault f | Done o2 \<Rightarrow> gen_parse opts o2)"

text \<open>The file of \<open>-l\<close>: a count and that many keys; a line past the end reads as empty.\<close>

definition read_limit :: "string list \<Rightarrow> string list outcome" where
  "read_limit lines =
     (case stoi (case lines of [] \<Rightarrow> [] | l # ls \<Rightarrow> l) of
        Fault f \<Rightarrow> Fault f
      | Done n \<Rightarrow>
          Done (map (\<lambda>r. if Suc r < length lines then lines ! Suc r else []) [0..<nat n]))"

section \<open>Random texts\<close>

text \<open>\<open>rand() % d\<close> for an \<open>int d\<close>: the sign of \<open>d\<close> does not matter.\<close>

definition rand_mod :: "nat \<Rightarrow> int \<Rightarrow> nat outcome" where
  "rand_mod r d = (if d = 0 then Fault Div_by_zero else Done (r mod nat \<bar>d\<bar>))"

text \<open>\<open>length - rand() % (variance + 1)\<close>.\<close>

definition rand_length :: "int \<Rightarrow> int \<Rightarrow> nat \<Rightarrow> int outcome" where
  "rand_length len variance r =
     (if INT_MAX < variance + 1 then Fault Int_overflow
      else case rand_mod r (variance + 1) of
        Fault f \<Rightarrow> Fault f
      | Done d \<Rightarrow> if len - int d < INT_MIN then Fault Int_overflow else Done (len - int d))"

fun rand_text :: "(nat \<Rightarrow> nat) \<Rightarrow> string \<Rightarrow> nat \<Rightarrow> nat \<Rightarrow> (string \<times> nat) outcome" where
  "rand_text rnd letters 0 p = Done ([], p)"
| "rand_text rnd letters (Suc n) p =
     (if letters = [] then Fault Div_by_zero
      else case rand_text rnd letters n (Suc p) of
        Fault f \<Rightarrow> Fault f
      | Done (s, q) \<Rightarrow> Done (letters ! (rnd p mod length letters) # s, q))"

section \<open>One test\<close>

record gen_state =
  mode :: char
  opcode :: int
  keystring :: string
  keymap :: "string list"
  pos :: nat

text \<open>\<open>keymap->size() >= n\<close> and \<open>keymap->size() > n\<close>: the \<open>int\<close> is converted to \<open>size_t\<close>.\<close>

definition size_ge :: "string list \<Rightarrow> int \<Rightarrow> bool" where
  "size_ge ks n \<longleftrightarrow> n mod 18446744073709551616 \<le> int (length ks)"

definition size_gt :: "string list \<Rightarrow> int \<Rightarrow> bool" where
  "size_gt ks n \<longleftrightarrow> n mod 18446744073709551616 < int (length ks)"

definition percent :: "(nat \<Rightarrow> nat) \<Rightarrow> gen_state \<Rightarrow> int" where
  "percent rnd g = int (rnd (pos g) mod 100)"

definition drawn :: "gen_state \<Rightarrow> gen_state" where
  "drawn g = g\<lparr>pos := Suc (pos g)\<rparr>"

definition choose_mode :: "gen_options \<Rightarrow> (nat \<Rightarrow> nat) \<Rightarrow> gen_state \<Rightarrow> gen_state" where
  "choose_mode o1 rnd g =
     (if percent rnd g + 1 < readProb o1 \<and> size_ge (keymap g) (writeamount o1)
      then (drawn g)\<lparr>mode := CHR ''r'', opcode := 0\<rparr>
      else
        (let g1 = drawn g in
         if deletechance o1 < percent rnd g1 then (drawn g1)\<lparr>mode := CHR ''w'', opcode := 1\<rparr>
         else (drawn g1)\<lparr>mode := CHR ''d'', opcode := 2\<rparr>))"

definition choose_key ::
  "gen_options \<Rightarrow> string list option \<Rightarrow> (nat \<Rightarrow> nat) \<Rightarrow> int \<Rightarrow> gen_state \<Rightarrow> gen_state outcome" where
  "choose_key o1 limitvector rnd keyoffset g =
     (case limitvector of
        Some ks \<Rightarrow>
          if ks = [] then Fault Div_by_zero
          else Done ((drawn g)\<lparr>keystring := ks ! (rnd (pos g) mod length ks)\<rparr>)
      | None \<Rightarrow>
          (case startchar o1 of
             Some c \<Rightarrow>
               if keyoffset \<le> 0 then Done (g\<lparr>keystring := []\<rparr>)
               else (case rand_text rnd (alphabet o1) (nat keyoffset - 1) (pos g) of
                       Fault f \<Rightarrow> Fault f
                     | Done (s, p) \<Rightarrow> Done (g\<lparr>keystring := c @ s, pos := p\<rparr>))
           | None \<Rightarrow>
               (case rand_text rnd (alphabet o1) (nat keyoffset) (pos g) of
                  Fault f \<Rightarrow> Fault f
                | Done (s, p) \<Rightarrow> Done (g\<lparr>keystring := s, pos := p\<rparr>))))"

text \<open>\<open>begin()\<close> advanced by \<open>rand() % size()\<close>.\<close>

definition pick_key ::
  "(nat \<Rightarrow> string list \<Rightarrow> string list) \<Rightarrow> (nat \<Rightarrow> nat) \<Rightarrow> gen_state \<Rightarrow> gen_state outcome" where
  "pick_key order rnd g =
     (if keymap g = [] then Fault Div_by_zero
      else Done ((drawn g)\<lparr>keystring := order (pos g) (keymap g) ! (rnd (pos g) mod length (keymap g))\<rparr>))"

definition add_key :: "gen_state \<Rightarrow> gen_state" where
  "add_key g =
     (if keystring g \<in> set (keymap g) then g else g\<lparr>keymap := keymap g @ [keystring g]\<rparr>)"

definition erase_key :: "gen_state \<Rightarrow> gen_state" where
  "erase_key g = g\<lparr>keymap := removeAll (keystring g) (keymap g)\<rparr>"

definition check_read ::
  "gen_options \<Rightarrow> (nat \<Rightarrow> string list \<Rightarrow> string list) \<Rightarrow> (nat \<Rightarrow> nat) \<Rightarrow> gen_state \<Rightarrow> gen_state outcome" where
  "check_read o1 order rnd g =
     (if mode g \<noteq> CHR ''r'' \<or> keystring g \<in> set (keymap g) then Done g
      else if percent rnd g < failurerate o1 then Done (drawn g)
      else if keymap g = [] then Done ((drawn g)\<lparr>mode := CHR ''w''\<rparr>)
      else if percent rnd (drawn g) < readProb o1 then pick_key order rnd (drawn (drawn g))
      else Done ((drawn (drawn g))\<lparr>mode := CHR ''w''\<rparr>))"

definition check_delete ::
  "(nat \<Rightarrow> string list \<Rightarrow> string list) \<Rightarrow> (nat \<Rightarrow> nat) \<Rightarrow> gen_state \<Rightarrow> gen_state outcome" where
  "check_delete order rnd g =
     (if mode g \<noteq> CHR ''d'' then Done g
      else
        (let g = g\<lparr>opcode := 2\<rparr> in
         if keystring g \<in> set (keymap g) then Done (erase_key g)
         else if percent rnd g < 70 \<and> keymap g \<noteq> []
         then (case pick_key order rnd (drawn g) of
                 Fault f \<Rightarrow> Fault f | Done g' \<Rightarrow> Done (erase_key g'))
         else Done ((drawn g)\<lparr>mode := CHR ''w''\<rparr>)))"

definition check_write ::
  "gen_options \<Rightarrow> (nat \<Rightarrow> string list \<Rightarrow> string list) \<Rightarrow> (nat \<Rightarrow> nat) \<Rightarrow> gen_state \<Rightarrow> gen_state outcome" where
  "check_write o1 order rnd g =
     (if mode g \<noteq> CHR ''w'' then Done g
      else if keystring g \<in> set (keymap g) then Done (g\<lparr>opcode := 3\<rparr>)
      else
        (let g1 = drawn g; g2 = drawn g1 in
         if failurerate o1 \<le> percent rnd g
         then (if percent rnd g1 \<le> updatechance o1 \<and> size_gt (keymap g) (writeamount o1)
               then pick_key order rnd (g2\<lparr>opcode := 3\<rparr>)
               else Done (add_key (g2\<lparr>opcode := 1\<rparr>)))
         else (if updatechance o1 < percent rnd g1
               then (case pick_key order rnd (g2\<lparr>opcode := 1\<rparr>) of
                       Fault f \<Rightarrow> Fault f | Done g' \<Rightarrow> Done (add_key g'))
               else Done (g2\<lparr>opcode := 3\<rparr>))))"

text \<open>A test: the operation, the key, and the value of a write.\<close>

type_synonym test = "int \<times> string \<times> string option"

definition one_test ::
  "gen_options \<Rightarrow> string list option \<Rightarrow> (nat \<Rightarrow> string list \<Rightarrow> string list) \<Rightarrow> (nat \<Rightarrow> nat) \<Rightarrow> int \<Rightarrow> int \<Rightarrow>
   gen_state \<Rightarrow> (gen_state \<times> test) outcome" where
  "one_test o1 limitvector order rnd keyoffset valueoffset g =
     (case choose_key o1 limitvector rnd keyoffset (choose_mode o1 rnd g) of
        Fault f \<Rightarrow> Fault f
      | Done g1 \<Rightarrow>
     (case check_read o1 order rnd g1 of
        Fault f \<Rightarrow> Fault f
      | Done g2 \<Rightarrow>
     (case check_delete order rnd g2 of
        Fault f \<Rightarrow> Fault f
      | Done g3 \<Rightarrow>
     (case check_write o1 order rnd g3 of
        Fault f \<Rightarrow> Fault f
      | Done g4 \<Rightarrow>
          if mode g4 \<noteq> CHR ''w'' then Done (g4, (opcode g4, keystring g4, None))
          else (case rand_text rnd (alphabet o1) (nat valueoffset) (pos g4) of
                  Fault f \<Rightarrow> Fault f
                | Done (v, p) \<Rightarrow> Done (g4\<lparr>pos := p\<rparr>, (opcode g4, keystring g4, Some v)))))))"

fun tests ::
  "gen_options \<Rightarrow> string list option \<Rightarrow> (nat \<Rightarrow> string list \<Rightarrow> string list) \<Rightarrow> (nat \<Rightarrow> nat) \<Rightarrow> int \<Rightarrow> int \<Rightarrow>
   nat \<Rightarrow> gen_state \<Rightarrow> (gen_state \<times> test list) outcome" where
  "tests o1 lv order rnd ko vo 0 g = Done (g, [])"
| "tests o1 lv order rnd ko vo (Suc n) g =
     (case one_test o1 lv order rnd ko vo g of
        Fault f \<Rightarrow> Fault f
      | Done (g', t) \<Rightarrow>
          (case tests o1 lv order rnd ko vo n g' of
             Fault f \<Rightarrow> Fault f | Done (g'', ts) \<Rightarrow> Done (g'', t # ts)))"

section \<open>The files\<close>

definition test_line :: "test \<Rightarrow> string" where
  "test_line t =
     (case t of (op, k, v) \<Rightarrow>
        show_int op @ '':'' @ k @ '':'' @ (case v of None \<Rightarrow> [] | Some s \<Rightarrow> s @ '':''))"

text \<open>The file of one client, with the map emptied at the end, and those of all clients.\<close>

definition one_file ::
  "gen_options \<Rightarrow> string list option \<Rightarrow> (nat \<Rightarrow> string list \<Rightarrow> string list) \<Rightarrow> (nat \<Rightarrow> nat) \<Rightarrow>
   gen_state \<Rightarrow> (gen_state \<times> test list) outcome" where
  "one_file o1 lv order rnd g =
     (case rand_length (keyLength o1) (keyvariance o1) (rnd (pos g)) of
        Fault f \<Rightarrow> Fault f
      | Done keyoffset \<Rightarrow>
     (case rand_length (valueLength o1) (valuevariance o1) (rnd (Suc (pos g))) of
        Fault f \<Rightarrow> Fault f
      | Done valueoffset \<Rightarrow>
     (case tests o1 lv order rnd keyoffset valueoffset (nat (testcount o1))
             (g\<lparr>pos := pos g + 2\<rparr>) of
        Fault f \<Rightarrow> Fault f
      | Done (g', ts) \<Rightarrow> Done (g'\<lparr>keymap := []\<rparr>, ts))))"

fun all_files ::
  "gen_options \<Rightarrow> string list option \<Rightarrow> (nat \<Rightarrow> string list \<Rightarrow> string list) \<Rightarrow> (nat \<Rightarrow> nat) \<Rightarrow> nat \<Rightarrow> int \<Rightarrow>
   gen_state \<Rightarrow> (string \<times> string list) list outcome" where
  "all_files o1 lv order rnd 0 z g = Done []"
| "all_files o1 lv order rnd (Suc n) z g =
     (if INT_MAX < z + offset o1 then Fault Int_overflow
      else case one_file o1 lv order rnd g of
        Fault f \<Rightarrow> Fault f
      | Done (g', ts) \<Rightarrow>
          (case all_files o1 lv order rnd n (z + 1) g' of
             Fault f \<Rightarrow> Fault f
           | Done files \<Rightarrow>
               Done ((title o1 @ show_int (z + offset o1) @ ''.txt'',
                      show_int (testcount o1) # map test_line ts) # files)))"

definition createTest ::
  "(char \<times> string) list \<Rightarrow> (string \<Rightarrow> string list) \<Rightarrow> (nat \<Rightarrow> string list \<Rightarrow> string list) \<Rightarrow> (nat \<Rightarrow> nat) \<Rightarrow>
   (string \<times> string list) list outcome" where
  "createTest opts disk order rnd =
     (case gen_parse opts gen_options_new of
        Fault f \<Rightarrow> Fault f
      | Done o1 \<Rightarrow>
     (case (case limitfile o1 of
              None \<Rightarrow> Done None
            | Some n \<Rightarrow> (case read_limit (disk n) of Fault f \<Rightarrow> Fault f | Done ks \<Rightarrow> Done (Some ks))) of
        Fault f \<Rightarrow> Fault f
      | Done lv \<Rightarrow>
          all_files o1 lv order rnd (nat (clientcount o1)) 0
            \<lparr>mode = CHR 0x00, opcode = 0, keystring = [], keymap = [], pos = 0\<rparr>))"

section \<open>Every generated request is meant to succeed\<close>

text \<open>What is known of the iteration order of an \<open>unordered_map\<close>: every key once.\<close>

definition visits_all :: "(nat \<Rightarrow> string list \<Rightarrow> string list) \<Rightarrow> bool" where
  "visits_all order \<longleftrightarrow>
     (\<forall>p ks. distinct ks \<longrightarrow> set (order p ks) = set ks \<and> length (order p ks) = length ks)"

definition op_of_code :: "int \<Rightarrow> Operation" where
  "op_of_code c = (if c = 0 then GET else if c = 1 then PUT else if c = 2 then DELETE else UPDATE)"

text \<open>The tests against the abstract store: all of them succeed.\<close>

definition test_value :: "string option \<Rightarrow> string" where
  "test_value v = (case v of None \<Rightarrow> [] | Some s \<Rightarrow> s)"

fun all_succeed :: "(string \<rightharpoonup> string) \<Rightarrow> test list \<Rightarrow> bool" where
  "all_succeed m [] = True"
| "all_succeed m ((c, k, v) # ts) =
     (let (ok, m', w) = kv_spec m (op_of_code c) k (test_value v) in ok \<and> all_succeed m' ts)"

definition in_step :: "(string \<rightharpoonup> string) \<Rightarrow> gen_state \<Rightarrow> bool" where
  "in_step m g \<longleftrightarrow> dom m = set (keymap g) \<and> distinct (keymap g)"

lemma pick_key_known:
  assumes "visits_all order" "distinct (keymap g)" "pick_key order rnd g = Done g'"
  shows "keystring g' \<in> set (keymap g) \<and> keymap g' = keymap g \<and> mode g' = mode g \<and>
    opcode g' = opcode g"
proof -
  from assms(3) have ne: "keymap g \<noteq> []" and
    g': "g' = (drawn g)\<lparr>keystring := order (pos g) (keymap g) ! (rnd (pos g) mod length (keymap g))\<rparr>"
    by (auto simp: pick_key_def split: if_splits)
  from assms(1,2) have "set (order (pos g) (keymap g)) = set (keymap g)"
    "length (order (pos g) (keymap g)) = length (keymap g)" by (auto simp: visits_all_def)
  with ne have "order (pos g) (keymap g) ! (rnd (pos g) mod length (keymap g)) \<in> set (keymap g)"
    using nth_mem [of "rnd (pos g) mod length (keymap g)" "order (pos g) (keymap g)"] by simp
  with g' show ?thesis by (simp add: drawn_def)
qed

lemma choose_mode_modes:
  "keymap (choose_mode o1 rnd g) = keymap g \<and>
   (mode (choose_mode o1 rnd g), opcode (choose_mode o1 rnd g)) \<in>
     {(CHR ''r'', 0), (CHR ''w'', 1), (CHR ''d'', 2)}"
  by (simp add: choose_mode_def drawn_def Let_def)

lemma choose_key_keeps:
  "choose_key o1 lv rnd ko g = Done g' \<Longrightarrow>
   keymap g' = keymap g \<and> mode g' = mode g \<and> opcode g' = opcode g"
  by (auto simp: choose_key_def drawn_def split: option.splits if_splits sum.splits prod.splits)

lemma check_read_known:
  assumes "visits_all order" "distinct (keymap g)" "failurerate o1 \<le> 0"
    and "check_read o1 order rnd g = Done g'"
  shows "keymap g' = keymap g \<and>
    (if mode g = CHR ''r''
     then mode g' = CHR ''w'' \<or>
       mode g' = CHR ''r'' \<and> opcode g' = opcode g \<and> keystring g' \<in> set (keymap g)
     else g' = g)"
proof -
  have "0 \<le> percent rnd g" by (simp add: percent_def)
  with assms(3) have pc: "\<not> percent rnd g < failurerate o1" by simp
  show ?thesis
  proof (cases "mode g \<noteq> CHR ''r'' \<or> keystring g \<in> set (keymap g)")
    case True
    with assms(4) have "g' = g" by (simp add: check_read_def)
    with True show ?thesis by auto
  next
    case F: False
    show ?thesis
    proof (cases "keymap g \<noteq> [] \<and> percent rnd (drawn g) < readProb o1")
      case True
      with F pc assms(4) have "pick_key order rnd (drawn (drawn g)) = Done g'"
        by (simp add: check_read_def)
      from pick_key_known [OF assms(1) _ this] assms(2) F show ?thesis by (simp add: drawn_def)
    next
      case False
      with F pc assms(4) have "keymap g' = keymap g \<and> mode g' = CHR ''w''"
        by (cases "keymap g = []") (auto simp: check_read_def drawn_def)
      with F show ?thesis by simp
    qed
  qed
qed

lemma check_delete_known:
  assumes "visits_all order" "distinct (keymap g)" "check_delete order rnd g = Done g'"
  shows "if mode g = CHR ''d''
     then mode g' = CHR ''w'' \<and> keymap g' = keymap g \<or>
       mode g' = CHR ''d'' \<and> opcode g' = 2 \<and> keystring g' \<in> set (keymap g) \<and>
       keymap g' = removeAll (keystring g') (keymap g)
     else g' = g"
proof (cases "mode g = CHR ''d''")
  case True
  let ?g = "g\<lparr>opcode := 2\<rparr>"
  from True assms(3) consider "g' = erase_key ?g" "keystring g \<in> set (keymap g)"
    | g1 where "pick_key order rnd (drawn ?g) = Done g1" "g' = erase_key g1"
    | "g' = (drawn ?g)\<lparr>mode := CHR ''w''\<rparr>"
    by (auto simp: check_delete_def Let_def split: if_splits sum.splits)
  then show ?thesis
  proof cases
    case 2
    with pick_key_known [OF assms(1) _ 2(1)] assms(2) True show ?thesis
      by (auto simp: drawn_def erase_key_def)
  qed (use True in \<open>auto simp: drawn_def erase_key_def\<close>)
qed (use assms(3) in \<open>auto simp: check_delete_def\<close>)

lemma check_write_known:
  assumes "visits_all order" "distinct (keymap g)" "failurerate o1 \<le> 0"
    and "check_write o1 order rnd g = Done g'"
  shows "if mode g = CHR ''w''
     then mode g' = CHR ''w'' \<and>
       (opcode g' = 3 \<and> keystring g' \<in> set (keymap g) \<and> keymap g' = keymap g \<or>
        opcode g' = 1 \<and> keystring g' \<notin> set (keymap g) \<and> keymap g' = keymap g @ [keystring g'])
     else g' = g"
proof (cases "mode g = CHR ''w''")
  case True
  let ?g2 = "drawn (drawn g)"
  have "0 \<le> percent rnd g" by (simp add: percent_def)
  with assms(3) have pc: "failurerate o1 \<le> percent rnd g" by simp
  show ?thesis
  proof (cases "keystring g \<in> set (keymap g)")
    case T: True
    with assms(4) True have "g' = g\<lparr>opcode := 3\<rparr>" by (simp add: check_write_def)
    with T True show ?thesis by simp
  next
    case F: False
    show ?thesis
    proof (cases "percent rnd (drawn g) \<le> updatechance o1 \<and> size_gt (keymap g) (writeamount o1)")
      case P: True
      with assms(4) True F pc have "pick_key order rnd (?g2\<lparr>opcode := 3\<rparr>) = Done g'"
        by (simp add: check_write_def Let_def)
      from pick_key_known [OF assms(1) _ this] assms(2) True show ?thesis by (simp add: drawn_def)
    next
      case P: False
      with assms(4) True F pc have "g' = add_key (?g2\<lparr>opcode := 1\<rparr>)"
        by (simp only: check_write_def Let_def not_True_eq_False if_False if_True simp_thms sum.inject)
      with F True show ?thesis by (simp add: drawn_def add_key_def)
    qed
  qed
qed (use assms(4) in \<open>auto simp: check_write_def\<close>)

text \<open>One test keeps the generator's map in step with the store, and succeeds there.\<close>

lemma one_test_succeeds:
  assumes ord: "visits_all order" and f: "failurerate o1 \<le> 0" and inv: "in_step m g"
    and t: "one_test o1 lv order rnd ko vo g = Done (g', (c, k, v))"
    and sp: "kv_spec m (op_of_code c) k (test_value v) = (ok, m', w)"
  shows "ok \<and> in_step m' g'"
proof -
  from t obtain g1 g2 g3 g4 where
    g1: "choose_key o1 lv rnd ko (choose_mode o1 rnd g) = Done g1" and
    g2: "check_read o1 order rnd g1 = Done g2" and
    g3: "check_delete order rnd g2 = Done g3" and
    g4: "check_write o1 order rnd g3 = Done g4" and
    res: "c = opcode g4" "k = keystring g4" "keymap g' = keymap g4"
    by (auto simp: one_test_def split: sum.splits if_splits prod.splits)
  from inv have d: "distinct (keymap g)" "dom m = set (keymap g)" by (simp_all add: in_step_def)
  from choose_mode_modes [of o1 rnd g] choose_key_keeps [OF g1]
  have m1: "keymap g1 = keymap g"
    "(mode g1, opcode g1) \<in> {(CHR ''r'', 0), (CHR ''w'', 1), (CHR ''d'', 2)}" by simp_all
  from check_read_known [OF ord _ f g2] d m1
  have m2: "keymap g2 = keymap g" "mode g2 = CHR ''r'' \<Longrightarrow> opcode g2 = 0 \<and> keystring g2 \<in> set (keymap g)"
    "mode g2 \<in> {CHR ''r'', CHR ''w'', CHR ''d''}"
    by (auto split: if_splits)
  from check_delete_known [OF ord _ g3] d m2
  have m3: "mode g3 = CHR ''r'' \<Longrightarrow> g3 = g2 \<and> mode g2 = CHR ''r''"
    "mode g3 = CHR ''d'' \<Longrightarrow> opcode g3 = 2 \<and> keystring g3 \<in> set (keymap g) \<and>
       keymap g3 = removeAll (keystring g3) (keymap g)"
    "mode g3 = CHR ''w'' \<Longrightarrow> keymap g3 = keymap g" "mode g3 \<in> {CHR ''r'', CHR ''w'', CHR ''d''}"
    by (auto split: if_splits)
  from m3 m2 d have d3: "distinct (keymap g3)"
    by (auto intro: distinct_removeAll)
  from check_write_known [OF ord d3 f g4] m3(4) consider
      "mode g3 = CHR ''r''" "g4 = g3" | "mode g3 = CHR ''d''" "g4 = g3"
    | "mode g3 = CHR ''w''" "opcode g4 = 3" "keystring g4 \<in> set (keymap g3)" "keymap g4 = keymap g3"
    | "mode g3 = CHR ''w''" "opcode g4 = 1" "keystring g4 \<notin> set (keymap g3)"
      "keymap g4 = keymap g3 @ [keystring g4]"
    by (auto split: if_splits)
  then show ?thesis
  proof cases
    case 1
    with m3(1) m2 have "c = 0" "k \<in> dom m" "keymap g' = keymap g" using res d by auto
    with sp inv show ?thesis by (auto simp: op_of_code_def in_step_def split: option.splits)
  next
    case 2
    with m3(2) have "c = 2" "k \<in> dom m" "keymap g' = removeAll k (keymap g)" using res d by auto
    moreover from this sp have "ok" "m' = m(k := None)" by (auto simp: op_of_code_def)
    ultimately show ?thesis using d by (simp add: in_step_def distinct_removeAll)
  next
    case 3
    with m3(3) have "c = 3" "k \<in> dom m" "keymap g' = keymap g" using res d by auto
    moreover from this sp have "ok" "m' = m(k \<mapsto> test_value v)"
      by (auto simp: op_of_code_def split: if_splits)
    ultimately show ?thesis using d by (simp add: in_step_def insert_absorb)
  next
    case 4
    with m3(3) have "c = 1" "k \<notin> dom m" "keymap g' = keymap g @ [k]" using res d by auto
    moreover from this sp have "ok" "m' = m(k \<mapsto> test_value v)"
      by (auto simp: op_of_code_def split: if_splits)
    ultimately show ?thesis using d by (simp add: in_step_def)
  qed
qed

lemma tests_succeed:
  assumes "visits_all order" "failurerate o1 \<le> 0"
  shows "in_step m g \<Longrightarrow> tests o1 lv order rnd ko vo n g = Done (g', ts) \<Longrightarrow> all_succeed m ts"
proof (induction n arbitrary: m g g' ts)
  case (Suc n)
  from Suc.prems(2) obtain g1 c k v g2 ts' where
    t: "one_test o1 lv order rnd ko vo g = Done (g1, (c, k, v))" and
    ts: "tests o1 lv order rnd ko vo n g1 = Done (g2, ts')" "ts = (c, k, v) # ts'"
    by (auto split: sum.splits prod.splits)
  obtain ok m' w where sp: "kv_spec m (op_of_code c) k (test_value v) = (ok, m', w)"
    by (cases "kv_spec m (op_of_code c) k (test_value v)") auto
  from one_test_succeeds [OF assms Suc.prems(1) t sp] Suc.IH [OF _ ts(1), of m'] ts(2) sp
  show ?case by simp
qed simp

text \<open>With a failure rate the first write may be one that is meant to fail: it looks for a known key in
  the empty map.\<close>

lemma failure_rate_divides_by_zero:
  assumes "mode g = CHR ''w''" "keymap g = []" "percent rnd g < failurerate o1"
    and "updatechance o1 < percent rnd (drawn g)"
  shows "check_write o1 order rnd g = Fault Div_by_zero"
  using assms by (simp add: check_write_def pick_key_def drawn_def)

section \<open>Properties\<close>

text \<open>C36. Without a failure rate every request the generator writes for a client succeeds on a store
  that was empty at the client's start: reads, updates and deletes ask for keys that are there,
  inserts for keys that are not, whatever the random numbers and whatever order the map is iterated
  in.\<close>

theorem generated_requests_succeed:
  assumes "visits_all order" and "failurerate o1 \<le> 0" and "keymap g = []"
    and "one_file o1 lv order rnd g = Done (g', ts)"
  shows "all_succeed Map.empty ts"
proof -
  from assms(4) obtain ko vo g1 where
    "tests o1 lv order rnd ko vo (nat (testcount o1)) (g\<lparr>pos := pos g + 2\<rparr>) = Done (g1, ts)"
    by (auto simp: one_file_def split: sum.splits prod.splits)
  from tests_succeed [OF assms(1,2) _ this, of Map.empty] assms(3) show ?thesis
    by (simp add: in_step_def)
qed

lemma generated_requests_succeed_witness:
  "all_succeed Map.empty
     [(1, ''a'', Some ''b''), (1, ''b'', Some ''c''), (0, ''a'', None), (3, ''a'', Some ''b''),
      (2, ''b'', None)]"
proof -
  let ?o = "gen_options_new\<lparr>testcount := 5, keyLength := 1, valueLength := 1, alphabet := ''abc''\<rparr>"
  let ?g = "\<lparr>mode = CHR 0x00, opcode = 0, keystring = [], keymap = [], pos = 0\<rparr>"
  let ?rnd = "\<lambda>n. [0, 0, 0, 50, 0, 0, 0, 1, 95, 50, 1, 0, 99, 2, 0, 0, 95, 50, 0, 1, 95, 5, 1] ! n"
  have "one_file ?o None (\<lambda>p. rev) ?rnd ?g =
      Done (\<lparr>mode = CHR ''d'', opcode = 2, keystring = ''b'', keymap = [], pos = 23\<rparr>,
        [(1, ''a'', Some ''b''), (1, ''b'', Some ''c''), (0, ''a'', None), (3, ''a'', Some ''b''),
         (2, ''b'', None)])"
    by code_simp
  moreover have "visits_all (\<lambda>p. rev)" by (simp add: visits_all_def)
  ultimately show ?thesis
    using generated_requests_succeed [of "\<lambda>p. rev" ?o ?g None ?rnd] by (simp add: gen_options_new_def)
qed

end
