(* ===== verification/TestClient.thy ===== *)
theory TestClient
  imports BenchClient TestGen
begin

text \<open>
  \<open>testclient/main.cpp\<close>: the client that replays the generator's files. A file is the list of its
  lines, each ended by a newline; reading past the last one gives the empty line. The socket's
  answers are not looked at (verbose mode, which prints them, is left out), and the sending loop
  returns the requests it made.
\<close>

section \<open>Parsing a line\<close>

text \<open>The characters of the line from some index on, with the NUL that \<open>operator[]\<close> returns at the
  line's length; a field is read up to a colon or \<open>n\<close> characters.\<close>

fun copy_field :: "string \<Rightarrow> nat \<Rightarrow> (string \<times> string) outcome" where
  "copy_field [] n = Fault Out_of_bounds"
| "copy_field (c # cs) n =
     (if c = CHR '':'' \<or> n = 0 then Done ([], c # cs)
      else case copy_field cs (n - 1) of
        Fault f \<Rightarrow> Fault f | Done (s, rest) \<Rightarrow> Done (c # s, rest))"

definition nul_pad :: "nat \<Rightarrow> string \<Rightarrow> string" where
  "nul_pad n s = s @ replicate (n - length s) CHR 0x00"

definition parseLine :: "string \<Rightarrow> send_message outcome" where
  "parseLine line =
     (case stoi [hd (line @ [CHR 0x00])] of
        Fault f \<Rightarrow> Fault f
      | Done op \<Rightarrow>
     (case copy_field (drop 2 (line @ [CHR 0x00])) 16 of
        Fault f \<Rightarrow> Fault f
      | Done (k, rest) \<Rightarrow>
     (case copy_field (tl rest) 32 of
        Fault f \<Rightarrow> Fault f
      | Done (v, rest') \<Rightarrow>
          Done \<lparr>operation = byte_of op, keepalive = CHR 0x01, key = nul_pad 16 k, msg_value = nul_pad 32 v\<rparr>)))"

section \<open>The sending loop\<close>

text \<open>The open file: the lines that are left, and \<open>linecount\<close>. After \<open>length\<close> lines the file is
  opened again and its first line skipped.\<close>

type_synonym reader = "string list \<times> nat"

definition next_line :: "string list \<Rightarrow> int \<Rightarrow> reader \<Rightarrow> string \<times> reader" where
  "next_line file len s =
     (let (rest, linecount) = (if len \<le> int (snd s) then (tl file, 0) else s) in
      case rest of
        [] \<Rightarrow> ([], ([], Suc linecount))
      | l # ls \<Rightarrow> (l, (ls, Suc linecount)))"

fun read_messages ::
  "string list \<Rightarrow> int \<Rightarrow> nat \<Rightarrow> reader \<Rightarrow> (send_message list \<times> reader) outcome" where
  "read_messages file len 0 s = Done ([], s)"
| "read_messages file len (Suc n) s =
     (let (line, s1) = next_line file len s in
      case parseLine line of
        Fault f \<Rightarrow> Fault f
      | Done msg \<Rightarrow>
          (case read_messages file len n s1 of
             Fault f \<Rightarrow> Fault f | Done (ms, s2) \<Rightarrow> Done (msg # ms, s2)))"

definition end_connection :: "send_message list \<Rightarrow> send_message list" where
  "end_connection ms = butlast ms @ [(last ms)\<lparr>keepalive := CHR 0x00\<rparr>]"

text \<open>\<^const>\<open>None\<close> when the loop never ends.\<close>

partial_function (option) replay_loop ::
  "string list \<Rightarrow> int \<Rightarrow> 16 word \<Rightarrow> 32 word \<Rightarrow> 32 word \<Rightarrow> reader \<Rightarrow>
   (send_message list list \<times> 32 word) outcome option" where
  "replay_loop file len m num msgs_sent s =
     (if msgs_sent < num
      then (case read_messages file len (unat m) s of
              Fault f \<Rightarrow> Some (Fault f)
            | Done (ms, s') \<Rightarrow>
                (let sent' = msgs_sent + ucast m;
                     ms' = (if sent' = num then end_connection ms else ms) in
                 Option.bind (replay_loop file len m num sent' s')
                   (\<lambda>r. case r of
                      Fault f \<Rightarrow> Some (Fault f)
                    | Done (reqs, sent) \<Rightarrow> Some (Done (ms' # reqs, sent)))))
      else Some (Done ([], msgs_sent)))"

definition replay_tcp_requests ::
  "string list \<Rightarrow> 16 word \<Rightarrow> 32 word \<Rightarrow> (send_message list list \<times> 32 word) outcome option" where
  "replay_tcp_requests file m num =
     (case stoi (case file of [] \<Rightarrow> [] | l # ls \<Rightarrow> l) of
        Fault f \<Rightarrow> Some (Fault f)
      | Done len \<Rightarrow> replay_loop file len m num 0 (tl file, 0))"

text \<open>The UDP variant, which nothing calls: the same loop without the closing message.\<close>

partial_function (option) replay_udp_loop ::
  "string list \<Rightarrow> int \<Rightarrow> 16 word \<Rightarrow> 32 word \<Rightarrow> 32 word \<Rightarrow> reader \<Rightarrow>
   (send_message list list \<times> 32 word) outcome option" where
  "replay_udp_loop file len m num msgs_sent s =
     (if msgs_sent < num
      then (case read_messages file len (unat m) s of
              Fault f \<Rightarrow> Some (Fault f)
            | Done (ms, s') \<Rightarrow>
                Option.bind (replay_udp_loop file len m num (msgs_sent + ucast m) s')
                  (\<lambda>r. case r of
                     Fault f \<Rightarrow> Some (Fault f)
                   | Done (reqs, sent) \<Rightarrow> Some (Done (ms # reqs, sent))))
      else Some (Done ([], msgs_sent)))"

definition replay_udp_requests ::
  "string list \<Rightarrow> 16 word \<Rightarrow> 32 word \<Rightarrow> (send_message list list \<times> 32 word) outcome option" where
  "replay_udp_requests file m num =
     (case stoi (case file of [] \<Rightarrow> [] | l # ls \<Rightarrow> l) of
        Fault f \<Rightarrow> Some (Fault f)
      | Done len \<Rightarrow> replay_udp_loop file len m num 0 (tl file, 0))"

text \<open>Whenever the TCP loop returns, so does the UDP loop: with the same fault, or with the same counter
  and requests that differ in the \<open>keepalive\<close> of a last message at most.\<close>

definition but_keepalive :: "send_message list \<Rightarrow> send_message list" where
  "but_keepalive = map (keepalive_update (\<lambda>_. CHR 0x00))"

lemma but_keepalive_end: "ms \<noteq> [] \<Longrightarrow> but_keepalive (end_connection ms) = but_keepalive ms"
  by (induction ms rule: rev_induct) (simp_all add: but_keepalive_def end_connection_def)

fun same_requests ::
  "(send_message list list \<times> 32 word) outcome \<Rightarrow> (send_message list list \<times> 32 word) outcome \<Rightarrow> bool" where
  "same_requests (Fault f) r' \<longleftrightarrow> r' = Fault f"
| "same_requests (Done (reqs, n)) r' \<longleftrightarrow>
     (\<exists>reqs'. r' = Done (reqs', n) \<and> map but_keepalive reqs' = map but_keepalive reqs)"

lemma read_messages_nonempty:
  "read_messages file len k s = Done (ms, s') \<Longrightarrow> 0 < k \<Longrightarrow> ms \<noteq> []"
  by (cases k) (auto split: prod.splits sum.splits)

lemma replay_loop_udp:
  assumes "replay_loop lines len m num sent s = Some r" and "m \<noteq> 0"
  shows "\<exists>r'. replay_udp_loop lines len m num sent s = Some r' \<and> same_requests r r'"
proof -
  have "m \<noteq> 0 \<longrightarrow> (\<exists>r'. replay_udp_loop lines len m num sent s = Some r' \<and> same_requests r r')"
    using assms(1)
  proof (induction lines len m num sent s r rule: replay_loop.raw_induct [rotated, consumes 1])
    case (1 rec lines len m num sent s r)
    show ?case
    proof
      assume m: "m \<noteq> 0"
      show "\<exists>r'. replay_udp_loop lines len m num sent s = Some r' \<and> same_requests r r'"
      proof (cases "sent < num")
        case False
        with 1(2) show ?thesis by (subst replay_udp_loop.simps) auto
      next
        case more: True
        show ?thesis
        proof (cases "read_messages lines len (unat m) s")
          case (Inl f)
          with more 1(2) show ?thesis by (subst replay_udp_loop.simps) auto
        next
          case (Inr q)
          obtain ms s' where q: "q = (ms, s')" by (cases q)
          have ms: "but_keepalive (end_connection ms) = but_keepalive ms"
            using read_messages_nonempty [of lines len "unat m" s ms s'] Inr q m
            by (simp add: but_keepalive_end unat_gt_0)
          from more Inr q 1(2) obtain r0 where r0: "rec lines len m num (sent + ucast m) s' = Some r0"
            "(case r0 of Fault f \<Rightarrow> Some (Fault f)
                | Done (reqs, n) \<Rightarrow>
                  Some (Done ((if sent + ucast m = num then end_connection ms else ms) # reqs, n))) = Some r"
            by (auto simp only: bind_eq_Some_conv Let_def if_True sum.case prod.case)
          from 1(1) [OF r0(1)] m obtain r' where
            "replay_udp_loop lines len m num (sent + ucast m) s' = Some r'" "same_requests r0 r'"
            by blast
          with more Inr q r0(2) ms show ?thesis
            by (cases r0) (auto simp: replay_udp_loop.simps [of lines len m num sent s])
        qed
      qed
    qed
  qed
  with assms(2) show ?thesis by blast
qed

lemma replay_udp_same:
  assumes "replay_tcp_requests file m num = Some r" and "m \<noteq> 0"
  shows "\<exists>r'. replay_udp_requests file m num = Some r' \<and> same_requests r r'"
  using assms replay_loop_udp
  by (auto simp: replay_tcp_requests_def replay_udp_requests_def split: sum.splits)

section \<open>The requests go round the file\<close>

text \<open>A file of \<open>n\<close> tests under a header that says so, and the reader after \<open>i\<close> of them.\<close>

definition replay_file :: "string list \<Rightarrow> send_message list \<Rightarrow> bool" where
  "replay_file file ms \<longleftrightarrow>
     ms \<noteq> [] \<and> file \<noteq> [] \<and> stoi (hd file) = Done (int (length ms)) \<and>
     map parseLine (take (length ms) (tl file)) = map Done ms"

definition reader_at :: "string list \<Rightarrow> nat \<Rightarrow> nat \<Rightarrow> reader" where
  "reader_at file n i =
     (if i = 0 then (tl file, 0) else (drop (Suc ((i - 1) mod n)) (tl file), Suc ((i - 1) mod n)))"

lemma replay_file_nth:
  assumes "replay_file file ms" and "c < length ms"
  obtains l where "drop c (tl file) = l # drop (Suc c) (tl file)" "parseLine l = Done (ms ! c)"
proof -
  from assms have m: "map parseLine (take (length ms) (tl file)) = map Done ms"
    by (simp add: replay_file_def)
  have len: "length ms \<le> length (tl file)"
    using arg_cong [OF m, of length] by simp
  with assms(2) have "c < length (tl file)" by simp
  then have "drop c (tl file) = tl file ! c # drop (Suc c) (tl file)"
    by (simp add: Cons_nth_drop_Suc)
  moreover have "parseLine (tl file ! c) = Done (ms ! c)"
    using arg_cong [OF m, of "\<lambda>l. l ! c"] assms(2) len by simp
  ultimately show thesis by (rule that)
qed

lemma next_line_at:
  assumes "replay_file file ms"
  obtains l where "next_line file (int (length ms)) (reader_at file (length ms) i) =
      (l, reader_at file (length ms) (Suc i))"
    and "parseLine l = Done (ms ! (i mod length ms))"
proof -
  let ?n = "length ms"
  let ?c = "i mod ?n"
  from assms have n: "0 < ?n" by (simp add: replay_file_def)
  then have "?c < ?n" by simp
  from replay_file_nth [OF assms this] obtain l where
    l: "drop ?c (tl file) = l # drop (Suc ?c) (tl file)" "parseLine l = Done (ms ! ?c)" .
  have sel: "(if int ?n \<le> int (snd (reader_at file ?n i)) then (tl file, 0) else reader_at file ?n i) =
      (drop ?c (tl file), ?c)"
  proof (cases i)
    case 0
    with n show ?thesis by (simp add: reader_at_def)
  next
    case (Suc j)
    have "j mod ?n < ?n" using n by simp
    with Suc show ?thesis by (auto simp: reader_at_def mod_Suc)
  qed
  have "next_line file (int ?n) (reader_at file ?n i) = (l, reader_at file ?n (Suc i))"
    unfolding next_line_def sel by (simp add: l(1) reader_at_def)
  with l(2) that show thesis by blast
qed

lemma read_messages_at:
  assumes "replay_file file ms"
  shows "read_messages file (int (length ms)) k (reader_at file (length ms) i) =
    Done (map (\<lambda>j. ms ! (j mod length ms)) [i..<i + k], reader_at file (length ms) (i + k))"
proof (induction k arbitrary: i)
  case (Suc k)
  from next_line_at [OF assms, of i] obtain l where
    l: "next_line file (int (length ms)) (reader_at file (length ms) i) =
        (l, reader_at file (length ms) (Suc i))"
      "parseLine l = Done (ms ! (i mod length ms))" .
  have "[i..<i + Suc k] = i # [Suc i..<Suc i + k]" by (simp add: upt_conv_Cons)
  with l Suc.IH [of "Suc i"] show ?case by simp
qed simp

text \<open>The \<open>j\<close>-th request of a replay; the last one of all, when it ends exactly at the limit, closes
  the connection.\<close>

definition nth_request :: "send_message list \<Rightarrow> nat \<Rightarrow> nat \<Rightarrow> nat \<Rightarrow> send_message list" where
  "nth_request ms m num j =
     (let q = map (\<lambda>x. ms ! (x mod length ms)) [j * m..<j * m + m] in
      if j * m + m = num then end_connection q else q)"

lemma replay_loop_step:
  assumes "msgs_sent < num" "read_messages file len (unat m) s = Done (ms, s')"
    and "replay_loop file len m num (msgs_sent + ucast m) s' = Some (Done (reqs, n))"
  shows "replay_loop file len m num msgs_sent s =
    Some (Done ((if msgs_sent + ucast m = num then end_connection ms else ms) # reqs, n))"
  using assms by (subst replay_loop.simps) simp

lemma replay_loop_requests:
  assumes rf: "replay_file file ms" and m: "0 < unat m"
    and room: "unat num + unat m \<le> 2 ^ 32" and sent: "unat sent = a * unat m"
    and lt: "unat sent < unat num + unat m"
  defines "k \<equiv> (unat num - unat sent + unat m - 1) div unat m"
  shows "\<exists>s. replay_loop file (int (length ms)) m num sent (reader_at file (length ms) (a * unat m)) =
      Some (Done (map (nth_request ms (unat m) (unat num)) [a..<a + k], s)) \<and>
    unat s = (a + k) * unat m"
  using sent lt unfolding k_def
proof (induction "unat num - unat sent" arbitrary: sent a rule: less_induct)
  case less
  let ?n = "length ms" and ?m = "unat m"
  show ?case
  proof (cases "sent < num")
    case False
    then have "unat num \<le> unat sent" by (simp add: word_less_nat_alt)
    with m have "(unat num - unat sent + ?m - 1) div ?m = 0" by simp
    moreover have "replay_loop file (int ?n) m num sent (reader_at file ?n (a * ?m)) =
        Some (Done ([], sent))"
      using False by (subst replay_loop.simps) simp
    ultimately show ?thesis using less.prems(1) by simp
  next
    case True
    then have l: "unat sent < unat num" by (simp add: word_less_nat_alt)
    have uc: "unat (ucast m :: 32 word) = ?m"
      by (rule unat_msgs_per_request)
    have add: "unat (sent + ucast m) = unat sent + ?m"
      using l room by (subst unat_add_lem [THEN iffD1]) (auto simp: uc)
    from l m add have 1: "unat num - unat (sent + ucast m) < unat num - unat sent"
      "unat (sent + ucast m) = Suc a * ?m" "unat (sent + ucast m) < unat num + ?m"
      using less.prems(1) by simp_all
    let ?k = "(unat num - unat (sent + ucast m) + ?m - 1) div ?m"
    from less.hyps [OF 1] obtain s where
      s: "replay_loop file (int ?n) m num (sent + ucast m) (reader_at file ?n (Suc a * ?m)) =
          Some (Done (map (nth_request ms ?m (unat num)) [Suc a..<Suc a + ?k], s))"
        "unat s = (Suc a + ?k) * ?m" by blast
    have k: "(unat num - unat sent + ?m - 1) div ?m = Suc ?k"
      unfolding add using m l by (rule ceiling_step)
    have rd: "read_messages file (int ?n) ?m (reader_at file ?n (a * ?m)) =
        Done (map (\<lambda>j. ms ! (j mod ?n)) [a * ?m..<a * ?m + ?m], reader_at file ?n (Suc a * ?m))"
      using read_messages_at [OF rf, of ?m "a * ?m"] by (simp add: add.commute)
    have eq: "sent + ucast m = num \<longleftrightarrow> a * ?m + ?m = unat num"
      using add less.prems(1) by (metis unsigned_word_eqI)
    have "replay_loop file (int ?n) m num sent (reader_at file ?n (a * ?m)) =
        Some (Done (nth_request ms ?m (unat num) a #
          map (nth_request ms ?m (unat num)) [Suc a..<Suc a + ?k], s))"
      using replay_loop_step [OF True rd s(1)] eq by (simp add: nth_request_def Let_def)
    moreover have "[a..<a + Suc ?k] = a # [Suc a..<Suc a + ?k]" by (simp add: upt_conv_Cons)
    ultimately show ?thesis using s(2) unfolding k by auto
  qed
qed

section \<open>What the generator writes, the client reads\<close>

lemma copy_field_colon:
  "CHR '':'' \<notin> set s \<Longrightarrow> length s \<le> n \<Longrightarrow>
   copy_field (s @ CHR '':'' # rest) n = Done (s, CHR '':'' # rest)"
  by (induction s arbitrary: n) auto

lemma copy_field_full:
  "CHR '':'' \<notin> set s \<Longrightarrow> length s = n \<Longrightarrow> rest \<noteq> [] \<Longrightarrow> copy_field (s @ rest) n = Done (s, rest)"
proof (induction s arbitrary: n)
  case Nil
  then show ?case by (cases rest) auto
qed auto

lemma show_digit: "0 \<le> op \<Longrightarrow> op < 10 \<Longrightarrow> show_int op = [digit (nat op)]"
  by (simp add: show_int_def show_nat.simps)

lemma parseLine_fields:
  assumes "0 \<le> op" "op < 10"
    and "copy_field (rest @ [CHR 0x00]) 16 = Done (k, r)"
  shows "parseLine (show_int op @ CHR '':'' # rest) =
    (case copy_field (tl r) 32 of
       Fault f \<Rightarrow> Fault f
     | Done (v, r') \<Rightarrow>
         Done \<lparr>operation = byte_of op, keepalive = CHR 0x01, key = nul_pad 16 k, msg_value = nul_pad 32 v\<rparr>)"
  using assms stoi_show_int [of op] by (simp add: parseLine_def show_digit)

text \<open>A key longer than the field: its seventeenth character is skipped and the rest taken for the
  value.\<close>

lemma long_key_spills:
  assumes "0 \<le> op" "op < 10" "CHR '':'' \<notin> set k" "16 < length k" "length k \<le> 49"
  shows "parseLine (test_line (op, k, Some v)) =
    Done \<lparr>operation = byte_of op, keepalive = CHR 0x01, key = take 16 k,
      msg_value = nul_pad 32 (drop 17 k)\<rparr>"
proof -
  let ?rest = "drop 16 k @ CHR '':'' # v @ '':'' @ [CHR 0x00]"
  have cf: "copy_field (take 16 k @ ?rest) 16 = Done (take 16 k, ?rest)"
    using assms(3,4) by (intro copy_field_full) (auto dest: in_set_takeD)
  have "tl ?rest = drop 17 k @ CHR '':'' # v @ '':'' @ [CHR 0x00]"
    using assms(4) Cons_nth_drop_Suc [of 16 k, symmetric] by simp
  moreover have "copy_field (drop 17 k @ CHR '':'' # v @ '':'' @ [CHR 0x00]) 32 =
      Done (drop 17 k, CHR '':'' # v @ '':'' @ [CHR 0x00])"
    using assms(3,5) by (intro copy_field_colon) (auto dest: in_set_dropD)
  moreover have "(k @ CHR '':'' # v @ '':'') @ [CHR 0x00] = take 16 k @ ?rest"
    by (simp add: append_assoc [symmetric] del: append_assoc)
  with cf have "copy_field ((k @ CHR '':'' # v @ '':'') @ [CHR 0x00]) 16 = Done (take 16 k, ?rest)"
    by (simp only:)
  note parseLine_fields [OF assms(1,2) this]
  ultimately show ?thesis using assms(4) by (simp add: test_line_def nul_pad_def)
qed

text \<open>The message of a test with a value, and the tests whose fields fit.\<close>

definition test_message :: "test \<Rightarrow> send_message" where
  "test_message t =
     (case t of (op, k, v) \<Rightarrow>
        \<lparr>operation = byte_of op, keepalive = CHR 0x01, key = nul_pad 16 k, msg_value = nul_pad 32 (test_value v)\<rparr>)"

fun fits :: "test \<Rightarrow> bool" where
  "fits (op, k, None) = False"
| "fits (op, k, Some v) \<longleftrightarrow> 0 \<le> op \<and> op < 10 \<and> CHR '':'' \<notin> set k \<and> length k \<le> 16 \<and>
     CHR '':'' \<notin> set v \<and> length v \<le> 32"

lemma parseLine_value:
  assumes "0 \<le> op" "op < 10" "CHR '':'' \<notin> set k" "length k \<le> 16"
    and "CHR '':'' \<notin> set v" "length v \<le> 32"
  shows "parseLine (test_line (op, k, Some v)) = Done (test_message (op, k, Some v))"
proof -
  have "copy_field ((k @ CHR '':'' # v @ '':'') @ [CHR 0x00]) 16 =
      Done (k, CHR '':'' # v @ '':'' @ [CHR 0x00])"
    using copy_field_colon [OF assms(3,4), of "v @ '':'' @ [CHR 0x00]"] by simp
  from parseLine_fields [OF assms(1,2) this] copy_field_colon [OF assms(5,6), of "[CHR 0x00]"]
  show ?thesis by (simp add: test_line_def test_message_def test_value_def)
qed

lemma parseLine_fits: "fits t \<Longrightarrow> parseLine (test_line t) = Done (test_message t)"
  by (cases t rule: fits.cases) (auto intro: parseLine_value)

lemma replay_file_generated:
  assumes "ts \<noteq> []" and "int (length ts) \<le> INT_MAX" and "\<forall>t \<in> set ts. fits t"
  shows "replay_file (show_int (int (length ts)) # map test_line ts) (map test_message ts)"
  using assms by (auto simp: replay_file_def parseLine_fits)

section \<open>Properties\<close>

text \<open>The client and the generator agree on lines with a value and disagree on the others. A test
  whose key and value fit their fields is read back as that message when it carries a value, whereas
  the line of a read or of a delete, which ends after the key, makes the parser run past the end of
  the line.\<close>

theorem generated_lines_parsed:
  assumes "0 \<le> op" "op < 10" "CHR '':'' \<notin> set k" "length k \<le> 16"
    and "CHR '':'' \<notin> set v" "length v \<le> 32"
  shows "parseLine (test_line (op, k, Some v)) =
      Done \<lparr>operation = byte_of op, keepalive = CHR 0x01, key = nul_pad 16 k, msg_value = nul_pad 32 v\<rparr> \<and>
    parseLine (test_line (op, k, None)) = Fault Out_of_bounds"
proof
  show "parseLine (test_line (op, k, Some v)) =
      Done \<lparr>operation = byte_of op, keepalive = CHR 0x01, key = nul_pad 16 k, msg_value = nul_pad 32 v\<rparr>"
    using parseLine_value [OF assms] by (simp add: test_message_def test_value_def)
  have "copy_field ((k @ '':'') @ [CHR 0x00]) 16 = Done (k, CHR '':'' # [CHR 0x00])"
    using copy_field_colon [OF assms(3,4), of "[CHR 0x00]"] by simp
  from parseLine_fields [OF assms(1,2) this] show "parseLine (test_line (op, k, None)) = Fault Out_of_bounds"
    by (simp add: test_line_def)
qed

lemma generated_lines_parsed_witness:
  "parseLine (test_line (3, ''key'', Some ''value'')) =
     Done \<lparr>operation = CHR 0x03, keepalive = CHR 0x01, key = ''key'' @ replicate 13 CHR 0x00,
       msg_value = ''value'' @ replicate 27 CHR 0x00\<rparr> \<and>
   parseLine (test_line (3, ''key'', None)) = Fault Out_of_bounds"
proof -
  have "byte_of 3 = CHR 0x03" by code_simp
  then show ?thesis
    using generated_lines_parsed [of 3 "''key''" "''value''"] by (simp add: nul_pad_def)
qed

text \<open>C38. Replaying a generated file whose tests all carry values that fit: with \<open>m\<close> messages per
  request and room below the word size the client returns after \<open>ceil(num / m)\<close> requests, which go
  through the tests in order and start over at the end of the file; only a request that ends exactly
  at \<open>num\<close> closes the connection, in its last message.\<close>

theorem replay_goes_round:
  assumes "ts \<noteq> []" and "int (length ts) \<le> INT_MAX" and "\<forall>t \<in> set ts. fits t"
    and "0 < m" and "unat num + unat m \<le> 2 ^ 32"
  shows "\<exists>s. replay_tcp_requests (show_int (int (length ts)) # map test_line ts) m num =
      Some (Done (map (nth_request (map test_message ts) (unat m) (unat num))
        [0..<(unat num + unat m - 1) div unat m], s)) \<and>
    unat s = (unat num + unat m - 1) div unat m * unat m"
proof -
  let ?file = "show_int (int (length ts)) # map test_line ts"
  from assms(4) have m: "0 < unat m" by (simp add: unat_gt_0 word_gt_0)
  from replay_loop_requests [OF replay_file_generated [OF assms(1-3)] m assms(5), of 0 0] m assms(2)
  show ?thesis by (simp add: replay_tcp_requests_def reader_at_def)
qed

lemma replay_goes_round_witness:
  "\<exists>s. replay_tcp_requests
      [show_int 2, test_line (1, ''a'', Some ''x''), test_line (3, ''b'', Some ''y'')] 3 5 =
    Some (Done ([nth_request [test_message (1, ''a'', Some ''x''), test_message (3, ''b'', Some ''y'')] 3 5 0,
      nth_request [test_message (1, ''a'', Some ''x''), test_message (3, ''b'', Some ''y'')] 3 5 1], s)) \<and>
    unat s = 6"
  using replay_goes_round [of "[(1, ''a'', Some ''x''), (3, ''b'', Some ''y'')]" 3 5]
  by (simp add: upt_conv_Cons)

end
