(* ===== verification/EventClient.thy ===== *)
theory EventClient
  imports TestClient
begin

text \<open>
  \<open>testclient/libevclient.cpp\<close>: the client on libev. The event loop is libev's and not part of the
  repository: its documented behaviour is that a callback runs only for a watcher that is active
  and for the conditions it watches, so that a run of the program is a sequence of callbacks each
  of which the state allows. \<open>Writable r\<close> is the send callback with a writable socket, \<open>r\<close> the result
  of \<open>send\<close>; \<open>Readable n\<close> the same callback with a readable socket from which \<open>recv\<close> returns a whole
  message \<open>n\<close> times in a row (or until the connection is closed) and then something else. The
  counters are \<open>int\<close>s of 32 bits, nothing resets them, and counting past \<^term>\<open>INT_MAX\<close> is undefined
  behaviour: the fault \<^const>\<open>Int_overflow\<close>.
\<close>

section \<open>The callbacks\<close>

text \<open>The line buffer is \<^const>\<open>None\<close> as long as no line was read. The watcher of the socket has a mask
  for reading and for writing.\<close>

record ev_client =
  file_rest :: "string list"
  line_buf :: "string option"
  file_active :: bool
  remote_active :: bool
  send_active :: bool
  send_read :: bool
  send_write :: bool
  counter :: int
  total_msgs :: int
  lines_written :: int
  lines_read :: int
  bytes_written :: int
  sent_msgs :: "send_message list"
  closed :: bool

definition in_int :: "int \<Rightarrow> bool" where
  "in_int i \<longleftrightarrow> INT_MIN \<le> i \<and> i \<le> INT_MAX"

datatype ev_event = Connected | File_readable | Writable int | Readable nat

text \<open>\<open>garbage_init\<close> and \<open>connection_new\<close>: the file is open and the socket connected.\<close>

definition ev_init :: "string list \<Rightarrow> int \<Rightarrow> ev_client" where
  "ev_init file n =
     \<lparr>file_rest = file, line_buf = None, file_active = False, remote_active = True,
      send_active = True, send_read = True, send_write = False, counter = 0, total_msgs = n,
      lines_written = 0, lines_read = 0, bytes_written = 0, sent_msgs = [], closed = False\<rparr>"

definition watch :: "bool \<Rightarrow> bool \<Rightarrow> ev_client \<Rightarrow> ev_client" where
  "watch r w s = s\<lparr>send_active := True, send_read := r, send_write := w\<rparr>"

definition remote_cb :: "ev_client \<Rightarrow> ev_client" where
  "remote_cb s = s\<lparr>file_active := True, remote_active := False\<rparr>"

definition filein_cb :: "ev_client \<Rightarrow> ev_client outcome" where
  "filein_cb s =
     (case file_rest s of
        [] \<Rightarrow> Done (watch False True (s\<lparr>file_active := False\<rparr>))
      | l # ls \<Rightarrow>
          if \<not> in_int (lines_read s + 1) then Fault Int_overflow
          else Done (watch True True
            (s\<lparr>file_rest := ls, line_buf := Some l, lines_read := lines_read s + 1,
               file_active := False\<rparr>)))"

text \<open>This client's \<open>parseLine\<close>, called with a C string.\<close>

definition parse_c_line :: "string \<Rightarrow> send_message outcome" where
  "parse_c_line l = parseLine (c_str l)"

definition send_cb_write :: "int \<Rightarrow> ev_client \<Rightarrow> ev_client outcome" where
  "send_cb_write ret s =
     (let s0 = (if total_msgs s \<le> lines_written s then watch True False s else s) in
      case line_buf s0 of
        None \<Rightarrow> Fault Null_deref
      | Some l \<Rightarrow>
     (case parse_c_line l of
        Fault f \<Rightarrow> Fault f
      | Done m \<Rightarrow>
          if \<not> in_int (total_msgs s0 - 1) \<or> \<not> in_int (bytes_written s0 + ret) \<or>
             \<not> in_int (lines_written s0 + 1)
          then Fault Int_overflow
          else
          (let msg = (if lines_written s0 = total_msgs s0 - 1 then m\<lparr>keepalive := CHR 0x00\<rparr> else m);
               s1 = s0\<lparr>bytes_written := bytes_written s0 + ret, lines_written := lines_written s0 + 1,
                       sent_msgs := sent_msgs s0 @ [msg]\<rparr> in
           if ret = -1 then Fault (Exit 1)
           else if lines_written s1 mod 995 = 0 then Done (watch True False s1)
           else Done (watch True True s1))))"

text \<open>The loop of the read branch, and what follows when the socket has no more whole message.\<close>

fun recv_loop :: "nat \<Rightarrow> ev_client \<Rightarrow> ev_client outcome" where
  "recv_loop 0 s =
     Done (if lines_read s \<noteq> total_msgs s then s\<lparr>file_active := True\<rparr> else watch True False s)"
| "recv_loop (Suc n) s =
     (if \<not> in_int (counter s + 1) then Fault Int_overflow
      else
        (let s1 = s\<lparr>counter := counter s + 1\<rparr> in
         if total_msgs s1 \<le> counter s1
         then Done (s1\<lparr>closed := True, send_active := False, remote_active := False, file_active := False\<rparr>)
         else recv_loop n s1))"

text \<open>What libev may call, and the state after it.\<close>

fun may_call :: "ev_event \<Rightarrow> ev_client \<Rightarrow> bool" where
  "may_call Connected s = remote_active s"
| "may_call File_readable s = file_active s"
| "may_call (Writable r) s = (send_active s \<and> send_write s)"
| "may_call (Readable n) s = (send_active s \<and> send_read s)"

fun ev_step :: "ev_event \<Rightarrow> ev_client \<Rightarrow> ev_client outcome" where
  "ev_step Connected s = Done (remote_cb s)"
| "ev_step File_readable s = filein_cb s"
| "ev_step (Writable r) s = send_cb_write r s"
| "ev_step (Readable n) s = recv_loop n s"

inductive ev_reachable :: "string list \<Rightarrow> int \<Rightarrow> ev_client \<Rightarrow> bool"
  for f :: "string list" and n :: int where
  start: "ev_reachable f n (ev_init f n)"
| step: "ev_reachable f n s \<Longrightarrow> may_call e s \<Longrightarrow> ev_step e s = Done s' \<Longrightarrow> ev_reachable f n s'"

inductive_cases ev_reachableE: "ev_reachable file n s"

text \<open>Several callbacks in a row.\<close>

fun ev_run :: "ev_event list \<Rightarrow> ev_client \<Rightarrow> ev_client outcome option" where
  "ev_run [] s = Some (Done s)"
| "ev_run (e # es) s =
     (if \<not> may_call e s then None
      else case ev_step e s of Fault f \<Rightarrow> Some (Fault f) | Done s' \<Rightarrow> ev_run es s')"

section \<open>What holds in every reachable state\<close>

text \<open>The counters fit into an \<open>int\<close>. The lines read are a prefix of the file and the last of them is
  in the buffer; every message sent was parsed from a line that had been read; a writable socket is only waited for with a line
  in the buffer (unless the file is empty); nothing is active once the connection is closed.\<close>

definition from_line :: "string \<Rightarrow> send_message \<Rightarrow> bool" where
  "from_line l m \<longleftrightarrow> (\<exists>q. parse_c_line l = Done q \<and> (m = q \<or> m = q\<lparr>keepalive := CHR 0x00\<rparr>))"

definition ev_inv :: "string list \<Rightarrow> int \<Rightarrow> ev_client \<Rightarrow> bool" where
  "ev_inv file n s \<longleftrightarrow>
     in_int (lines_read s) \<and> in_int (int (length (sent_msgs s))) \<and> in_int (bytes_written s) \<and> in_int (counter s) \<and>
     total_msgs s = n \<and> 0 \<le> lines_read s \<and> lines_read s \<le> int (length file) \<and>
     file_rest s = drop (nat (lines_read s)) file \<and>
     line_buf s = (if lines_read s = 0 then None else Some (file ! (nat (lines_read s) - 1))) \<and>
     lines_written s = int (length (sent_msgs s)) \<and>
     (\<forall>m \<in> set (sent_msgs s). \<exists>l \<in> set (take (nat (lines_read s)) file). from_line l m) \<and>
     (send_write s \<and> file \<noteq> [] \<longrightarrow> 0 < lines_read s) \<and>
     (closed s \<longrightarrow> \<not> send_active s \<and> \<not> file_active s \<and> \<not> remote_active s)"

lemma in_int_01 [simp]: "in_int 0" "in_int 1" by (simp_all add: in_int_def)

lemma ev_inv_init [keeps]: "ev_inv file n (ev_init file n)"
  by (simp add: ev_inv_def ev_init_def)

lemma ev_inv_filein [keeps]:
  assumes "ev_inv file n s" and "file_active s" and "filein_cb s = Done s'"
  shows "ev_inv file n s'"
proof (cases "file_rest s")
  case Nil
  with assms show ?thesis by (auto simp: ev_inv_def filein_cb_def watch_def)
next
  case (Cons l ls)
  let ?k = "nat (lines_read s)"
  from assms(1) Cons have d: "drop ?k file = l # ls" by (simp add: ev_inv_def)
  note k = drop_eq_Cons_nth [OF d]
  have nat: "nat (lines_read s + 1) = Suc ?k" using assms(1) by (simp add: ev_inv_def nat_add_distrib)
  have "take (Suc ?k) file = take ?k file @ [l]" using k by (simp add: take_Suc_conv_app_nth)
  then have "\<forall>m \<in> set (sent_msgs s). \<exists>l \<in> set (take (Suc ?k) file). from_line l m"
    using assms(1) by (auto simp: ev_inv_def)
  moreover have "\<not> closed s" using assms by (auto simp: ev_inv_def)
  moreover have "lines_read s + 1 \<le> int (length file)" "lines_read s + 1 \<noteq> 0"
    using assms(1) k(1) by (simp_all add: ev_inv_def)
  moreover have "in_int (lines_read s + 1)" "s' = watch True True
      (s\<lparr>file_rest := ls, line_buf := Some l, lines_read := lines_read s + 1, file_active := False\<rparr>)"
    using assms(3) by (simp_all add: filein_cb_def Cons split: if_splits)
  ultimately show ?thesis
    using assms(1) k(2,3) nat by (simp add: ev_inv_def watch_def)
qed

text \<open>What a send that does not fail does.\<close>

lemma send_cb_write_Done:
  assumes "send_cb_write r s = Done s'"
  obtains l m w where "line_buf s = Some l" "from_line l m"
    "in_int (bytes_written s + r)" "in_int (lines_written s + 1)"
    "s' = watch True w (s\<lparr>bytes_written := bytes_written s + r,
             lines_written := lines_written s + 1, sent_msgs := sent_msgs s @ [m]\<rparr>)"
proof -
  define s0 where "s0 = (if total_msgs s \<le> lines_written s then watch True False s else s)"
  have same: "line_buf s0 = line_buf s" "lines_written s0 = lines_written s" "sent_msgs s0 = sent_msgs s"
    "bytes_written s0 = bytes_written s" "total_msgs s0 = total_msgs s"
    by (simp_all add: s0_def watch_def)
  from assms obtain l m where l: "line_buf s = Some l" and m: "parse_c_line l = Done m"
    by (auto simp: send_cb_write_def s0_def [symmetric] same Let_def split: option.splits sum.splits)
  let ?m = "if lines_written s = total_msgs s - 1 then m\<lparr>keepalive := CHR 0x00\<rparr> else m"
  let ?s = "s0\<lparr>bytes_written := bytes_written s + r, lines_written := lines_written s + 1,
               sent_msgs := sent_msgs s @ [?m]\<rparr>"
  from assms l m have i: "in_int (bytes_written s + r)" "in_int (lines_written s + 1)"
    and "s' = watch True False ?s \<or> s' = watch True True ?s"
    by (auto simp: send_cb_write_def s0_def [symmetric] same Let_def split: if_splits)
  then obtain w where "s' = watch True w ?s" by blast
  moreover have "watch True w ?s = watch True w (s\<lparr>bytes_written := bytes_written s + r,
      lines_written := lines_written s + 1, sent_msgs := sent_msgs s @ [?m]\<rparr>)" for w
    by (simp add: watch_def s0_def)
  moreover have "from_line l ?m" using m by (auto simp: from_line_def)
  ultimately show ?thesis using that [of l ?m] l i by simp
qed

lemma ev_inv_write [keeps]:
  assumes "ev_inv file n s" "send_active s" "send_write s" "send_cb_write r s = Done s'"
  shows "ev_inv file n s'"
proof -
  from send_cb_write_Done [OF assms(4)] obtain l m w where l: "line_buf s = Some l"
    and fl: "from_line l m" and i: "in_int (bytes_written s + r)" "in_int (lines_written s + 1)"
    and s': "s' = watch True w (s\<lparr>bytes_written := bytes_written s + r,
        lines_written := lines_written s + 1, sent_msgs := sent_msgs s @ [m]\<rparr>)" by blast
  from l assms(1) have pos: "0 < lines_read s" "l = file ! (nat (lines_read s) - 1)"
    "nat (lines_read s) \<le> length file"
    by (auto simp: ev_inv_def split: if_splits)
  then have mem: "l \<in> set (take (nat (lines_read s)) file)"
    by (auto simp: in_set_conv_nth intro: exI [of _ "nat (lines_read s) - 1"])
  from assms(1,2) have "\<not> closed s" by (auto simp: ev_inv_def)
  moreover have "\<forall>q \<in> set (sent_msgs s @ [m]). \<exists>l \<in> set (take (nat (lines_read s)) file). from_line l q"
    using assms(1) mem fl by (auto simp: ev_inv_def)
  ultimately show ?thesis using assms(1) pos(1) i
    by (simp add: s' ev_inv_def watch_def add.commute)
qed

lemma ev_inv_recv [keeps]:
  assumes "ev_inv file n s" and "send_active s" and "recv_loop k s = Done s'"
  shows "ev_inv file n s'"
  using assms
proof (induction k arbitrary: s)
  case 0
  then show ?case by (auto simp: ev_inv_def watch_def split: if_splits)
next
  case (Suc k)
  let ?s = "s\<lparr>counter := counter s + 1\<rparr>"
  from Suc.prems have "ev_inv file n ?s" by (simp add: ev_inv_def split: if_splits)
  with Suc.IH [of ?s] Suc.prems show ?case by (auto simp: ev_inv_def Let_def split: if_splits)
qed

lemma ev_inv_reachable: "ev_reachable file n s \<Longrightarrow> ev_inv file n s"
proof (induction rule: ev_reachable.induct)
  case start
  show ?case by (rule ev_inv_init)
next
  case (step s e s')
  then show ?case
  proof (cases e)
    case Connected
    with step show ?thesis by (auto simp: ev_inv_def remote_cb_def)
  next
    case File_readable
    with step ev_inv_filein [of "file" n s s'] show ?thesis by auto
  next
    case (Writable r)
    with step ev_inv_write [of "file" n s r s'] show ?thesis by auto
  next
    case (Readable k)
    with step ev_inv_recv [of "file" n s k s'] show ?thesis by auto
  qed
qed

section \<open>A line is sent over and over\<close>

text \<open>While the socket is writable nothing else is waited for, so the same line goes out with every
  call until 995 messages were sent, however few there are to send.\<close>

definition repeated :: "int \<Rightarrow> send_message \<Rightarrow> nat \<Rightarrow> send_message list" where
  "repeated n m k = map (\<lambda>i. if int i = n - 1 then m\<lparr>keepalive := CHR 0x00\<rparr> else m) [0..<k]"

definition repeating :: "int \<Rightarrow> string \<Rightarrow> send_message \<Rightarrow> nat \<Rightarrow> ev_client \<Rightarrow> bool" where
  "repeating n l m k s \<longleftrightarrow>
     total_msgs s = n \<and> line_buf s = Some l \<and> send_active s \<and> send_write s \<and> send_read s \<and>
     lines_read s = 1 \<and> lines_written s = int k \<and> bytes_written s = 50 * int k \<and>
     sent_msgs s = repeated n m k"

lemma repeating_step:
  assumes "repeating n l m k s" "parse_c_line l = Done m" "Suc k < 995" "in_int (n - 1)"
  shows "\<exists>s'. ev_step (Writable 50) s = Done s' \<and> repeating n l m (Suc k) s'"
proof -
  have "int (Suc k) mod 995 \<noteq> 0" using assms(3) by simp
  moreover have "in_int (50 * int k + 50)" "in_int (int k + 1)" using assms(3) by (simp_all add: in_int_def)
  ultimately show ?thesis using assms
    by (simp add: repeating_def send_cb_write_def Let_def watch_def repeated_def add.commute)
qed

lemma ev_run_append:
  "ev_run es s = Some (Done s') \<Longrightarrow> ev_run (es @ es') s = ev_run es' s'"
  by (induction es s rule: ev_run.induct) (auto split: if_splits sum.splits)

lemma repeating_run:
  assumes "parse_c_line l = Done m" "repeating n l m k s" "in_int (n - 1)"
  shows "k + j < 995 \<Longrightarrow>
    \<exists>s'. ev_run (replicate j (Writable 50)) s = Some (Done s') \<and> repeating n l m (k + j) s'"
proof (induction j)
  case 0
  with assms(2) show ?case by simp
next
  case (Suc j)
  then obtain s' where s': "ev_run (replicate j (Writable 50)) s = Some (Done s')"
    "repeating n l m (k + j) s'" by auto
  from repeating_step [OF s'(2) assms(1) _ assms(3)] Suc.prems obtain s'' where
    s'': "ev_step (Writable 50) s' = Done s''" "repeating n l m (k + Suc j) s''" by auto
  have "may_call (Writable 50) s'" using s'(2) by (simp add: repeating_def)
  with s'' ev_run_append [OF s'(1), of "[Writable 50]"] show ?case
    by (simp add: replicate_append_same [symmetric])
qed

section \<open>The header line\<close>

lemma copy_field_overruns: "CHR '':'' \<notin> set s \<Longrightarrow> length s \<le> n \<Longrightarrow> copy_field s n = Fault Out_of_bounds"
  by (induction s arbitrary: n) auto

lemma header_overruns:
  assumes "0 \<le> n" and "n \<le> INT_MAX"
  shows "parse_c_line (show_int n @ [CHR 0x0A]) = Fault Out_of_bounds"
proof -
  let ?d = "show_nat (nat n)"
  have n: "show_int n = ?d" using assms(1) by (simp add: show_int_def)
  have dig: "\<forall>c \<in> set ?d. is_digit c" by (rule show_nat_digits)
  have "nat n < 10 ^ 10" using assms(2) by simp
  then have len: "length ?d \<le> 10" by (rule show_nat_length_le) simp
  have line: "c_str (?d @ [CHR 0x0A]) = ?d @ [CHR 0x0A]"
    using dig digit_not_nul by (intro c_str_id) auto
  have "CHR '':'' \<notin> set ?d" using dig by (auto simp: is_digit_def code_of_def)
  then have "copy_field (drop 2 ((?d @ [CHR 0x0A]) @ [CHR 0x00])) 16 = Fault Out_of_bounds"
    using len by (intro copy_field_overruns) (auto dest: in_set_dropD)
  moreover obtain d where "hd ?d = d" "is_digit d" using show_nat_hd by blast
  moreover from this have "\<exists>v. stoi [d] = Done v"
  proof -
    from \<open>is_digit d\<close> have "digit_val d < 10" "d = digit (digit_val d)"
      by (auto simp: is_digit_def digit_val_def digit_def)
    then have "show_int (int (digit_val d)) = [d]"
      by (simp add: show_int_def show_nat.simps)
    with stoi_show_int [of "int (digit_val d)"] \<open>digit_val d < 10\<close> show ?thesis by simp
  qed
  ultimately show ?thesis
    unfolding parse_c_line_def n line
    by (auto simp: parseLine_def)
qed

section \<open>Properties\<close>

text \<open>The client does not send its lines one after the other: as long as the socket takes data, the
  first line is sent again with every call, up to 994 times, no matter how many lines the file has
  and how many messages were asked for; only the one message whose number is the total asks the
  server to close the connection.\<close>

lemma starts_repeating:
  obtains s where "ev_run [Connected, File_readable] (ev_init (l # ls) n) = Some (Done s)"
    "repeating n l m 0 s" "counter s = 0"
proof -
  let ?s = "watch True True (remote_cb (ev_init (l # ls) n)
    \<lparr>file_rest := ls, line_buf := Some l, lines_read := 1, file_active := False\<rparr>)"
  have "ev_run [Connected, File_readable] (ev_init (l # ls) n) = Some (Done ?s)"
    by (simp add: ev_init_def remote_cb_def filein_cb_def watch_def)
  moreover have "repeating n l m 0 ?s" "counter ?s = 0"
    by (simp_all add: repeating_def repeated_def ev_init_def remote_cb_def watch_def)
  ultimately show thesis by (rule that)
qed

theorem event_client_repeats_line:
  assumes "parse_c_line l = Done m" and "k < 995" and "in_int (n - 1)"
  shows "\<exists>s. ev_run ([Connected, File_readable] @ replicate k (Writable 50)) (ev_init (l # ls) n) =
      Some (Done s) \<and> sent_msgs s = repeated n m k \<and> lines_read s = 1"
proof -
  from starts_repeating [of l ls n m] obtain s where
    1: "ev_run [Connected, File_readable] (ev_init (l # ls) n) = Some (Done s)"
      "repeating n l m 0 s" by blast
  from repeating_run [OF assms(1) 1(2) assms(3), of k] assms(2) obtain s' where
    "ev_run (replicate k (Writable 50)) s = Some (Done s')" "repeating n l m k s'" by auto
  with ev_run_append [OF 1(1), of "replicate k (Writable 50)"] show ?thesis
    by (auto simp: repeating_def)
qed

lemma ev_run_reachable:
  "ev_reachable f n s \<Longrightarrow> ev_run es s = Some (Done s') \<Longrightarrow> ev_reachable f n s'"
  by (induction es s rule: ev_run.induct) (auto split: if_splits sum.splits intro: ev_reachable.step)

lemma sample_line: "parse_c_line ''1:a:b:'' = Done (test_message (1, ''a'', Some ''b''))"
proof -
  have "digit 1 = CHR ''1''" by code_simp
  then show ?thesis
    using parseLine_value [of 1 "''a''" "''b''"]
    by (simp add: parse_c_line_def c_str_def test_line_def show_digit)
qed

text \<open>The byte counter is an \<open>int\<close> that nothing resets: after 42949672 whole messages the next one
  overflows it.\<close>

lemma byte_counter_overflows:
  assumes "line_buf s = Some l" "parse_c_line l = Done m"
    and "lines_written s = 42949672" "bytes_written s = 50 * lines_written s"
  shows "ev_step (Writable 50) s = Fault Int_overflow"
  using assms by (simp add: send_cb_write_def Let_def watch_def in_int_def)

text \<open>C39. Whatever libev calls in whatever order, up to a fault (an overflow of a counter is one): the
  client has sent only messages of lines it has read, in a count equal to its counter, which like
  the counters of bytes, lines read and answers is in the range of an \<open>int\<close>; it never uses the line
  buffer before a line was read unless the file is empty; a send that takes a counter past the end
  of \<open>int\<close> is a fault; and once the client closed the connection nothing is called any more.\<close>

theorem event_client_invariant:
  assumes "ev_reachable file n s"
  shows "(\<forall>m \<in> set (sent_msgs s). \<exists>l \<in> set (take (nat (lines_read s)) file). from_line l m) \<and>
    lines_written s = int (length (sent_msgs s)) \<and>
    in_int (lines_written s) \<and> in_int (bytes_written s) \<and> in_int (lines_read s) \<and> in_int (counter s) \<and>
    (file \<noteq> [] \<and> may_call (Writable r) s \<longrightarrow> line_buf s \<noteq> None) \<and>
    (\<not> in_int (bytes_written s + r) \<or> \<not> in_int (lines_written s + 1) \<longrightarrow>
       (\<forall>s'. ev_step (Writable r) s \<noteq> Done s')) \<and>
    (closed s \<longrightarrow> \<not> may_call e s)"
proof -
  from ev_inv_reachable [OF assms] have i: "ev_inv file n s" .
  moreover have "in_int (bytes_written s + r) \<and> in_int (lines_written s + 1)"
    if "ev_step (Writable r) s = Done s'" for s'
    using that by (auto elim: send_cb_write_Done)
  ultimately show ?thesis by (cases e) (auto simp: ev_inv_def)
qed

lemma event_client_invariant_witness:
  "\<exists>s. ev_reachable [''1:a:b:''] 2 s \<and> sent_msgs s = [test_message (1, ''a'', Some ''b'')] \<and>
    (\<exists>l \<in> set (take (nat (lines_read s)) [''1:a:b:'']). from_line l (test_message (1, ''a'', Some ''b'')))"
proof -
  from event_client_repeats_line [OF sample_line, of 1 2 "[]"] obtain s where
    s: "ev_run ([Connected, File_readable] @ replicate 1 (Writable 50)) (ev_init [''1:a:b:''] 2) = Some (Done s)"
      "sent_msgs s = repeated 2 (test_message (1, ''a'', Some ''b'')) 1" by auto
  from ev_run_reachable [OF ev_reachable.start s(1)] have r: "ev_reachable [''1:a:b:''] 2 s" .
  have m: "sent_msgs s = [test_message (1, ''a'', Some ''b'')]" using s(2) by (simp add: repeated_def)
  with r event_client_invariant [OF r] show ?thesis by auto
qed

text \<open>No generated file can be replayed by this client: it does not skip the header line, and
  parsing the number of tests as a request runs past the end of the line.\<close>

theorem event_client_reads_header:
  assumes "0 \<le> n" and "n \<le> INT_MAX"
  shows "ev_run [Connected, File_readable, Writable r]
      (ev_init ((show_int n @ [CHR 0x0A]) # ls) t) = Some (Fault Out_of_bounds)"
  using header_overruns [OF assms]
  by (simp add: ev_init_def remote_cb_def filein_cb_def watch_def send_cb_write_def Let_def)

lemma event_client_reads_header_witness:
  "ev_run [Connected, File_readable, Writable 50] (ev_init [show_int 50 @ [CHR 0x0A]] 50) =
     Some (Fault Out_of_bounds)"
  by (rule event_client_reads_header) simp_all

end
