(* ===== verification/EventMain.thy ===== *)
theory EventMain
  imports EventClient
begin

text \<open>
  \<open>testclient/libevclient.cpp\<close> from \<open>main\<close> on: the options, \<open>garbage_init\<close> with \<open>connection_new\<close>, the
  event loop and the report. The file system, \<open>socket\<close> and \<open>connect\<close> are arguments; the callbacks that
  libev makes are the list of events of \<open>EventClient\<close>. The clock and what is divided by it are left
  out of the report.
\<close>

section \<open>The options\<close>

text \<open>The options of the load generator, the name of the file and the global \<open>total\<close>, which only \<open>-n\<close>
  sets; \<open>-v\<close> does nothing.\<close>

type_synonym ev_options = "bench_options \<times> string \<times> int"

definition ev_options_new :: ev_options where
  "ev_options_new = (bench_options_new, ''test'', 0)"

definition ev_option :: "ev_options \<Rightarrow> char \<times> string \<Rightarrow> ev_options outcome" where
  "ev_option s opt =
     (let (R, filename, asked) = s; (c, optarg) = opt in
      if c = CHR ''t'' then Done (R, optarg, asked)
      else if c = CHR ''v'' then Done s
      else case bench_option R opt of
        Fault f \<Rightarrow> Fault f
      | Done R' \<Rightarrow> Done (R', filename, if c = CHR ''n'' then sint (num_of_msgs R') else asked))"

fun ev_parse :: "(char \<times> string) list \<Rightarrow> ev_options \<Rightarrow> ev_options outcome" where
  "ev_parse [] s = (if req_args (fst s) \<noteq> 0 then Fault (Exit 1) else Done s)"
| "ev_parse (opt # opts) s =
     (case ev_option s opt of Fault f \<Rightarrow> Fault f | Done s' \<Rightarrow> ev_parse opts s')"

section \<open>The program\<close>

text \<open>The results of \<open>socket\<close> and \<open>connect\<close> come as truth values.\<close>

definition connection_new :: "bool \<Rightarrow> bool \<Rightarrow> string list \<Rightarrow> int \<Rightarrow> ev_client outcome" where
  "connection_new socket_ok connect_ok lines asked =
     (if \<not> socket_ok then Fault (Exit (- 1))
      else if \<not> connect_ok then Fault (Exit (- 1))
      else Done (ev_init lines asked))"

text \<open>\<open>ev_loop\<close> returns when no watcher is active any more. The events are those of one whole run, so
  \<^const>\<open>None\<close> stands for a list that is not one; the result is the number reported as sent, and the
  state the program ends in.\<close>

definition idle :: "ev_client \<Rightarrow> bool" where
  "idle s \<longleftrightarrow> \<not> file_active s \<and> \<not> remote_active s \<and> \<not> send_active s"

definition garbage_init ::
  "(string \<Rightarrow> string list option) \<Rightarrow> bool \<Rightarrow> bool \<Rightarrow> string \<Rightarrow> int \<Rightarrow> ev_event list \<Rightarrow>
   (int \<times> ev_client) outcome option" where
  "garbage_init fs socket_ok connect_ok filename asked es =
     (case fs filename of
        None \<Rightarrow> Some (Fault (Exit 1))
      | Some lines \<Rightarrow>
     (case connection_new socket_ok connect_ok lines asked of
        Fault f \<Rightarrow> Some (Fault f)
      | Done s \<Rightarrow>
     (case ev_run es s of
        None \<Rightarrow> None
      | Some (Fault f) \<Rightarrow> Some (Fault f)
      | Some (Done s') \<Rightarrow> (if idle s' then Some (Done (total_msgs s', s')) else None))))"

definition ev_main ::
  "(string \<Rightarrow> string list option) \<Rightarrow> bool \<Rightarrow> bool \<Rightarrow> (char \<times> string) list \<Rightarrow> ev_event list \<Rightarrow>
   (int \<times> ev_client) outcome option" where
  "ev_main fs socket_ok connect_ok opts es =
     (case ev_parse opts ev_options_new of
        Fault f \<Rightarrow> Some (Fault f)
      | Done (R, filename, asked) \<Rightarrow> garbage_init fs socket_ok connect_ok filename asked es)"

section \<open>What the program reports\<close>

lemma ev_option_total:
  "ev_option (R, f, t) (c, a) = Done (R', f', t') \<Longrightarrow> c \<noteq> CHR ''n'' \<Longrightarrow> t' = t"
  by (auto simp: ev_option_def Let_def split: if_splits sum.splits)

text \<open>The number is never counted: it is \<open>total\<close>, and that is zero unless an option says otherwise.\<close>

lemma ev_parse_total:
  "ev_parse opts s = Done (R, f, t) \<Longrightarrow> CHR ''n'' \<notin> fst ` set opts \<Longrightarrow> t = snd (snd s)"
proof (induction opts s rule: ev_parse.induct)
  case (1 s)
  then show ?case by (auto split: if_splits)
next
  case (2 opt opts s)
  obtain R0 f0 t0 where s: "s = (R0, f0, t0)" by (cases s)
  obtain c a where opt: "opt = (c, a)" by (cases opt)
  from 2(2) obtain R1 f1 t1 where s1: "ev_option s opt = Done (R1, f1, t1)"
    and rest: "ev_parse opts (R1, f1, t1) = Done (R, f, t)" by (auto split: sum.splits)
  from s1 2(3) have "t1 = t0" using ev_option_total by (auto simp: s opt)
  with 2(1) [OF s1 rest] 2(3) show ?case by (simp add: s)
qed

lemma ev_main_total:
  assumes "ev_main fs a b opts es = Some (Done (n, s))"
  obtains R f lines where "ev_parse opts ev_options_new = Done (R, f, n)" "fs f = Some lines"
    "a" "b" "ev_run es (ev_init lines n) = Some (Done s)" "idle s" "total_msgs s = n"
proof -
  from assms obtain R f t lines where
    p: "ev_parse opts ev_options_new = Done (R, f, t)" "fs f = Some lines" "a" "b"
    and r: "ev_run es (ev_init lines t) = Some (Done s)" "idle s" "total_msgs s = n"
    by (auto simp: ev_main_def garbage_init_def connection_new_def
        split: sum.splits option.splits prod.splits if_splits)
  from ev_run_reachable [OF ev_reachable.start r(1)] have "ev_reachable lines t s" .
  from ev_inv_reachable [OF this] have "total_msgs s = t" by (simp add: ev_inv_def)
  with r(3) have "t = n" by simp
  with p r show thesis by (intro that) simp_all
qed

theorem default_total_is_zero:
  assumes "ev_main fs a b opts es = Some (Done (n, s))" and "CHR ''n'' \<notin> fst ` set opts"
  shows "n = 0"
  using assms ev_parse_total by (elim ev_main_total) (fastforce simp: ev_options_new_def)

text \<open>The invariant of the callbacks holds when the program ends.\<close>

theorem ev_main_invariant:
  assumes "ev_main fs a b opts es = Some (Done (n, s))"
  shows "\<exists>f lines. fs f = Some lines \<and> ev_inv lines n s"
  using assms
  by (elim ev_main_total) (blast intro: ev_inv_reachable ev_run_reachable ev_reachable.start)

text \<open>A run in which the socket takes the first line \<open>k\<close> times before the answers come in: the program
  ends properly and reports the \<open>n\<close> messages it was asked for, having sent \<open>k\<close> copies of one line.\<close>

lemma recv_loop_closes:
  "counter s < total_msgs s \<Longrightarrow> total_msgs s - counter s \<le> int k \<Longrightarrow>
   in_int (counter s) \<Longrightarrow> in_int (total_msgs s) \<Longrightarrow>
   \<exists>s'. recv_loop k s = Done s' \<and> idle s' \<and> closed s' \<and> total_msgs s' = total_msgs s \<and>
     sent_msgs s' = sent_msgs s"
  by (induction k s rule: recv_loop.induct) (auto simp: Let_def idle_def in_int_def)

lemma ev_counter:
  "ev_run es s = Some (Done s') \<Longrightarrow> \<forall>e \<in> set es. \<forall>k. e \<noteq> Readable k \<Longrightarrow> counter s' = counter s"
proof (induction es s rule: ev_run.induct)
  case (2 e es s)
  from 2(2) obtain s1 where s1: "ev_step e s = Done s1" "may_call e s" "ev_run es s1 = Some (Done s')"
    by (auto split: if_splits sum.splits)
  have "counter s1 = counter s" using s1(1) 2(3)
    by (cases e) (auto simp: remote_cb_def filein_cb_def watch_def
        elim!: send_cb_write_Done split: list.splits if_splits)
  with 2(1) [OF _ s1(1,3)] s1(2) 2(3) show ?case by simp
qed simp

theorem report_is_not_counted:
  assumes p: "ev_parse opts ev_options_new = Done (R, f, n)" and f: "fs f = Some (l # ls)"
    and m: "parse_c_line l = Done m" and n: "0 < n" "n \<le> int k" "k < 995"
  shows "\<exists>s. ev_main fs True True opts
      ([Connected, File_readable] @ replicate k (Writable 50) @ [Readable (nat n)]) = Some (Done (n, s)) \<and>
    sent_msgs s = repeated n m k"
proof -
  have i: "in_int (n - 1)" "in_int n" using n by (simp_all add: in_int_def)
  from starts_repeating [of l ls n m] obtain s where
    1: "ev_run [Connected, File_readable] (ev_init (l # ls) n) = Some (Done s)"
      "repeating n l m 0 s" "counter s = 0" by blast
  from repeating_run [OF m 1(2) i(1), of k] n(3) obtain s' where
    s': "ev_run (replicate k (Writable 50)) s = Some (Done s')" "repeating n l m k s'" by auto
  have c: "counter s' = 0" using ev_counter [OF s'(1)] 1(3) by simp
  from s'(2) have r: "send_active s'" "send_read s'" "total_msgs s' = n" "sent_msgs s' = repeated n m k"
    by (simp_all add: repeating_def)
  with recv_loop_closes [of s' "nat n"] c n i obtain s'' where
    s'': "recv_loop (nat n) s' = Done s''" "idle s''" "total_msgs s'' = n" "sent_msgs s'' = repeated n m k"
    by auto
  with r ev_run_append [OF s'(1), of "[Readable (nat n)]"] ev_run_append [OF 1(1)]
  have run: "ev_run ([Connected, File_readable] @ replicate k (Writable 50) @ [Readable (nat n)])
      (ev_init (l # ls) n) = Some (Done s'')" by simp
  with s'' p f show ?thesis
    by (simp add: ev_main_def garbage_init_def connection_new_def del: recv_loop.simps)
qed

text \<open>What stops the program before its loop.\<close>

lemma no_file_no_run:
  "ev_parse opts ev_options_new = Done (R, f, n) \<Longrightarrow> fs f = None \<Longrightarrow>
   ev_main fs a b opts es = Some (Fault (Exit 1))"
  by (simp add: ev_main_def garbage_init_def)

lemma no_connection_no_run:
  "ev_parse opts ev_options_new = Done (R, f, n) \<Longrightarrow> fs f = Some lines \<Longrightarrow> \<not> (a \<and> b) \<Longrightarrow>
   ev_main fs a b opts es = Some (Fault (Exit (- 1)))"
  by (auto simp: ev_main_def garbage_init_def connection_new_def)

end
