(* ===== verification/ThreadStop.thy ===== *)
theory ThreadStop
  imports Threads
begin

text \<open>
  \<open>server-5204/util/thread.h\<close>, the end of a pool: \<open>WorkerPool::stop\<close>, which sends \<open>pthread_cancel\<close> to
  every worker and waits for none, the destructor, which stops a started pool and then destroys its
  queues, and the scoped lock \<open>Locking\<close>. A request is acted upon where POSIX has a cancellation
  point: in \<open>pthread_cond_wait\<close>, which takes the mutex again before the thread ends, in \<open>write\<close>, in
  \<open>proc\<close> and in the \<open>fprintf\<close> before an \<open>exit\<close>; no thread has a cleanup handler. Whether a request
  or the call it interrupts comes first is open, so both are steps.
\<close>

section \<open>The scoped lock\<close>

text \<open>The constructor waits (\<open>None\<close>) while another thread owns the mutex, or the same one.\<close>

definition Locking_new :: "thread_id \<Rightarrow> thread_id option \<Rightarrow> thread_id option option" where
  "Locking_new t m = (case m of None \<Rightarrow> Some (Some t) | Some u \<Rightarrow> None)"

definition Locking_destroy :: "thread_id option \<Rightarrow> thread_id option" where
  "Locking_destroy m = None"

section \<open>State and steps\<close>

text \<open>The pool; the loop index of a running \<open>stop\<close>; the workers that got a request, those that left
  \<open>pthread_cond_wait\<close> because of it and want the mutex, and those that have ended; whether the
  destructor is running and whether the pool is gone. A worker that ended keeps its last program
  counter.\<close>

record 'j stoppable =
  pool_of :: "'j pool"
  stop_at :: "nat option"
  requested :: "nat list"
  unwinding :: "nat list"
  ended :: "nat list"
  destroying :: bool
  destroyed :: bool

definition stoppable_new :: "'j stoppable" where
  "stoppable_new = \<lparr>pool_of = WorkerPool_new, stop_at = None, requested = [], unwinding = [],
     ended = [], destroying = False, destroyed = False\<rparr>"

text \<open>One iteration of \<open>stop\<close>, and its return.\<close>

definition WorkerPool_stop :: "'j stoppable \<Rightarrow> 'j stoppable option" where
  "WorkerPool_stop S =
     (case stop_at S of
        None \<Rightarrow> None
      | Some i \<Rightarrow>
          if i < length (tids (pool_of S))
          then Some (S\<lparr>stop_at := Some (Suc i), requested := i # requested S\<rparr>)
          else Some (S\<lparr>stop_at := None, destroyed := destroying S\<rparr>))"

definition WorkerPool_destroy :: "'j stoppable \<Rightarrow> 'j stoppable option" where
  "WorkerPool_destroy S =
     (if stop_at S \<noteq> None then None
      else if started (pool_of S) then Some (S\<lparr>destroying := True, stop_at := Some 0\<rparr>)
      else Some (S\<lparr>destroying := True, destroyed := True\<rparr>))"

text \<open>A worker acts upon its request.\<close>

definition cancel_worker :: "nat \<Rightarrow> 'j stoppable \<Rightarrow> 'j stoppable option" where
  "cancel_worker i S =
     (let s = pool_of S in
      if i \<notin> set (requested S) \<or> i \<in> set (ended S) \<or> \<not> i < length (workers s) then None
      else if i \<in> set (unwinding S)
      then (if jobs_mutex s = None
            then Some (S\<lparr>pool_of := move_worker i Check s\<lparr>jobs_mutex := Some (Worker i)\<rparr>,
                   ended := i # ended S\<rparr>)
            else None)
      else case workers s ! i of
        Waiting \<Rightarrow> Some (S\<lparr>pool_of := move_worker i Woken s, unwinding := i # unwinding S\<rparr>)
      | Woken \<Rightarrow> Some (S\<lparr>unwinding := i # unwinding S\<rparr>)
      | Proc j \<Rightarrow> Some (S\<lparr>ended := i # ended S\<rparr>)
      | Write_byte \<Rightarrow> Some (S\<lparr>ended := i # ended S\<rparr>)
      | Pop_failed b j \<Rightarrow> Some (S\<lparr>ended := i # ended S\<rparr>)
      | Push_failed j \<Rightarrow> Some (S\<lparr>ended := i # ended S\<rparr>)
      | _ \<Rightarrow> None)"

datatype 'j stop_action =
    Pool "'j action" | Call_stop | Run_stop | Call_destroy | Act_cancel nat

text \<open>A worker that has ended or is being unwound runs no code of its own.\<close>

fun halted :: "nat list \<Rightarrow> 'j action \<Rightarrow> bool" where
  "halted ks (Run_worker i ok) = (i \<in> set ks)"
| "halted ks a = False"

text \<open>The steps that use the pool: all but those of a worker in \<open>proc\<close> or on its way to \<open>exit\<close>.\<close>

fun uses_pool :: "'j worker list \<Rightarrow> 'j action \<Rightarrow> bool" where
  "uses_pool ws (Run_worker i ok) =
     (case ws ! i of Proc j \<Rightarrow> False | Pop_failed b j \<Rightarrow> False | Push_failed j \<Rightarrow> False | _ \<Rightarrow> True)"
| "uses_pool ws a = True"

text \<open>A step of any thread. Once the destructor is through, a thread that goes on uses a destroyed
  pool; \<open>stop\<close> and the destructor are called by the thread that owns the pool, one at a time.\<close>

definition stop_step ::
  "(nat \<Rightarrow> 'j \<Rightarrow> 'j) \<Rightarrow> nat \<Rightarrow> 'j stop_action \<Rightarrow> 'j stoppable \<Rightarrow> 'j stoppable outcome option" where
  "stop_step proc cap a S =
     (if exited (pool_of S) then None
      else case a of
        Pool b \<Rightarrow>
          if halted (ended S @ unwinding S) b then None
          else (case pool_step proc cap b (pool_of S) of
                  None \<Rightarrow> None
                | Some s \<Rightarrow>
                    if destroyed S \<and> uses_pool (workers (pool_of S)) b
                    then Some (Fault Use_after_free)
                    else Some (Done (S\<lparr>pool_of := s\<rparr>)))
      | Call_stop \<Rightarrow>
          if stop_at S = None \<and> \<not> destroying S then Some (Done (S\<lparr>stop_at := Some 0\<rparr>)) else None
      | Run_stop \<Rightarrow> map_option Inr (WorkerPool_stop S)
      | Call_destroy \<Rightarrow> if destroying S then None else map_option Inr (WorkerPool_destroy S)
      | Act_cancel i \<Rightarrow>
          (case cancel_worker i S of
             None \<Rightarrow> None
           | Some T \<Rightarrow>
               if destroyed S \<and> workers (pool_of S) ! i \<in> {Waiting, Woken}
               then Some (Fault Use_after_free) else Some (Done T)))"

inductive stop_reachable :: "(nat \<Rightarrow> 'j \<Rightarrow> 'j) \<Rightarrow> nat \<Rightarrow> 'j stoppable \<Rightarrow> bool" for proc cap where
  new: "stop_reachable proc cap stoppable_new"
| step: "stop_reachable proc cap S \<Longrightarrow> stop_step proc cap a S = Some (Done T) \<Longrightarrow>
    stop_reachable proc cap T"

inductive later :: "(nat \<Rightarrow> 'j \<Rightarrow> 'j) \<Rightarrow> nat \<Rightarrow> 'j stoppable \<Rightarrow> 'j stoppable \<Rightarrow> bool" for proc cap S where
  now: "later proc cap S S"
| next_step: "later proc cap S T \<Longrightarrow> stop_step proc cap a T = Some (Done U) \<Longrightarrow> later proc cap S U"


section \<open>Every run of a pool that is stopped is a run of the pool\<close>

text \<open>Workers that are being unwound wait for the mutex; those that ended did so at a cancellation
  point, or at the condition variable with the mutex in their hands.\<close>

definition stop_ok :: "'j stoppable \<Rightarrow> bool" where
  "stop_ok S \<longleftrightarrow>
     (\<forall>i \<in> set (unwinding S). i < length (workers (pool_of S)) \<and>
        (workers (pool_of S) ! i = Woken \<or> i \<in> set (ended S))) \<and>
     (\<forall>i \<in> set (ended S). i < length (workers (pool_of S)) \<and>
        workers (pool_of S) ! i \<notin> {Waiting, Woken, Lock_jobs})"

lemma WorkerPool_stop_frame:
  "WorkerPool_stop S = Some T \<Longrightarrow> pool_of T = pool_of S \<and> ended T = ended S \<and>
     unwinding T = unwinding S"
  by (auto simp: WorkerPool_stop_def split: option.splits if_splits)

lemma WorkerPool_destroy_frame:
  "WorkerPool_destroy S = Some T \<Longrightarrow> pool_of T = pool_of S \<and> ended T = ended S \<and>
     unwinding T = unwinding S"
  by (auto simp: WorkerPool_destroy_def split: if_splits)

lemma stop_step_cases [consumes 1, case_names pool stop cancel]:
  assumes "stop_step proc cap a S = Some (Done T)"
  obtains b s where "a = Pool b" "\<not> halted (ended S @ unwinding S) b"
      "pool_step proc cap b (pool_of S) = Some s" "T = S\<lparr>pool_of := s\<rparr>"
  | "pool_of T = pool_of S" "ended T = ended S" "unwinding T = unwinding S"
  | i where "a = Act_cancel i" "cancel_worker i S = Some T"
proof (cases a)
  case (Pool b)
  with assms obtain s where "\<not> halted (ended S @ unwinding S) b"
    "pool_step proc cap b (pool_of S) = Some s" "T = S\<lparr>pool_of := s\<rparr>"
    by (auto simp: stop_step_def split: if_splits option.splits)
  with Pool show thesis by (rule that(1))
next
  case (Act_cancel i)
  with assms have "cancel_worker i S = Some T"
    by (auto simp: stop_step_def split: if_splits option.splits)
  with Act_cancel show thesis by (rule that(3))
next
  case Call_stop
  with assms have "T = S\<lparr>stop_at := Some 0\<rparr>" by (auto simp: stop_step_def split: if_splits)
  then show thesis by (intro that(2)) simp_all
next
  case Run_stop
  with assms have "WorkerPool_stop S = Some T" by (auto simp: stop_step_def split: if_splits)
  then show thesis by (intro that(2)) (simp_all add: WorkerPool_stop_frame)
next
  case Call_destroy
  with assms have "WorkerPool_destroy S = Some T" by (auto simp: stop_step_def split: if_splits)
  then show thesis by (intro that(2)) (simp_all add: WorkerPool_destroy_frame)
qed

lemma cancel_worker_cases [consumes 1, case_names take leave woken die]:
  assumes "cancel_worker i S = Some T"
  obtains "i \<in> set (unwinding S)" "i \<notin> set (ended S)" "i < length (workers (pool_of S))"
      "jobs_mutex (pool_of S) = None"
      "T = S\<lparr>pool_of := move_worker i Check (pool_of S)\<lparr>jobs_mutex := Some (Worker i)\<rparr>,
         ended := i # ended S\<rparr>"
  | "i < length (workers (pool_of S))" "workers (pool_of S) ! i = Waiting"
      "i \<notin> set (unwinding S)" "i \<notin> set (ended S)"
      "T = S\<lparr>pool_of := move_worker i Woken (pool_of S), unwinding := i # unwinding S\<rparr>"
  | "i < length (workers (pool_of S))" "workers (pool_of S) ! i = Woken"
      "i \<notin> set (ended S)" "T = S\<lparr>unwinding := i # unwinding S\<rparr>"
  | "i < length (workers (pool_of S))" "i \<notin> set (unwinding S)"
      "workers (pool_of S) ! i \<noteq> Check" "workers (pool_of S) ! i \<noteq> Lock_jobs"
      "workers (pool_of S) ! i \<noteq> Woken" "workers (pool_of S) ! i \<noteq> Waiting"
      "T = S\<lparr>ended := i # ended S\<rparr>"
proof -
  from assms have i: "i \<notin> set (ended S)" "i < length (workers (pool_of S))"
    by (auto simp: cancel_worker_def Let_def split: if_splits)
  show thesis
  proof (cases "i \<in> set (unwinding S)")
    case True
    with assms i have "jobs_mutex (pool_of S) = None"
      "T = S\<lparr>pool_of := move_worker i Check (pool_of S)\<lparr>jobs_mutex := Some (Worker i)\<rparr>,
         ended := i # ended S\<rparr>"
      by (simp_all add: cancel_worker_def Let_def split: if_splits)
    with True i show thesis by (intro that(1))
  next
    case False
    show thesis
    proof (cases "workers (pool_of S) ! i \<in> {Waiting, Woken}")
      case True
      with assms i False show thesis
        by (auto simp: cancel_worker_def Let_def intro: that(2,3) split: if_splits)
    next
      case no: False
      with assms i False have "T = S\<lparr>ended := i # ended S\<rparr>"
        "workers (pool_of S) ! i \<noteq> Check" "workers (pool_of S) ! i \<noteq> Lock_jobs"
        by (cases "workers (pool_of S) ! i"; simp add: cancel_worker_def Let_def split: if_splits)+
      with i False no show thesis by (intro that(4)) simp_all
    qed
  qed
qed

text \<open>A worker that is not waiting is moved by its own steps only.\<close>

lemma pool_step_others:
  assumes "pool_step proc cap a s = Some s'" and "i < length (workers s)"
    and "workers s ! i \<noteq> Waiting" and "\<And>ok. a \<noteq> Run_worker i ok"
  shows "i < length (workers s') \<and> workers s' ! i = workers s ! i"
  using assms
proof (induction rule: pool_step_cases)
  case (start created)
  then show ?case using start_eq [of created s] by (auto simp: nth_append)
next
  case (push ok p)
  then show ?case
    by (cases "producers s p") (auto simp: Queue_push_step_def split: if_splits)
next
  case (pop k ok)
  then have "k \<noteq> i" by blast
  with pop show ?case
    by (cases "workers s ! k") (auto simp: Queue_pop_step_def split: if_splits list.splits)
next
  case (results k ok)
  then have "k \<noteq> i" by blast
  with results show ?case
    by (cases "workers s ! k") (auto simp: SelectableQueue_push_step_def split: if_splits)
next
  case (proc k ok j)
  then have "k \<noteq> i" by blast
  with proc show ?case by simp
next
  case (consume ok)
  then show ?case by (cases "consumer s"; cases "results s")
    (auto simp: SelectableQueue_pop_step_def split: if_splits)
next
  case (wake k)
  then have "k \<noteq> i" by blast
  with wake show ?case by simp
next
  case (signal p k)
  then have "k \<noteq> i" by blast
  with signal show ?case by simp
qed simp_all

lemma pool_step_workers:
  "pool_step proc cap a s = Some s' \<Longrightarrow> length (workers s) \<le> length (workers s')"
proof (induction rule: pool_step_cases)
  case (start created)
  then show ?case using start_eq [of created s] by auto
next
  case (push ok p)
  then show ?case
    by (cases "producers s p") (auto simp: Queue_push_step_def split: if_splits)
next
  case (pop k ok)
  then show ?case
    by (cases "workers s ! k") (auto simp: Queue_pop_step_def split: if_splits list.splits)
next
  case (results k ok)
  then show ?case
    by (cases "workers s ! k") (auto simp: SelectableQueue_push_step_def split: if_splits)
next
  case (consume ok)
  then show ?case by (cases "consumer s"; cases "results s")
    (auto simp: SelectableQueue_pop_step_def split: if_splits)
qed simp_all

lemma stop_ok_step:
  assumes "stop_step proc cap a S = Some (Done T)" and ok: "stop_ok S"
  shows "stop_ok T"
  using assms(1)
proof (cases rule: stop_step_cases)
  case (pool b s)
  have "i < length (workers s) \<and> workers s ! i = workers (pool_of S) ! i"
    if "i < length (workers (pool_of S))" "workers (pool_of S) ! i \<noteq> Waiting"
      "i \<in> set (unwinding S) \<or> i \<in> set (ended S)" for i
    using that pool(2) by (intro pool_step_others [OF pool(3)]) auto
  with ok show ?thesis unfolding pool(4) stop_ok_def by fastforce
next
  case stop
  with ok show ?thesis by (simp add: stop_ok_def)
next
  case (cancel i)
  from cancel(2) show ?thesis
    by (cases rule: cancel_worker_cases) (use ok in \<open>auto simp: stop_ok_def nth_list_update\<close>)
qed

lemma stop_ok_reachable: "stop_reachable proc cap S \<Longrightarrow> stop_ok S"
proof (induction rule: stop_reachable.induct)
  case new
  show ?case by (simp add: stop_ok_def stoppable_new_def)
next
  case (step S a T)
  from step(2,3) show ?case by (rule stop_ok_step)
qed

text \<open>Each step is a step of the pool or leaves it alone: leaving the condition variable is a spurious
  wake-up, ending with the mutex the return of \<open>pthread_cond_wait\<close>.\<close>

lemma stop_step_simulates:
  assumes "stop_step proc cap a S = Some (Done T)" and "stop_ok S"
  shows "pool_of T = pool_of S \<or> (\<exists>b. pool_step proc cap b (pool_of S) = Some (pool_of T))"
  using assms(1)
proof (cases rule: stop_step_cases)
  case (cancel i)
  have "\<not> exited (pool_of S)" using assms(1) by (auto simp: stop_step_def)
  from cancel(2) show ?thesis
  proof (cases rule: cancel_worker_cases)
    case take
    then have "pool_step proc cap (Run_worker i True) (pool_of S) = Some (pool_of T)"
      using assms(2) \<open>\<not> exited (pool_of S)\<close>
      by (auto simp: pool_step_def run_worker_step_def Queue_pop_step_def stop_ok_def)
    then show ?thesis by blast
  next
    case leave
    then have "pool_step proc cap (Spurious i) (pool_of S) = Some (pool_of T)"
      using \<open>\<not> exited (pool_of S)\<close> by (simp add: pool_step_def)
    then show ?thesis by blast
  qed simp_all
qed auto

lemma stop_simulation: "stop_reachable proc cap S \<Longrightarrow> reachable proc cap (pool_of S)"
proof (induction rule: stop_reachable.induct)
  case new
  show ?case by (simp add: stoppable_new_def reachable.new)
next
  case (step S a T)
  from stop_step_simulates [OF step(2) stop_ok_reachable [OF step(1)]] step(3)
  show ?case by (auto intro: reachable.step)
qed

section \<open>A worker that ends with the mutex\<close>

definition asleep :: "'j worker \<Rightarrow> bool" where
  "asleep w \<longleftrightarrow> w = Waiting \<or> w = Woken"

text \<open>While a halted worker owns the mutex of the jobs, no job comes or goes and no sleeper leaves
  \<open>pthread_cond_wait\<close>.\<close>

lemma not_inside:
  assumes "mutexes_ok s" and "jobs_mutex s = Some (Worker i)"
  shows "\<not> in_push (producers s p)"
    and "k < length (workers s) \<Longrightarrow> k \<noteq> i \<Longrightarrow> \<not> in_jobs (workers s ! k)"
  using assms by (fastforce simp: mutexes_ok_def agree_def)+

lemma blocked_step:
  assumes "pool_step proc cap a s = Some s'" and "mutexes_ok s" and "jobs_mutex s = Some (Worker i)"
    and "\<And>ok. a \<noteq> Run_worker i ok"
  shows "submitted s' = submitted s \<and> taken s' = taken s \<and>
    (\<forall>k < length (workers s). asleep (workers s ! k) \<longrightarrow> asleep (workers s' ! k))"
  using assms
proof (induction rule: pool_step_cases)
  case (start created)
  then show ?case using start_eq [of created s] by (auto simp: nth_append)
next
  case (push ok p)
  with not_inside(1) [of s i p] show ?case
    by (cases "producers s p") (auto simp: Queue_push_step_def split: if_splits)
next
  case (pop k ok)
  then have "k \<noteq> i" by blast
  with not_inside(2) pop have "\<not> in_jobs (workers s ! k)" by blast
  with pop show ?case
    by (cases "workers s ! k")
      (auto simp: Queue_pop_step_def asleep_def nth_list_update split: if_splits)
next
  case (results k ok)
  then show ?case
    by (cases "workers s ! k")
      (auto simp: SelectableQueue_push_step_def asleep_def nth_list_update split: if_splits)
next
  case (consume ok)
  then show ?case by (cases "consumer s"; cases "results s")
    (auto simp: SelectableQueue_pop_step_def split: if_splits)
qed (auto simp: asleep_def nth_list_update)

lemma later_reachable: "later proc cap S T \<Longrightarrow> stop_reachable proc cap S \<Longrightarrow> stop_reachable proc cap T"
  by (induction rule: later.induct) (auto intro: stop_reachable.step)

text \<open>A worker that ended in \<open>pthread_cond_wait\<close> left the program counter \<open>Check\<close> behind.\<close>

definition died_waiting :: "nat \<Rightarrow> 'j stoppable \<Rightarrow> bool" where
  "died_waiting i S \<longleftrightarrow> i \<in> set (ended S) \<and> workers (pool_of S) ! i = Check"

lemma died_waiting_owns:
  assumes "stop_reachable proc cap S" and "died_waiting i S"
  shows "jobs_mutex (pool_of S) = Some (Worker i)" and "mutexes_ok (pool_of S)"
proof -
  show m: "mutexes_ok (pool_of S)" by (rule mutex.always [OF stop_simulation [OF assms(1)]])
  have "i < length (workers (pool_of S))" "workers (pool_of S) ! i = Check"
    using assms(2) stop_ok_reachable [OF assms(1)] by (auto simp: died_waiting_def stop_ok_def)
  then have "owns_jobs (workers (pool_of S)) (producers (pool_of S)) (Worker i)" by simp
  with m show "jobs_mutex (pool_of S) = Some (Worker i)" by (simp add: mutexes_ok_def agree_def)
qed

lemma died_waiting_step:
  assumes r: "stop_reachable proc cap S" and d: "died_waiting i S"
    and s: "stop_step proc cap a S = Some (Done T)"
  shows "died_waiting i T \<and> submitted (pool_of T) = submitted (pool_of S) \<and>
    taken (pool_of T) = taken (pool_of S) \<and>
    (\<forall>k < length (workers (pool_of S)). k \<notin> set (ended S) \<longrightarrow> asleep (workers (pool_of S) ! k) \<longrightarrow>
       k < length (workers (pool_of T)) \<and> k \<notin> set (ended T) \<and> asleep (workers (pool_of T) ! k))"
  using s
proof (cases rule: stop_step_cases)
  case (pool b t)
  note own = died_waiting_owns [OF r d]
  have i: "i < length (workers (pool_of S))" "workers (pool_of S) ! i = Check" "i \<in> set (ended S)"
    using d stop_ok_reachable [OF r] by (auto simp: died_waiting_def stop_ok_def)
  with pool(2) have b: "b \<noteq> Run_worker i ok" for ok by auto
  from pool_step_others [OF pool(3) i(1) _ b] i(2) have "workers t ! i = Check" by simp
  moreover from blocked_step [OF pool(3) own(2,1) b] have "submitted t = submitted (pool_of S)"
    "taken t = taken (pool_of S)"
    "\<And>k. k < length (workers (pool_of S)) \<Longrightarrow> asleep (workers (pool_of S) ! k) \<Longrightarrow>
      asleep (workers t ! k)" by blast+
  moreover have "length (workers (pool_of S)) \<le> length (workers t)"
    by (rule pool_step_workers [OF pool(3)])
  ultimately show ?thesis using pool(4) i(3) by (auto simp: died_waiting_def)
next
  case stop
  with d show ?thesis by (simp add: died_waiting_def)
next
  case (cancel k)
  have "k \<noteq> i" using cancel(2) d by (auto simp: died_waiting_def cancel_worker_def Let_def)
  from cancel(2) show ?thesis
    by (cases rule: cancel_worker_cases)
      (use d \<open>k \<noteq> i\<close> died_waiting_owns(1) [OF r d] in
        \<open>auto simp: died_waiting_def asleep_def nth_list_update\<close>)
qed

lemma died_waiting_forever:
  assumes "later proc cap S T" and r: "stop_reachable proc cap S" and d: "died_waiting i S"
  shows "stop_reachable proc cap T \<and> died_waiting i T \<and>
    submitted (pool_of T) = submitted (pool_of S) \<and> taken (pool_of T) = taken (pool_of S) \<and>
    (\<forall>k < length (workers (pool_of S)). k \<notin> set (ended S) \<longrightarrow> asleep (workers (pool_of S) ! k) \<longrightarrow>
       k < length (workers (pool_of T)) \<and> k \<notin> set (ended T) \<and> asleep (workers (pool_of T) ! k))"
  using assms(1)
proof (induction rule: later.induct)
  case now
  with r d show ?case by simp
next
  case (next_step T a U)
  then have "stop_reachable proc cap T" "died_waiting i T" by blast+
  from died_waiting_step [OF this next_step(2)] this(1) next_step(2,3) show ?case
    by (auto intro: stop_reachable.step)
qed

section \<open>Jobs in the hands of the workers that ended\<close>

definition in_hands :: "(nat \<Rightarrow> bool) \<Rightarrow> 'j worker list \<Rightarrow> 'j list" where
  "in_hands P ws = concat (map (\<lambda>i. if P i then carried (ws ! i) else []) [0..<length ws])"

lemma in_hands_split:
  "mset (map key (concat (map carried ws))) =
     mset (map key (in_hands (\<lambda>i. \<not> P i) ws)) + mset (map key (in_hands P ws))"
proof -
  have "mset (map key (concat (map (\<lambda>i. carried (ws ! i)) xs))) =
      mset (map key (concat (map (\<lambda>i. if \<not> P i then carried (ws ! i) else []) xs))) +
      mset (map key (concat (map (\<lambda>i. if P i then carried (ws ! i) else []) xs)))" for xs
    by (induction xs) simp_all
  moreover have "map carried ws = map (\<lambda>i. carried (ws ! i)) [0..<length ws]"
    by (rule nth_equalityI) simp_all
  ultimately show ?thesis by (simp only: in_hands_def)
qed

section \<open>Sequences of steps\<close>

fun stop_run ::
  "(nat \<Rightarrow> 'j \<Rightarrow> 'j) \<Rightarrow> nat \<Rightarrow> 'j stop_action list \<Rightarrow> 'j stoppable \<Rightarrow> 'j stoppable option" where
  "stop_run proc cap [] S = Some S"
| "stop_run proc cap (a # as) S =
     (case stop_step proc cap a S of Some (Inr T) \<Rightarrow> stop_run proc cap as T | _ \<Rightarrow> None)"

lemma stop_run_reachable:
  "stop_reachable proc cap S \<Longrightarrow> stop_run proc cap as S = Some T \<Longrightarrow> stop_reachable proc cap T"
  by (induction as arbitrary: S) (auto split: option.splits sum.splits intro: stop_reachable.step)

lemma later_trans: "later proc cap T U \<Longrightarrow> later proc cap S T \<Longrightarrow> later proc cap S U"
  by (induction rule: later.induct) (auto intro: later.next_step)

lemma stop_run_later: "stop_run proc cap as S = Some T \<Longrightarrow> later proc cap S T"
proof (induction as arbitrary: S)
  case (Cons a as)
  then obtain U where "stop_step proc cap a S = Some (Done U)" "stop_run proc cap as U = Some T"
    by (auto split: option.splits sum.splits)
  with Cons.IH [of U] show ?case by (meson later_trans later.intros)
qed (simp add: later.now)

lemma stop_run_loop:
  assumes "stop_at S = Some i" and "i + n = length (tids (pool_of S))" and "\<not> exited (pool_of S)"
  shows "\<exists>T. stop_run proc cap (replicate (Suc n) Run_stop) S = Some T \<and> pool_of T = pool_of S \<and>
    ended T = ended S \<and> unwinding T = unwinding S \<and> destroyed T = destroying S \<and>
    set (requested T) = set (requested S) \<union> {i..<i + n}"
  using assms
proof (induction n arbitrary: S i)
  case 0
  then show ?case by (simp add: stop_step_def WorkerPool_stop_def)
next
  case (Suc n)
  let ?S = "S\<lparr>stop_at := Some (Suc i), requested := i # requested S\<rparr>"
  have "stop_step proc cap Run_stop S = Some (Done ?S)"
    using Suc.prems by (simp add: stop_step_def WorkerPool_stop_def)
  moreover have "set (requested S) \<union> {i..<i + Suc n} = set (requested ?S) \<union> {Suc i..<Suc i + n}"
    by auto
  ultimately show ?case using Suc.IH [of ?S "Suc i"] Suc.prems
    by (simp only: replicate_Suc [of "Suc n"] stop_run.simps(2)) simp
qed

section \<open>Properties\<close>

text \<open>C27. Stopping refines running: whatever the order of calls, cancellations and interruptions,
  the pool inside is in a state that a pool nobody stops can reach, so that every invariant of the
  pool holds on; and each job pushed is exactly once queued, in the hands of a worker, queued as a
  result, delivered, or lost in the hands of a worker that ended.\<close>

theorem stop_refines_pool:
  assumes "stop_reachable proc cap S" and "\<And>i j. key (proc i j) = key j"
  shows "reachable proc cap (pool_of S) \<and>
    mset (map key (submitted (pool_of S))) =
      mset (map key (jobs (pool_of S))) +
      mset (map key (in_hands (\<lambda>i. i \<notin> set (ended S)) (workers (pool_of S)))) +
      mset (map key (results (pool_of S))) + mset (map key (delivered (pool_of S))) +
      mset (map key (in_hands (\<lambda>i. i \<in> set (ended S)) (workers (pool_of S))))"
proof -
  note r = stop_simulation [OF assms(1)]
  have "flow_ok key (pool_of S)" using flow.always [OF r] assms(2) by blast
  moreover have "total (\<lambda>w. mset (map key (carried w))) ws = mset (map key (concat (map carried ws)))"
    for ws by (induction ws) (simp_all add: total_def)
  moreover note in_hands_split [of key "workers (pool_of S)" "\<lambda>i. i \<in> set (ended S)"]
  ultimately show ?thesis using r by (simp add: flow_ok_def ac_simps)
qed

text \<open>Two workers, one of them in \<open>proc\<close> with a job, the other asleep, and a stop that ends both.\<close>

definition idle_actions :: "(nat \<times> nat) stop_action list" where
  "idle_actions = map Pool
     [Call_start [True, True], Run_worker 0 True, Run_worker 0 True, Run_worker 1 True,
      Run_worker 1 True]"

definition busy_actions :: "(nat \<times> nat) stop_action list" where
  "busy_actions = idle_actions @ map Pool
     [Call_push 0 (1, 5), Run_producer 0 True, Run_producer 0 True, Run_producer 0 True,
      Signal_worker 0 1, Run_worker 1 True, Run_worker 1 True, Run_worker 1 True] @
     [Call_stop, Run_stop, Run_stop, Run_stop, Act_cancel 1, Act_cancel 0, Act_cancel 0]"

definition run_from_new :: "(nat \<times> nat) stop_action list \<Rightarrow> (nat \<times> nat) stoppable" where
  "run_from_new as = (case stop_run sample_proc 2 as stoppable_new of
     Some S \<Rightarrow> S | None \<Rightarrow> stoppable_new)"

lemma run_from_new_reachable: "stop_reachable sample_proc 2 (run_from_new as)"
  unfolding run_from_new_def
  by (auto split: option.split intro: stop_reachable.new stop_run_reachable)

lemmas run_defs = run_from_new_def idle_actions_def busy_actions_def stoppable_new_def
  WorkerPool_new_def stop_step_def pool_step_def WorkerPool_start_def Queue_push_step_def
  signal_step_def run_worker_step_def Queue_pop_step_def WorkerPool_stop_def cancel_worker_def

lemma busy_values:
  "ended (run_from_new busy_actions) = [0, 1]"
  "workers (pool_of (run_from_new busy_actions)) = [Check, Proc (1, 5)]"
  "submitted (pool_of (run_from_new busy_actions)) = [(1, 5)]"
  by (simp_all add: run_defs move_worker_def move_producer_def)

lemma stop_refines_pool_witness:
  "reachable sample_proc 2 (pool_of (run_from_new busy_actions)) \<and>
   mset (map fst (submitted (pool_of (run_from_new busy_actions)))) =
     mset (map fst (jobs (pool_of (run_from_new busy_actions)))) +
     mset (map fst (in_hands (\<lambda>i. i \<notin> set [0, 1]) [Check, Proc (1 :: nat, 5 :: nat)])) +
     mset (map fst (results (pool_of (run_from_new busy_actions)))) +
     mset (map fst (delivered (pool_of (run_from_new busy_actions)))) +
     mset (map fst (in_hands (\<lambda>i. i \<in> set [0, 1]) [Check, Proc (1 :: nat, 5 :: nat)]))"
  using stop_refines_pool [OF run_from_new_reachable, of fst busy_actions]
  by (simp add: busy_values sample_proc_def)

text \<open>C28. Cancelling an idle worker blocks the pool for good: once a worker has ended in
  \<open>pthread_cond_wait\<close> it owns the mutex of the jobs in every later state, no job is pushed or taken
  any more, and every other worker that was asleep stays asleep and never ends, its own request
  notwithstanding.\<close>

theorem cancelled_sleeper_blocks_pool:
  assumes "stop_reachable proc cap S" and "i \<in> set (ended S)"
    and "workers (pool_of S) ! i = Check" and "later proc cap S T"
  shows "jobs_mutex (pool_of T) = Some (Worker i) \<and>
    submitted (pool_of T) = submitted (pool_of S) \<and> taken (pool_of T) = taken (pool_of S) \<and>
    (\<forall>k < length (workers (pool_of S)). k \<notin> set (ended S) \<longrightarrow> asleep (workers (pool_of S) ! k) \<longrightarrow>
       k \<notin> set (ended T) \<and> asleep (workers (pool_of T) ! k))"
proof -
  have "died_waiting i S" using assms(2,3) by (simp add: died_waiting_def)
  from died_waiting_forever [OF assms(4,1) this] show ?thesis
    using died_waiting_owns(1) by blast
qed

lemma cancelled_sleeper_blocks_pool_witness:
  "\<exists>T. stop_run sample_proc 2 [Pool (Call_push 3 (2, 7)), Pool Call_pop] (run_from_new busy_actions) =
      Some T \<and>
     jobs_mutex (pool_of T) = Some (Worker 0) \<and> submitted (pool_of T) = [(1, 5)]"
proof -
  have "\<exists>T. stop_run sample_proc 2 [Pool (Call_push 3 (2, 7)), Pool Call_pop]
      (run_from_new busy_actions) = Some T"
    by (simp add: run_defs move_worker_def move_producer_def)
  then obtain T where T: "stop_run sample_proc 2 [Pool (Call_push 3 (2, 7)), Pool Call_pop]
      (run_from_new busy_actions) = Some T" ..
  from cancelled_sleeper_blocks_pool [OF run_from_new_reachable _ _ stop_run_later [OF T], of 0] T
  show ?thesis by (simp add: busy_values)
qed

text \<open>The destructor does not join: from every state in which a started pool is neither being
  stopped nor destroyed it runs through, with one request per worker, while no worker moves; the
  pool is then gone, and the next step of a worker that uses it, one that has not ended among them,
  is a use after free.\<close>

theorem destructor_does_not_join:
  assumes "stop_at S = None" and "\<not> destroying S" and "\<not> exited (pool_of S)" and "started (pool_of S)"
  shows "\<exists>T. stop_run proc cap (Call_destroy # replicate (Suc (length (tids (pool_of S)))) Run_stop) S =
      Some T \<and> destroyed T \<and> pool_of T = pool_of S \<and> ended T = ended S \<and>
    (\<forall>i ok s. i \<notin> set (ended S) \<longrightarrow> i \<notin> set (unwinding S) \<longrightarrow>
       uses_pool (workers (pool_of S)) (Run_worker i ok) \<longrightarrow>
       pool_step proc cap (Run_worker i ok) (pool_of S) = Some s \<longrightarrow>
       stop_step proc cap (Pool (Run_worker i ok)) T = Some (Fault Use_after_free))"
proof -
  let ?S = "S\<lparr>destroying := True, stop_at := Some 0\<rparr>"
  have "stop_step proc cap Call_destroy S = Some (Done ?S)"
    using assms by (simp add: stop_step_def WorkerPool_destroy_def)
  moreover obtain T where T: "stop_run proc cap (replicate (Suc (length (tids (pool_of S)))) Run_stop) ?S =
      Some T" "pool_of T = pool_of S" "ended T = ended S" "unwinding T = unwinding S" "destroyed T"
    using stop_run_loop [of ?S 0 "length (tids (pool_of S))" proc cap] assms by auto
  ultimately have "stop_run proc cap
      (Call_destroy # replicate (Suc (length (tids (pool_of S)))) Run_stop) S = Some T" by simp
  with T assms(3) show ?thesis by (intro exI [of _ T]) (simp add: stop_step_def)
qed

lemma destructor_does_not_join_witness:
  "\<exists>T. stop_run sample_proc 2 [Call_destroy, Run_stop, Run_stop, Run_stop]
      (run_from_new (idle_actions @ [Pool (Spurious 0)])) = Some T \<and> destroyed T \<and> ended T = [] \<and>
     stop_step sample_proc 2 (Pool (Run_worker 0 True)) T = Some (Fault Use_after_free)"
proof -
  let ?S = "run_from_new (idle_actions @ [Pool (Spurious 0)])"
  have v: "stop_at ?S = None" "\<not> destroying ?S" "\<not> exited (pool_of ?S)" "started (pool_of ?S)"
    "length (tids (pool_of ?S)) = 2" "ended ?S = []" "unwinding ?S = []"
    "workers (pool_of ?S) = [Woken, Waiting]"
    "\<exists>s. pool_step sample_proc 2 (Run_worker 0 True) (pool_of ?S) = Some s"
    by (simp_all add: run_defs move_worker_def move_producer_def)
  from v(9) obtain s where s: "pool_step sample_proc 2 (Run_worker 0 True) (pool_of ?S) = Some s" ..
  have n: "Call_destroy # replicate (Suc (length (tids (pool_of ?S)))) Run_stop =
      [Call_destroy, Run_stop, Run_stop, Run_stop]"
    by (simp add: v(5) numeral_2_eq_2)
  have "uses_pool (workers (pool_of ?S)) (Run_worker 0 True)" by (simp add: v(8))
  with destructor_does_not_join [OF v(1-4), of sample_proc 2, unfolded n] s show ?thesis
    by (auto simp only: v(6,7) list.set empty_iff not_False_eq_True simp_thms)
qed

text \<open>A pool that was stopped is still started: starting it again creates no thread.\<close>

lemma stopped_pool_starts_nothing:
  "started s \<Longrightarrow> workers (WorkerPool_start created s) = workers s"
  by (simp add: WorkerPool_start_def)

text \<open>Taking a scoped lock twice in one thread waits for ever; released, the mutex is free.\<close>

lemma locking_not_recursive:
  "Locking_new t None = Some (Some t)" "Locking_new t (Some t) = None"
  "Locking_new t (Locking_destroy m) = Some (Some t)"
  by (simp_all add: Locking_new_def Locking_destroy_def)

end
