(* ===== verification/RunBenchmark.thy ===== *)
theory RunBenchmark
  imports TestClient
begin

text \<open>
  \<open>run_benchmark\<close> of \<open>client/main.cpp\<close> and \<open>testclient/main.cpp\<close>: a parent that forks one child per
  connection, each with a pipe of its own, and reads one result from every pipe in the order of the
  forks; the children work at any pace. A child that never gets to write (the fork, the connection
  or the sending loop failed) leaves a pipe without a writer, from which \<open>read\<close> returns 0 and keeps
  the result of the connection before. Also the options of the replaying client and the work of one
  child.
\<close>

section \<open>The work of a child\<close>

text \<open>\<^const>\<open>None\<close>: the child never gets done; \<open>Some None\<close>: it ends without writing a result.\<close>

type_synonym work = "benchmark_results option option"

definition child_result ::
  "bool \<Rightarrow> timespec \<Rightarrow> timespec \<Rightarrow> ('a \<Rightarrow> 32 word) \<Rightarrow> 'a outcome option \<Rightarrow> work" where
  "child_result connected t1 t2 sent r =
     (if \<not> connected then Some None
      else case r of
        None \<Rightarrow> None
      | Some (Inl f) \<Rightarrow> Some None
      | Some (Inr x) \<Rightarrow> Some (Some \<lparr>tstart = t1, tend = t2, messages_sent = sent x\<rparr>))"

text \<open>\<open>client/main.cpp\<close>.\<close>

definition bench_child :: "bench_options \<Rightarrow> bool \<Rightarrow> timespec \<Rightarrow> timespec \<Rightarrow> work" where
  "bench_child R connected t1 t2 =
     child_result connected t1 t2 fst
       (send_tcp_requests (verbose R) (msgs_per_request R) (num_of_msgs R))"

text \<open>\<open>testclient/main.cpp\<close>: child \<open>i\<close> replays its own file; a file that cannot be opened has no
  lines.\<close>

definition file_title :: "string \<Rightarrow> nat \<Rightarrow> string" where
  "file_title name i = name @ show_int (int i) @ ''.txt''"

definition replay_child ::
  "bench_options \<Rightarrow> string \<Rightarrow> (string \<Rightarrow> string list) \<Rightarrow> bool \<Rightarrow> timespec \<Rightarrow> timespec \<Rightarrow> nat \<Rightarrow> work" where
  "replay_child R name files connected t1 t2 i =
     child_result connected t1 t2 snd
       (replay_tcp_requests (files (file_title name i)) (msgs_per_request R) (num_of_msgs R))"

section \<open>The options of the replaying client\<close>

definition test_option ::
  "bench_options \<times> string \<Rightarrow> char \<times> string \<Rightarrow> (bench_options \<times> string) outcome" where
  "test_option s opt =
     (if fst opt = CHR ''t'' then Done (fst s, snd opt)
      else case bench_option (fst s) opt of Fault f \<Rightarrow> Fault f | Done R \<Rightarrow> Done (R, snd s))"

fun test_parse ::
  "(char \<times> string) list \<Rightarrow> bench_options \<times> string \<Rightarrow> (bench_options \<times> string) outcome" where
  "test_parse [] s = (if req_args (fst s) \<noteq> 0 then Fault (Exit 1) else Done s)"
| "test_parse (opt # opts) s =
     (case test_option s opt of Fault f \<Rightarrow> Fault f | Done s' \<Rightarrow> test_parse opts s')"

definition test_options_new :: "bench_options \<times> string" where
  "test_options_new = (bench_options_new, ''test'')"

text \<open>The name is that of the last \<open>-t\<close>; the other options are read as by the load generator.\<close>

lemma test_parse_splits:
  "test_parse opts (R, name) =
     (case bench_parse (filter (\<lambda>opt. fst opt \<noteq> CHR ''t'') opts) R of
        Fault f \<Rightarrow> Fault f
      | Done R' \<Rightarrow> Done (R', last (name # map snd (filter (\<lambda>opt. fst opt = CHR ''t'') opts))))"
proof (induction opts arbitrary: R name)
  case (Cons opt opts)
  show ?case
  proof (cases "fst opt = CHR ''t''")
    case True
    with Cons.IH [of R "snd opt"] show ?thesis by (simp add: test_option_def split: sum.split)
  next
    case False
    with Cons.IH show ?thesis by (cases "bench_option R opt")
      (simp_all add: test_option_def split: sum.split)
  qed
qed simp

section \<open>Parent and children\<close>

datatype child = Running | Reported benchmark_results | Gone

definition finish :: "benchmark_results option \<Rightarrow> child" where
  "finish r = (case r of None \<Rightarrow> Gone | Some br \<Rightarrow> Reported br)"

text \<open>The children forked so far, how many results the parent has read, the result structure it reads
  into, and the totals.\<close>

record bench =
  kids :: "child list"
  reads :: nat
  result :: benchmark_results
  bench_totals :: totals

definition run_benchmark_new :: "benchmark_results \<Rightarrow> bench" where
  "run_benchmark_new garbage =
     \<lparr>kids = [], reads = 0, result = garbage, bench_totals = totals_new\<rparr>"

inductive run_benchmark_step :: "nat \<Rightarrow> (nat \<Rightarrow> work) \<Rightarrow> bench \<Rightarrow> bench \<Rightarrow> bool" for n work where
  fork: "length (kids S) < n \<Longrightarrow> run_benchmark_step n work S (S\<lparr>kids := kids S @ [Running]\<rparr>)"
| child: "i < length (kids S) \<Longrightarrow> kids S ! i = Running \<Longrightarrow> work i = Some r \<Longrightarrow>
    run_benchmark_step n work S (S\<lparr>kids := (kids S)[i := finish r]\<rparr>)"
| read: "length (kids S) = n \<Longrightarrow> reads S < n \<Longrightarrow> kids S ! reads S = Reported br \<Longrightarrow>
    run_benchmark_step n work S
      (S\<lparr>result := br, bench_totals := add_result (bench_totals S) br, reads := Suc (reads S)\<rparr>)"
| read_eof: "length (kids S) = n \<Longrightarrow> reads S < n \<Longrightarrow> kids S ! reads S = Gone \<Longrightarrow>
    run_benchmark_step n work S
      (S\<lparr>bench_totals := add_result (bench_totals S) (result S), reads := Suc (reads S)\<rparr>)"

inductive_cases run_benchmark_stepE: "run_benchmark_step n work S T"

text \<open>The states after \<open>k\<close> steps.\<close>

inductive run_benchmark ::
  "nat \<Rightarrow> (nat \<Rightarrow> work) \<Rightarrow> benchmark_results \<Rightarrow> nat \<Rightarrow> bench \<Rightarrow> bool" for n work garbage where
  start: "run_benchmark n work garbage 0 (run_benchmark_new garbage)"
| further: "run_benchmark n work garbage k S \<Longrightarrow> run_benchmark_step n work S T \<Longrightarrow>
    run_benchmark n work garbage (Suc k) T"

text \<open>The two programs: the work of the children depends on whether they connect and on their clocks.\<close>

definition load_benchmark ::
  "bench_options \<Rightarrow> (nat \<Rightarrow> bool) \<Rightarrow> (nat \<Rightarrow> timespec) \<Rightarrow> (nat \<Rightarrow> timespec) \<Rightarrow> benchmark_results \<Rightarrow>
   nat \<Rightarrow> bench \<Rightarrow> bool" where
  "load_benchmark R connects t1 t2 garbage k S \<longleftrightarrow>
     run_benchmark (unat (num_of_connections R)) (\<lambda>i. bench_child R (connects i) (t1 i) (t2 i)) garbage k S"

definition replay_benchmark ::
  "bench_options \<Rightarrow> string \<Rightarrow> (string \<Rightarrow> string list) \<Rightarrow> (nat \<Rightarrow> bool) \<Rightarrow> (nat \<Rightarrow> timespec) \<Rightarrow>
   (nat \<Rightarrow> timespec) \<Rightarrow> benchmark_results \<Rightarrow> nat \<Rightarrow> bench \<Rightarrow> bool" where
  "replay_benchmark R name files connects t1 t2 garbage k S \<longleftrightarrow>
     run_benchmark (unat (num_of_connections R))
       (\<lambda>i. replay_child R name files (connects i) (t1 i) (t2 i) i) garbage k S"

section \<open>What the parent adds up\<close>

text \<open>The results as the parent sees them: a missing one is the one before it.\<close>

fun seen_results :: "benchmark_results \<Rightarrow> benchmark_results option list \<Rightarrow> benchmark_results list" where
  "seen_results g [] = []"
| "seen_results g (None # rs) = g # seen_results g rs"
| "seen_results g (Some r # rs) = r # seen_results r rs"

lemma seen_results_snoc:
  "seen_results g (rs @ [r]) =
     seen_results g rs @ [case r of None \<Rightarrow> last (g # seen_results g rs) | Some br \<Rightarrow> br]"
  by (induction g rs rule: seen_results.induct) (auto split: option.split)

lemma seen_results_all: "seen_results g (map Some rs) = rs"
  by (induction rs arbitrary: g) simp_all

abbreviation works :: "(nat \<Rightarrow> work) \<Rightarrow> nat \<Rightarrow> benchmark_results option list" where
  "works work k \<equiv> map (\<lambda>i. the (work i)) [0..<k]"

definition bench_ok :: "nat \<Rightarrow> (nat \<Rightarrow> work) \<Rightarrow> benchmark_results \<Rightarrow> bench \<Rightarrow> bool" where
  "bench_ok n work g S \<longleftrightarrow>
     length (kids S) \<le> n \<and> reads S \<le> n \<and> (reads S = 0 \<or> length (kids S) = n) \<and>
     (\<forall>i < length (kids S). kids S ! i = Running \<or>
        (\<exists>r. work i = Some r \<and> kids S ! i = finish r)) \<and>
     result S = last (g # seen_results g (works work (reads S))) \<and>
     bench_totals S = merge_results (seen_results g (works work (reads S)))"

lemma finish_simps [simp]:
  "finish r \<noteq> Running" "Running \<noteq> finish r" "finish r = Reported br \<longleftrightarrow> r = Some br" "finish r = Gone \<longleftrightarrow> r = None"
  by (auto simp: finish_def split: option.split)

lemma bench_ok_step:
  assumes "run_benchmark_step n work S T" and "bench_ok n work g S"
  shows "bench_ok n work g T"
  using assms
proof (induction rule: run_benchmark_step.induct)
  case (fork S)
  then show ?case by (auto simp: bench_ok_def nth_append less_Suc_eq)
next
  case (child i S r)
  then show ?case by (auto simp: bench_ok_def nth_list_update)
next
  case (read S br)
  then have "the (work (reads S)) = Some br" by (force simp: bench_ok_def)
  with read show ?case
    by (auto simp: bench_ok_def seen_results_snoc merge_results_def)
next
  case (read_eof S)
  then have "the (work (reads S)) = None" by (force simp: bench_ok_def)
  with read_eof show ?case
    by (auto simp: bench_ok_def seen_results_snoc merge_results_def)
qed

lemma bench_ok_run: "run_benchmark n work g k S \<Longrightarrow> bench_ok n work g S"
proof (induction rule: run_benchmark.induct)
  case start
  show ?case by (simp add: bench_ok_def run_benchmark_new_def merge_results_def)
next
  case (further k S T)
  from further(2,3) show ?case by (rule bench_ok_step)
qed

text \<open>The steps still to come.\<close>

definition steps_left :: "nat \<Rightarrow> bench \<Rightarrow> nat" where
  "steps_left n S =
     2 * (n - length (kids S)) + length (filter (\<lambda>c. c = Running) (kids S)) + (n - reads S)"

lemma running_update:
  "i < length cs \<Longrightarrow> cs ! i = Running \<Longrightarrow>
   Suc (length (filter (\<lambda>c. c = Running) (cs[i := finish r]))) = length (filter (\<lambda>c. c = Running) cs)"
proof (induction cs arbitrary: i)
  case (Cons c cs)
  then show ?case by (cases i) auto
qed simp

lemma steps_left_step: "run_benchmark_step n work S T \<Longrightarrow> steps_left n S = Suc (steps_left n T)"
proof (induction rule: run_benchmark_step.induct)
  case (child i S r)
  with running_update [of i "kids S" r] show ?case by (simp add: steps_left_def)
qed (simp_all add: steps_left_def)

lemma steps_left_run: "run_benchmark n work g k S \<Longrightarrow> k + steps_left n S = 3 * n"
proof (induction rule: run_benchmark.induct)
  case start
  show ?case by (simp add: steps_left_def run_benchmark_new_def)
qed (simp add: steps_left_step)

lemma parent_moves:
  assumes "bench_ok n work g S" and "\<And>i. i < n \<Longrightarrow> work i \<noteq> None" and "reads S < n"
  shows "\<exists>T. run_benchmark_step n work S T"
proof (cases "length (kids S) = n")
  case False
  with assms(1) have "length (kids S) < n" by (simp add: bench_ok_def)
  then show ?thesis by (blast intro: run_benchmark_step.fork)
next
  case True
  show ?thesis
  proof (cases "kids S ! reads S")
    case Running
    from assms(2) [OF assms(3)] obtain r where "work (reads S) = Some r" by blast
    with Running True assms(3) show ?thesis by (metis run_benchmark_step.child)
  qed (use True assms(3) in \<open>blast intro: run_benchmark_step.read run_benchmark_step.read_eof\<close>)+
qed

lemma total_messages_fold:
  "total_messages_sent (foldl add_result T brs) =
     total_messages_sent T + sum_list (map (\<lambda>br. ucast (messages_sent br)) brs)"
  by (induction brs arbitrary: T) (simp_all add: add_result_def)

text \<open>A connection that fails is counted as another copy of the one before it.\<close>

lemma failed_connection_counts_again:
  "merge_results (seen_results g (map Some rs @ [None])) = merge_results (rs @ [last (g # rs)])"
  by (simp add: seen_results_snoc seen_results_all)

section \<open>Properties\<close>

text \<open>C37. The benchmark ends and its totals do not depend on the schedule: with children that all get
  done, no interleaving of forks, children and reads takes more than \<open>3 n\<close> steps, and one that cannot
  go on has taken them all, has read every pipe, and has merged the results in the order of the
  forks, a connection that failed counting once more as the one before it.\<close>

theorem benchmark_totals:
  assumes "run_benchmark n work garbage k S" and "\<And>i. i < n \<Longrightarrow> work i \<noteq> None"
  shows "k \<le> 3 * n \<and>
    ((\<nexists>T. run_benchmark_step n work S T) \<longrightarrow>
       k = 3 * n \<and> reads S = n \<and> bench_totals S = merge_results (seen_results garbage (works work n)))"
proof (intro conjI impI)
  note left = steps_left_run [OF assms(1)] and ok = bench_ok_run [OF assms(1)]
  from left show "k \<le> 3 * n" by simp
  assume stuck: "\<nexists>T. run_benchmark_step n work S T"
  then have "\<not> reads S < n" using parent_moves [OF ok assms(2)] by blast
  with ok show r: "reads S = n" by (simp add: bench_ok_def)
  with ok show "bench_totals S = merge_results (seen_results garbage (works work n))"
    by (simp add: bench_ok_def)
  have "\<not> length (kids S) < n" using stuck by (blast intro: run_benchmark_step.fork)
  moreover have "c \<noteq> Running" if c: "c \<in> set (kids S)" for c
  proof
    assume "c = Running"
    with c obtain i where "i < length (kids S)" "kids S ! i = Running" by (auto simp: in_set_conv_nth)
    moreover from this ok assms(2) [of i] obtain w where "work i = Some w"
      by (auto simp: bench_ok_def)
    ultimately show False using stuck by (blast intro: run_benchmark_step.child)
  qed
  then have "filter (\<lambda>c. c = Running) (kids S) = []" by (simp add: filter_empty_conv)
  ultimately show "k = 3 * n" using left r by (simp add: steps_left_def)
qed

definition sample_results :: "nat \<Rightarrow> work" where
  "sample_results i = (if i = 0 then Some (Some \<lparr>tstart = (5, 0), tend = (9, 0), messages_sent = 7\<rparr>)
     else Some None)"

text \<open>Two connections, the second of which fails.\<close>

lemma benchmark_totals_witness:
  "\<exists>S. run_benchmark 2 sample_results \<lparr>tstart = (0, 0), tend = (0, 0), messages_sent = 0\<rparr> 6 S \<and>
     reads S = 2 \<and> total_messages_sent (bench_totals S) = 14"
proof -
  let ?br = "\<lparr>tstart = (5, 0), tend = (9, 0), messages_sent = 7\<rparr> :: benchmark_results"
  let ?g = "\<lparr>tstart = (0, 0), tend = (0, 0), messages_sent = 0\<rparr> :: benchmark_results"
  let ?T1 = "add_result totals_new ?br"
  let ?S = "\<lparr>kids = [Reported ?br, Gone], reads = 2, result = ?br, bench_totals = add_result ?T1 ?br\<rparr>"
  note run = run_benchmark.further [where n = 2 and work = sample_results and garbage = ?g]
  have 0: "run_benchmark 2 sample_results ?g 0 (run_benchmark_new ?g)" by (rule run_benchmark.start)
  have 1: "run_benchmark 2 sample_results ?g 1
      \<lparr>kids = [Running], reads = 0, result = ?g, bench_totals = totals_new\<rparr>"
    using run [OF 0 run_benchmark_step.fork] by (simp add: run_benchmark_new_def)
  have 2: "run_benchmark 2 sample_results ?g 2
      \<lparr>kids = [Running, Running], reads = 0, result = ?g, bench_totals = totals_new\<rparr>"
    using run [OF 1 run_benchmark_step.fork] by (simp add: numeral_2_eq_2)
  have 3: "run_benchmark 2 sample_results ?g 3
      \<lparr>kids = [Running, Gone], reads = 0, result = ?g, bench_totals = totals_new\<rparr>"
    using run [OF 2 run_benchmark_step.child [where i = 1 and r = None]]
    by (simp add: sample_results_def finish_def numeral_3_eq_3 numeral_2_eq_2)
  have 4: "run_benchmark 2 sample_results ?g 4
      \<lparr>kids = [Reported ?br, Gone], reads = 0, result = ?g, bench_totals = totals_new\<rparr>"
    using run [OF 3 run_benchmark_step.child [where i = 0 and r = "Some ?br"]]
    by (simp add: sample_results_def finish_def eval_nat_numeral)
  have 5: "run_benchmark 2 sample_results ?g 5
      \<lparr>kids = [Reported ?br, Gone], reads = 1, result = ?br, bench_totals = ?T1\<rparr>"
    using run [OF 4 run_benchmark_step.read [where br = ?br]] by (simp add: eval_nat_numeral)
  have 6: "run_benchmark 2 sample_results ?g 6 ?S"
    using run [OF 5 run_benchmark_step.read_eof] by (simp add: eval_nat_numeral)
  have "\<nexists>T. run_benchmark_step 2 sample_results ?S T"
    by (auto elim!: run_benchmark_stepE simp: less_Suc_eq nth_Cons' split: if_splits)
  with benchmark_totals [OF 6] have
    "reads ?S = 2" "bench_totals ?S = merge_results (seen_results ?g (works sample_results 2))"
    by (auto simp: sample_results_def)
  moreover have "works sample_results 2 = [Some ?br, None]"
    by (simp add: sample_results_def numeral_2_eq_2)
  ultimately show ?thesis using 6
    by (intro exI [of _ ?S]) (simp add: merge_results_def add_result_def totals_new_def)
qed

text \<open>A replay counts its messages: when every child connects and has a generated file of tests
  whose values and keys fit, the total at the end is the number of connections times the messages
  of \<open>ceil(num / m)\<close> requests.\<close>

theorem replay_benchmark_total:
  assumes "replay_benchmark R name files (\<lambda>i. True) t1 t2 garbage k S"
    and "n = unat (num_of_connections R)" and "reads S = n"
    and "\<And>i. i < n \<Longrightarrow> files (file_title name i) = show_int (int (length (ts i))) # map test_line (ts i) \<and>
      ts i \<noteq> [] \<and> int (length (ts i)) \<le> INT_MAX \<and> (\<forall>t \<in> set (ts i). fits t)"
    and "0 < msgs_per_request R"
    and "unat (num_of_msgs R) + unat (msgs_per_request R) \<le> 2 ^ 32"
  shows "total_messages_sent (bench_totals S) =
    of_nat (n * ((unat (num_of_msgs R) + unat (msgs_per_request R) - 1) div
      unat (msgs_per_request R) * unat (msgs_per_request R)))"
proof -
  let ?m = "unat (msgs_per_request R)" and ?num = "unat (num_of_msgs R)"
  let ?c = "(?num + ?m - 1) div ?m * ?m"
  let ?work = "\<lambda>i. replay_child R name files True (t1 i) (t2 i) i"
  have m: "0 < ?m" using assms(5) by (simp add: unat_gt_0)
  have run: "run_benchmark n ?work garbage k S"
    using assms(1,2) by (simp add: replay_benchmark_def)
  have w: "\<exists>br. ?work i = Some (Some br) \<and> unat (messages_sent br) = ?c" if "i < n" for i
  proof -
    note title = assms(4) [OF that]
    then have "replay_file (files (file_title name i)) (map test_message (ts i))"
      by (simp add: replay_file_generated)
    from replay_loop_requests [OF this m assms(6), of 0 0] m title obtain s reqs where
      "replay_tcp_requests (files (file_title name i)) (msgs_per_request R) (num_of_msgs R) =
        Some (Done (reqs, s))" "unat s = ?c"
      by (auto simp: replay_tcp_requests_def reader_at_def)
    then show ?thesis by (simp add: replay_child_def child_result_def)
  qed
  define brs where "brs = map (\<lambda>i. the (the (?work i))) [0..<n]"
  have "map (\<lambda>i. the (?work i)) [0..<n] = map Some brs"
    unfolding brs_def using w by (force intro!: nth_equalityI)
  then have T: "bench_totals S = merge_results brs"
    using bench_ok_run [OF run] assms(3) by (simp add: bench_ok_def seen_results_all)
  have "ucast (messages_sent br) = (of_nat ?c :: 64 word)" if br: "br \<in> set brs" for br
  proof -
    from br obtain i where "i < n" "br = the (the (?work i))" by (auto simp: brs_def)
    with w [of i] have "unat (messages_sent br) = ?c" by auto
    then show ?thesis by (metis of_nat_unat)
  qed
  then have "map (\<lambda>br. ucast (messages_sent br)) brs = replicate n (of_nat ?c :: 64 word)"
    by (simp add: brs_def map_replicate_const list_eq_iff_nth_eq)
  then show ?thesis
    by (simp add: T merge_results_def total_messages_fold totals_new_def sum_list_replicate)
qed

end
