(* ===== verification/ServedStore.thy ===== *)
theory ServedStore
  imports Server TestClient
begin

text \<open>
  The composition of the event-loop server (\<open>server-5204/net.cpp\<close>, \<open>msg.cpp\<close>), its back end
  (\<open>fde.cpp\<close>) and the store (\<open>kvstorelib/\<close>), for several clients at once. \<open>msg.cpp\<close> calls
  \<open>kvstore_process_packet\<close> with a request and a response to fill in; no function with these two
  arguments is in the repository. It stays a parameter, and the locale \<open>packet_handler\<close> states what
  the server relies on: for a valid request it applies the operation to the store and fills in the reply,
  as the messages of \<open>messages.h\<close> and the one-argument function of \<open>kvstorelib.h\<close>, where the second
  argument is still there as a comment, describe it. An abstract server of three maps (the store, what is
  queued and what was sent per connection) runs requests and responses in any order;
  \<open>NetworkServer::main_loop\<close> simulates it.
\<close>

section \<open>What the server relies on\<close>

locale packet_handler =
  fixes contents :: "'h \<Rightarrow> string \<Rightarrow> string option"
    and valid :: "'h \<Rightarrow> bool"
    and process :: "'h store_ptr handler"
  assumes packet_doc: "valid h \<Longrightarrow> valid_request q \<Longrightarrow>
    kv_spec (contents h) (the (operation_of (operation q))) (key q) (msg_value q) = (ok, m, v) \<Longrightarrow>
    \<exists>h'. process (encode_send q) old (Live h) = Done (Live h', encode_send (spec_reply ok v q)) \<and>
      valid h' \<and> contents h' = m"

context packet_handler
begin

lemma frames_answered:
  assumes "valid h" and "\<forall>q \<in> set qs. valid_request q" and "map (\<lambda>i. frame i bs) is = map encode_send qs"
  shows "\<exists>h'. process_all process bs old is (Live h) =
      Done (Live h', map encode_send (snd (spec_run (contents h) qs))) \<and>
    valid h' \<and> contents h' = fst (spec_run (contents h) qs)"
  using assms
proof (induction qs arbitrary: h "is")
  case Nil
  then show ?case by auto
next
  case (Cons q qs)
  from Cons.prems(3) obtain i js where "is": "is = i # js" "frame i bs = encode_send q"
    "map (\<lambda>i. frame i bs) js = map encode_send qs" by auto
  obtain ok m v where spec:
    "kv_spec (contents h) (the (operation_of (operation q))) (key q) (msg_value q) = (ok, m, v)"
    by (cases "kv_spec (contents h) (the (operation_of (operation q))) (key q) (msg_value q)") auto
  from packet_doc [OF Cons.prems(1) _ spec, of "frame i old"] Cons.prems(2) obtain h1 where
    p: "process (encode_send q) (frame i old) (Live h) = Done (Live h1, encode_send (spec_reply ok v q))"
    and h1: "valid h1" "contents h1 = m" by auto
  from Cons.IH [OF h1(1) _ "is"(3)] Cons.prems(2) show ?case
    by (auto simp: "is"(1,2) p spec h1(2) split: prod.splits)
qed

end

text \<open>A function that keeps the promise: the library's, its reply copied into the response.\<close>

definition library_handler :: "'h cuckoo \<Rightarrow> 'h store_ptr handler" where
  "library_handler ck req old p = map_sum id (\<lambda>(r, p', reply). (p', reply)) (kvstore_process_packet ck p req)"

sublocale cuckoohash_map \<subseteq> library: packet_handler contents valid "library_handler ck"
proof unfold_locales
  fix h q ok m v old
  assume "valid h" "valid_request q"
    and s: "kv_spec (contents h) (the (operation_of (operation q))) (key q) (msg_value q) = (ok, m, v)"
  then obtain op where "wf_send q" "operation_of (operation q) = Some op"
    by (auto simp: valid_request_def)
  with packet_refines [OF \<open>valid h\<close> this] s
  show "\<exists>h'. library_handler ck (encode_send q) old (Live h) =
      Done (Live h', encode_send (spec_reply ok v q)) \<and> valid h' \<and> contents h' = m"
    by (auto simp: library_handler_def)
qed

lemma length_wire: "\<forall>q \<in> set qs. wf_send q \<Longrightarrow> length (wire qs) = MESSAGE_SIZE * length qs"
  by (induction qs) simp_all

lemma frames_wire:
  assumes "\<forall>q \<in> set qs. wf_send q"
  shows "map (\<lambda>i. frame i (wire qs)) [0..<length qs] = map encode_send qs"
proof (rule nth_equalityI)
  fix i assume i: "i < length (map (\<lambda>i. frame i (wire qs)) [0..<length qs])"
  then have *: "wire qs = wire (take i qs) @ encode_send (qs ! i) @ wire (drop (Suc i) qs)"
    by (metis (no_types, lifting) append_take_drop_id concat.simps(2) concat_append length_map
        list.simps(9) map_append minus_nat.diff_0 length_upt Cons_nth_drop_Suc)
  have "length (wire (take i qs)) = MESSAGE_SIZE * i"
    using i assms by (subst length_wire) (auto dest: in_set_takeD)
  moreover have "length (encode_send (qs ! i)) = MESSAGE_SIZE" using i assms by simp
  ultimately have "frame i (wire qs) = encode_send (qs ! i)"
    unfolding frame_def span_def by (subst *) simp
  with i show "map (\<lambda>i. frame i (wire qs)) [0..<length qs] ! i = map encode_send qs ! i" by simp
qed simp

lemma spec_run_wide:
  "wide_values m \<Longrightarrow> \<forall>q \<in> set qs. valid_request q \<Longrightarrow>
   wide_values (fst (spec_run m qs)) \<and> length (snd (spec_run m qs)) = length qs \<and>
   (\<forall>r \<in> set (snd (spec_run m qs)). wf_send r)"
proof (induction qs arbitrary: m)
  case (Cons q qs)
  let ?op = "the (operation_of (operation q))"
  obtain ok m' v where s: "kv_spec m ?op (key q) (msg_value q) = (ok, m', v)"
    by (cases "kv_spec m ?op (key q) (msg_value q)") auto
  have q: "wf_send q" using Cons.prems(2) by (simp add: valid_request_def)
  then have "wide_values m'" "length v = 32"
    using wide_values_spec [OF Cons.prems(1), of "msg_value q" ?op "key q"]
      length_spec_value [OF Cons.prems(1), of "msg_value q" ?op "key q"] s
    by (simp_all add: wf_send_def)
  with Cons.IH [of m'] Cons.prems(2) q s show ?case
    by (auto simp: spec_reply_def wf_send_def split: prod.splits)
qed simp

section \<open>The abstract server\<close>

text \<open>What can be ready: a client that connects, requests that came in, room to send. Connections are
  numbered in the order in which they are accepted, from 1.\<close>

datatype event = Connect | In nat "send_message list" | Out nat

record abstract_server =
  kv_map :: "string \<rightharpoonup> string"
  responses :: "nat \<Rightarrow> string list"
  replied :: "nat \<Rightarrow> string"

fun abstract_step :: "event \<Rightarrow> abstract_server \<Rightarrow> abstract_server" where
  "abstract_step Connect A = A"
| "abstract_step (In c qs) A =
     (let (m, rs) = spec_run (kv_map A) qs in
      A\<lparr>kv_map := m, responses := (responses A)(c := responses A c @ [wire rs])\<rparr>)"
| "abstract_step (Out c) A =
     (case responses A c of
        [] \<Rightarrow> A
      | b # bs \<Rightarrow> A\<lparr>responses := (responses A)(c := bs), replied := (replied A)(c := replied A c @ b)\<rparr>)"

definition abstract_run :: "event list \<Rightarrow> abstract_server \<Rightarrow> abstract_server" where
  "abstract_run xs A = fold abstract_step xs A"

text \<open>What \<open>epoll_wait\<close> reports for an event, where \<open>fd 0\<close> is the listening descriptor, and what the
  kernel has for a connection: every request arrives as one segment, every response finds room.\<close>

fun report :: "(nat \<Rightarrow> int) \<Rightarrow> event \<Rightarrow> wait_answer" where
  "report fd Connect = Wait_ready [(fd 0, 1)]"
| "report fd (In c qs) = Wait_ready [(fd c, 1)]"
| "report fd (Out c) = Wait_ready [(fd c, 4)]"

fun arriving :: "nat \<Rightarrow> event list \<Rightarrow> read_event list" where
  "arriving c [] = []"
| "arriving c (Connect # xs) = arriving c xs"
| "arriving c (In d qs # xs) =
     (if c = d then Arrived (wire qs) # Read_err EWOULDBLOCK # arriving c xs else arriving c xs)"
| "arriving c (Out d # xs) = arriving c xs"

fun outs :: "nat \<Rightarrow> event list \<Rightarrow> nat" where
  "outs c [] = 0"
| "outs c (Connect # xs) = outs c xs"
| "outs c (In d qs # xs) = outs c xs"
| "outs c (Out d # xs) = (if c = d then Suc (outs c xs) else outs c xs)"

fun connects :: "event list \<Rightarrow> nat" where
  "connects [] = 0"
| "connects (Connect # xs) = Suc (connects xs)"
| "connects (In d qs # xs) = connects xs"
| "connects (Out d # xs) = connects xs"

text \<open>Events of clients that are connected, \<open>n\<close> of them at first, and send 1 to 163 valid requests.\<close>

fun proper :: "nat \<Rightarrow> event list \<Rightarrow> bool" where
  "proper n [] = True"
| "proper n (Connect # xs) = proper (Suc n) xs"
| "proper n (In c qs # xs) \<longleftrightarrow>
     c \<in> {1..n} \<and> 0 < length qs \<and> length qs \<le> 163 \<and> (\<forall>q \<in> set qs. valid_request q) \<and> proper n xs"
| "proper n (Out c # xs) \<longleftrightarrow> c \<in> {1..n} \<and> proper n xs"

section \<open>The simulation\<close>

definition watched :: "int \<Rightarrow> nat \<Rightarrow> (nat, 'k) epoll_fdes \<Rightarrow> bool" where
  "watched fd c F \<longleftrightarrow>
     0 \<le> fd \<and> nat fd < length (ep_table F) \<and> data_ptr (ep_table F ! nat fd) = Some c"

lemma get_fde_there:
  "0 \<le> fd \<Longrightarrow> nat fd < length evs \<Longrightarrow> get_fde fd evs = Done (evs ! nat fd, evs)"
  by (auto simp: get_fde_def Let_def)

text \<open>An operation on one descriptor leaves the pointers of all and the flags of the others alone.\<close>

definition table_kept :: "int \<Rightarrow> (nat, 'k) epoll_fdes \<Rightarrow> (nat, 'k) epoll_fdes \<Rightarrow> bool" where
  "table_kept fd F F' \<longleftrightarrow>
     (\<forall>g d. watched g d F \<longrightarrow> watched g d F') \<and>
     (\<forall>g. g \<noteq> fd \<longrightarrow> flags_of (ep_table F') g = flags_of (ep_table F) g)"

lemma table_kept_update:
  assumes "watched fd c F" and "data_ptr x = Some c" and "ep_table F' = (ep_table F)[nat fd := x]"
  shows "table_kept fd F F'"
  using assms by (auto simp: table_kept_def watched_def nth_list_update flags_of_update)

lemma table_kept_entry:
  "watched fd c F \<Longrightarrow> data_ptr x = Some c \<Longrightarrow>
   table_kept fd F (F\<lparr>ep_table := (ep_table F)[nat fd := x], ep_fd := k\<rparr>)"
  by (rule table_kept_update) simp_all

lemma table_kept_refl [simp]: "table_kept fd F F"
  by (simp add: table_kept_def watched_def)

lemma watched_set:
  assumes "watched fd c F"
  obtains r F' where "epoll_set K fd flags 1 (Some c) F = Done (r, F')" "table_kept fd F F'"
proof -
  from assms have g: "get_fde fd (ep_table F) = Done (ep_table F ! nat fd, ep_table F)"
    by (simp add: watched_def get_fde_there)
  obtain r F' where F': "epoll_set K fd flags 1 (Some c) F = Done (r, F')"
    using epoll_set_runs [of fd K flags 1 "Some c" F] assms by (auto simp: watched_def)
  moreover from this have "table_kept fd F F'"
    by (auto simp: epoll_set_def g Let_def table_kept_entry [OF assms] split: if_splits prod.splits)
  ultimately show thesis by (rule that)
qed

lemma watched_clr:
  assumes "watched fd c F"
  obtains r F' where "epoll_clr K fd flags F = Done (r, F')" "table_kept fd F F'"
proof -
  from assms have g: "get_fde fd (ep_table F) = Done (ep_table F ! nat fd, ep_table F)"
    and p: "data_ptr (ep_table F ! nat fd) = Some c"
    by (simp_all add: watched_def get_fde_there)
  obtain r F' where F': "epoll_clr K fd flags F = Done (r, F')"
    by (cases "epoll_clr K fd flags F")
      (auto simp: epoll_clr_def g Let_def split: if_splits prod.splits)
  moreover from this have "table_kept fd F F'"
    using p by (auto simp: epoll_clr_def g Let_def table_kept_entry [OF assms] split: if_splits prod.splits)
  ultimately show thesis by (rule that)
qed

lemma watched_wait:
  assumes "epoll_wait (Wait_ready [(fd, e)]) F = (ready, F')" and w: "watched fd c F"
  shows "watched g d F \<Longrightarrow> watched g d F'" and "flags_of (ep_table F') h = flags_of (ep_table F) h"
proof -
  from assms have t: "ep_table F' =
      (ep_table F)[nat fd := (ep_table F ! nat fd)\<lparr>ev_flags := fdevent_of_epoll e\<rparr>]"
    by (auto simp: epoll_wait_def)
  from table_kept_update [OF w _ t] w have k: "table_kept fd F F'" by (simp add: watched_def)
  then show "watched g d F \<Longrightarrow> watched g d F'" by (simp add: table_kept_def)
  show "flags_of (ep_table F') h = flags_of (ep_table F) h"
    using k t w by (cases "h = fd") (auto simp: table_kept_def watched_def flags_of_def)
qed

text \<open>A descriptor that has no flags yet gets its pointer.\<close>

lemma watched_new:
  assumes "0 \<le> fd" and "flags_of (ep_table F) fd = 0"
  obtains r F' where "epoll_set K fd FDEVENT_IN n (Some c) F = Done (r, F')" "watched fd c F'"
    "\<And>g d. watched g d F \<Longrightarrow> g \<noteq> fd \<Longrightarrow> watched g d F'"
    "\<And>g. g \<noteq> fd \<Longrightarrow> flags_of (ep_table F') g = flags_of (ep_table F) g"
proof -
  from get_fde_ok [OF assms(1), of "ep_table F"] obtain fde evs where
    g: "get_fde fd (ep_table F) = Done (fde, evs)" "nat fd < length evs"
      "length (ep_table F) \<le> length evs" "s_flags fde = 0" "flags_of evs = flags_of (ep_table F)"
    using assms(2) by auto
  have old: "evs ! i = ep_table F ! i" if "i < length (ep_table F)" for i
    using g(1) assms(1) that by (auto simp: get_fde_def Let_def nth_append)
  let ?x = "fde\<lparr>s_flags := s_flags fde OR FDEVENT_IN, data_num := n, data_ptr := Some c\<rparr>"
  obtain r F' where F': "epoll_set K fd FDEVENT_IN n (Some c) F = Done (r, F')"
    using epoll_set_runs [OF assms(1), of K FDEVENT_IN n "Some c" F] by blast
  then have t: "ep_table F' = evs[nat fd := ?x]"
    using g(4) by (auto simp: epoll_set_def g(1) Let_def split: prod.splits)
  show thesis
  proof (rule that [OF F'])
    show "watched fd c F'" using t g(2) assms(1) by (simp add: watched_def)
    show "watched h d F'" if "watched h d F" "h \<noteq> fd" for h d
      using that t g(3) old assms(1) by (auto simp: watched_def nth_list_update)
    show "flags_of (ep_table F') h = flags_of (ep_table F) h" if "h \<noteq> fd" for h
      using that t g(2,5) assms(1) by (simp add: flags_of_update)
  qed
qed

definition response_bytes :: "string \<Rightarrow> bool" where
  "response_bytes b \<longleftrightarrow> 0 < length b \<and> length b \<le> 8150 \<and> length b mod 50 = 0"

text \<open>What holds between the server, its environment and the abstract server before the events
  \<open>xs\<close>, with \<open>n\<close> clients connected: \<open>fd\<close> are the descriptors, those to come among them, \<open>peer\<close> the
  addresses, \<open>room\<close> what the sockets take.\<close>

fun arrivals :: "(nat \<Rightarrow> int) \<Rightarrow> (nat \<Rightarrow> string \<times> int) \<Rightarrow> nat \<Rightarrow> nat \<Rightarrow> accept_event list" where
  "arrivals fd peer n 0 = []"
| "arrivals fd peer n (Suc k) =
     Accepted (fd (Suc n)) (fst (peer (Suc n))) (snd (peer (Suc n))) # arrivals fd peer (Suc n) k"

definition kernel_ready :: "(nat \<Rightarrow> int) \<Rightarrow> (nat \<Rightarrow> string \<times> int) \<Rightarrow> nat \<Rightarrow> nat \<Rightarrow> event list \<Rightarrow> env \<Rightarrow> bool" where
  "kernel_ready fd peer room n xs E \<longleftrightarrow>
     accepts E = arrivals fd peer n (connects xs) \<and>
     (\<forall>c \<in> {1..n + connects xs}. reads E (fd c) = arriving c xs \<and>
        (\<exists>k \<ge> outs c xs. writes E (fd c) = replicate k (Accepts room)))"

definition connected :: "(nat \<Rightarrow> int) \<Rightarrow> abstract_server \<Rightarrow> ('k, 'st) NetworkServer \<Rightarrow> nat \<Rightarrow> bool" where
  "connected fd A S c \<longleftrightarrow>
     sock (conns S ! c) = fd c \<and> noblock_flag (conns S ! c) \<and> \<not> error_flag (conns S ! c) \<and>
     omsg_q (conns S ! c) = map Buffer_wrap (responses A c) \<and>
     (\<forall>b \<in> set (responses A c). response_bytes b)"

definition served ::
  "('h \<Rightarrow> string \<Rightarrow> string option) \<Rightarrow> ('h \<Rightarrow> bool) \<Rightarrow> (nat \<Rightarrow> int) \<Rightarrow> (nat \<Rightarrow> string \<times> int) \<Rightarrow> nat \<Rightarrow> nat \<Rightarrow>
   event list \<Rightarrow> ('k, 'h store_ptr) NetworkServer \<Rightarrow> env \<Rightarrow> abstract_server \<Rightarrow> bool" where
  "served contents valid fd peer room n xs S E A \<longleftrightarrow>
     (\<exists>h. store S = Live h \<and> valid h \<and> contents h = kv_map A) \<and> wide_values (kv_map A) \<and>
     client_conn S = 0 \<and> length (conns S) = Suc n \<and>
     (\<forall>c \<le> n. watched (fd c) c (fdes S)) \<and> (\<forall>c \<in> {1..n}. connected fd A S c) \<and>
     (\<forall>c \<in> {Suc n..n + connects xs}. 0 \<le> fd c \<and> flags_of (ep_table (fdes S)) (fd c) = 0 \<and>
        responses A c = []) \<and>
     kernel_ready fd peer room n xs E \<and> (\<forall>c \<in> {1..n + connects xs}. sent E (fd c) = replied A c)"

lemma kernel_readyD:
  assumes "kernel_ready fd peer room n xs E" and "c \<in> {1..n + connects xs}"
  shows "reads E (fd c) = arriving c xs" "\<exists>k \<ge> outs c xs. writes E (fd c) = replicate k (Accepts room)"
  using assms unfolding kernel_ready_def by blast+

lemma servedD:
  assumes "served contents valid fd peer room n xs S E A"
  shows "\<exists>h. store S = Live h \<and> valid h \<and> contents h = kv_map A" "wide_values (kv_map A)"
    "client_conn S = 0" "length (conns S) = Suc n"
    "c \<le> n \<Longrightarrow> watched (fd c) c (fdes S)" "c \<in> {1..n} \<Longrightarrow> connected fd A S c"
    "kernel_ready fd peer room n xs E" "c \<in> {1..n + connects xs} \<Longrightarrow> sent E (fd c) = replied A c"
  using assms by (simp_all add: served_def)

lemma handle_in:
  assumes pk: "packet_handler contents valid process" and inj: "inj_on fd {0..n + connects xs}"
    and alloc: "\<forall>n. can_alloc H n"
    and s: "served contents valid fd peer room n (In c qs # xs) S E A" and p: "proper n (In c qs # xs)"
    and ev: "ev_flags (ep_table (fdes S) ! nat (fd c)) = FDEVENT_IN"
  shows "\<exists>S' E'. handle_event H K process (fd c) S E = Some (Done (S', E')) \<and>
    served contents valid fd peer room n xs S' E' (abstract_step (In c qs) A)"
proof -
  let ?L = "conns S ! c" and ?m = "kv_map A"
  obtain m' rs where run: "spec_run ?m qs = (m', rs)" by (cases "spec_run ?m qs") auto
  from p have c: "c \<in> {1..n}" and qs: "0 < length qs" "length qs \<le> 163" "\<forall>q \<in> set qs. valid_request q"
    by simp_all
  from qs(3) have wf: "\<forall>q \<in> set qs. wf_send q" by (simp add: valid_request_def)
  from servedD(1,2) [OF s] obtain h where h: "store S = Live h" "valid h" "contents h = ?m" and w: "wide_values ?m"
    by auto
  have L: "c < length (conns S)" "client_conn S \<noteq> c" "watched (fd c) c (fdes S)"
    "sock ?L = fd c" "noblock_flag ?L" "\<not> error_flag ?L"
    "omsg_q ?L = map Buffer_wrap (responses A c)"
    using servedD(3-6) [OF s] c by (auto simp: connected_def)
  have rd: "reads E (fd c) = Arrived (wire qs) # Read_err EWOULDBLOCK # arriving c xs"
    using servedD(7) [OF s] c by (auto simp: kernel_ready_def)
  have len: "length (wire qs) = 50 * length qs" using length_wire [OF wf] by simp
  then have bs: "length (wire qs) < 8192" "length (wire qs) div MESSAGE_SIZE = length qs"
    using qs(2) by simp_all
  have "0 < length (wire qs)" unfolding len using qs(1) by simp
  then have ne: "wire qs \<noteq> []" by (rule length_greater_0_conv [THEN iffD1])
  from spec_run_wide [OF w qs(3)] run have rs: "wide_values m'" "length rs = length qs"
    "\<forall>r \<in> set rs. wf_send r" by auto
  have lr: "length (wire rs) = 50 * length qs" using length_wire [OF rs(3)] rs(2) by simp
  from packet_handler.frames_answered [OF pk h(2) qs(3) frames_wire [OF wf],
      of "fresh H (length qs * MESSAGE_SIZE)"] run h(3) obtain h' where
    h': "process_all process (wire qs) (fresh H (length qs * MESSAGE_SIZE)) [0..<length qs] (Live h) =
        Done (Live h', map encode_send rs)"
      "valid h'" "contents h' = m'" by auto
  have pa: "process_all process (wire qs)
      (fresh H (length (wire qs) div MESSAGE_SIZE * MESSAGE_SIZE))
      [0..<length (wire qs) div MESSAGE_SIZE] (store S) = Done (Live h', map encode_send rs)"
    unfolding bs(2) h(1) h'(1) ..
  from watched_set [OF L(3), of K FDEVENT_OUT] obtain r F' where
    F': "epoll_set K (fd c) FDEVENT_OUT 1 (Some c) (fdes S) = Done (r, F')" "table_kept (fd c) (fdes S) F'" .
  let ?S = "(put_conn c (?L\<lparr>omsg_q := omsg_q ?L @ [Buffer_wrap (wire rs)]\<rparr>) S)
    \<lparr>store := Live h', fdes := F'\<rparr>"
  let ?E = "E\<lparr>reads := (reads E)(fd c := arriving c xs)\<rparr>"
  have "req_recv H K process c S E = Some (Done (CO_OK, ?S, ?E))"
    using req_recv_runs [OF refl L(5) ne bs(1) alloc _ pa, of E "arriving c xs" K r F'] L(4) rd F'(1)
    by simp
  then have "handle_event H K process (fd c) S E = Some (Done (?S, ?E))"
    using L(2,3,6) ev by (simp add: handle_event_def watched_def server_recv_def)
  moreover have "served contents valid fd peer room n xs ?S ?E (abstract_step (In c qs) A)"
  proof -
    have "fd d \<noteq> fd c" if "d \<in> {0..n + connects xs}" "d \<noteq> c" for d
      using inj c that by (auto dest: inj_onD)
    moreover have "response_bytes (wire rs)"
      unfolding response_bytes_def lr using qs(1,2) by simp
    ultimately show ?thesis
      using s c run h'(2,3) rs(1) F'(2) L(1)
      by (auto simp: served_def connected_def kernel_ready_def table_kept_def put_conn_def
          nth_list_update)
  qed
  ultimately show ?thesis by blast
qed

lemma handle_out:
  assumes inj: "inj_on fd {0..n + connects xs}" and room: "8150 \<le> room"
    and s: "served contents valid fd peer room n (Out c # xs) S E A" and p: "proper n (Out c # xs)"
    and ev: "ev_flags (ep_table (fdes S) ! nat (fd c)) = FDEVENT_OUT"
  shows "\<exists>S' E'. handle_event H K process (fd c) S E = Some (Done (S', E')) \<and>
    served contents valid fd peer room n xs S' E' (abstract_step (Out c) A)"
proof -
  let ?L = "conns S ! c"
  from p have c: "c \<in> {1..n}" by simp
  have L: "c < length (conns S)" "client_conn S \<noteq> c" "watched (fd c) c (fdes S)"
    "sock ?L = fd c" "noblock_flag ?L" "\<not> error_flag ?L"
    "omsg_q ?L = map Buffer_wrap (responses A c)" "\<forall>b \<in> set (responses A c). response_bytes b"
    using servedD(3-6) [OF s] c by (auto simp: connected_def)
  from kernel_readyD(2) [OF servedD(7) [OF s], of c] c obtain k where
    "Suc (outs c xs) \<le> k" "writes E (fd c) = replicate k (Accepts room)" by auto
  then obtain k where k: "outs c xs \<le> k"
    "writes E (fd c) = Accepts room # replicate k (Accepts room)" by (cases k) auto
  have run: "handle_event H K process (fd c) S E =
      and_then (rsp_send H K c S E) (\<lambda>(_, S1, E1). Some (Done (S1, E1)))"
    using L(2,3,6) ev by (simp add: handle_event_def watched_def server_send_def)
  have other: "fd d \<noteq> fd c" if "d \<in> {0..n + connects xs}" "d \<noteq> c" for d
    using inj c that by (auto dest: inj_onD)
  have left: "\<exists>j \<ge> outs d xs. writes E (fd d) = replicate j (Accepts room)"
    if d: "d \<in> {1..n + connects xs}" for d
  proof -
    from kernel_readyD(2) [OF servedD(7) [OF s], of d] d obtain j where
      "outs d (Out c # xs) \<le> j" "writes E (fd d) = replicate j (Accepts room)" by auto
    then show ?thesis by (intro exI [of _ j]) (simp split: if_splits)
  qed
  show ?thesis
  proof (cases "responses A c")
    case Nil
    from watched_clr [OF L(3), of K FDEVENT_OUT] obtain r F' where
      F': "epoll_clr K (fd c) FDEVENT_OUT (fdes S) = Done (r, F')" "table_kept (fd c) (fdes S) F'" .
    have "handle_event H K process (fd c) S E = Some (Done (S\<lparr>fdes := F'\<rparr>, E))"
      using run L(4,7) Nil F'(1) by (simp add: rsp_send_def)
    moreover have "kernel_ready fd peer room n xs E"
      using kernel_readyD(1) [OF servedD(7) [OF s]] servedD(7) [OF s] left by (simp add: kernel_ready_def)
    then have "served contents valid fd peer room n xs (S\<lparr>fdes := F'\<rparr>) E (abstract_step (Out c) A)"
      using s c F'(2) Nil other
      by (auto simp: served_def connected_def table_kept_def)
    ultimately show ?thesis by blast
  next
    case (Cons b bs)
    with L(8) have b: "b \<noteq> []" "length b \<le> 8150" "length b mod 50 = 0" and bs: "\<forall>b \<in> set bs. response_bytes b"
      by (auto simp: response_bytes_def)
    let ?S = "put_conn c (?L\<lparr>omsg_q := map Buffer_wrap bs\<rparr>) S"
    let ?E = "E\<lparr>writes := (writes E)(fd c := replicate k (Accepts room)),
      sent := (sent E)(fd c := sent E (fd c) @ b)\<rparr>"
    have "length b \<noteq> 1024" using b(3) by auto
    with rsp_send_runs [OF refl L(5), of b "map Buffer_wrap bs" room E "replicate k (Accepts room)" H K]
    have "rsp_send H K c S E = Some (Done (CO_OK, ?S, ?E))"
      using L(4,7) Cons b(1,2) room k(2) by simp
    then have "handle_event H K process (fd c) S E = Some (Done (?S, ?E))" using run by simp
    moreover have "kernel_ready fd peer room n xs ?E"
      unfolding kernel_ready_def
    proof (intro conjI ballI)
      fix d assume d: "d \<in> {1..n + connects xs}"
      show "\<exists>j \<ge> outs d xs. writes ?E (fd d) = replicate j (Accepts room)"
        using k(1) left [OF d] other [of d] d by (cases "d = c") auto
    qed (use servedD(7) [OF s] in \<open>simp_all add: kernel_ready_def\<close>)
    then have "served contents valid fd peer room n xs ?S ?E (abstract_step (Out c) A)"
      using s c Cons other bs L(1)
      by (auto simp: served_def connected_def put_conn_def nth_list_update)
    ultimately show ?thesis by blast
  qed
qed

lemma handle_connect:
  assumes inj: "inj_on fd {0..Suc n + connects xs}"
    and s: "served contents valid fd peer room n (Connect # xs) S E A"
  shows "\<exists>S' E'. handle_event H K process (fd 0) S E = Some (Done (S', E')) \<and>
    served contents valid fd peer room (Suc n) xs S' E' A"
proof -
  let ?c = "Suc n" and ?ps = "arrivals fd peer (Suc n) (connects xs)"
  let ?L = "noblock True ((Link_new H)\<lparr>sock := fd ?c, remote_ip := fst (peer ?c), remote_port := snd (peer ?c)\<rparr>)"
  let ?S = "S\<lparr>conns := conns S @ [?L]\<rparr>" and ?E = "E\<lparr>accepts := ?ps\<rparr>"
  have "accepts E = Accepted (fd ?c) (fst (peer ?c)) (snd (peer ?c)) # ?ps"
    using servedD(7) [OF s] by (simp add: kernel_ready_def)
  then have acc: "accept_conn H S E = Some (Some ?c, ?S, ?E)"
    using servedD(4) [OF s] by (simp add: accept_conn_def)
  have L: "conns ?S ! ?c = ?L" "sock ?L = fd ?c" "noblock_flag ?L" "\<not> error_flag ?L" "omsg_q ?L = []"
    using servedD(4) [OF s] by (simp_all add: nth_append noblock_def Link_new_def)
  have other: "fd d \<noteq> fd ?c" if "d \<in> {0..Suc n + connects xs}" "d \<noteq> ?c" for d
    using inj that by (auto dest: inj_onD)
  have new: "0 \<le> fd ?c" "flags_of (ep_table (fdes S)) (fd ?c) = 0"
    using s by (simp_all add: served_def)
  from watched_new [OF new, of K 1 ?c] obtain r F' where
    F': "epoll_set K (fd ?c) FDEVENT_IN 1 (Some ?c) (fdes S) = Done (r, F')" "watched (fd ?c) ?c F'"
      "\<And>g d. watched g d (fdes S) \<Longrightarrow> g \<noteq> fd ?c \<Longrightarrow> watched g d F'"
      "\<And>g. g \<noteq> fd ?c \<Longrightarrow> flags_of (ep_table F') g = flags_of (ep_table (fdes S)) g" by blast
  let ?S' = "?S\<lparr>conn_count := conn_count S + 1, fdes := F'\<rparr>"
  have "watched (fd 0) 0 (fdes S)" using servedD(5) [OF s] by simp
  then have "handle_event H K process (fd 0) S E = Some (Done (?S', ?E))"
    using servedD(3) [OF s] acc L(1,2) F'(1) by (simp add: handle_event_def watched_def)
  moreover have "served contents valid fd peer room (Suc n) xs ?S' ?E A"
    unfolding served_def
  proof (intro conjI)
    show "\<forall>c \<le> Suc n. watched (fd c) c (fdes ?S')"
      using servedD(5) [OF s] F'(2,3) other by (auto simp: le_Suc_eq)
    have "connected fd A ?S' c" if c: "c \<in> {1..n}" for c
      using servedD(4) [OF s] servedD(6) [OF s c] c by (simp add: connected_def nth_append)
    moreover have "connected fd A ?S' ?c"
      using L s by (simp add: connected_def served_def)
    ultimately show "\<forall>c \<in> {1..Suc n}. connected fd A ?S' c" by (auto simp: atLeastAtMostSuc_conv)
    show "kernel_ready fd peer room (Suc n) xs ?E"
      using kernel_readyD [OF servedD(7) [OF s]] by (simp add: kernel_ready_def)
    show "\<forall>c \<in> {Suc (Suc n)..Suc n + connects xs}. 0 \<le> fd c \<and>
        flags_of (ep_table (fdes ?S')) (fd c) = 0 \<and> responses A c = []"
      using s F'(4) other by (auto simp: served_def)
  qed (use s in \<open>simp_all add: served_def\<close>)
  ultimately show ?thesis by blast
qed

fun connected_after :: "nat \<Rightarrow> event \<Rightarrow> nat" where
  "connected_after n Connect = Suc n"
| "connected_after n (In c qs) = n"
| "connected_after n (Out c) = n"

lemma serve_event:
  assumes pk: "packet_handler contents valid process" and inj: "inj_on fd {0..n + connects (x # xs)}"
    and alloc: "\<forall>n. can_alloc H n" and room: "8150 \<le> room"
    and s: "served contents valid fd peer room n (x # xs) S E A" and p: "proper n (x # xs)"
  shows "\<exists>S' E'. serve H K process (report fd x # as) S E =
      serve H K process as S' E' \<and>
    served contents valid fd peer room (connected_after n x) xs S' E' (abstract_step x A)"
proof -
  obtain c e where ce: "c \<le> n" "report fd x = Wait_ready [(fd c, e)]"
    "fdevent_of_epoll e = (case x of Connect \<Rightarrow> FDEVENT_IN | In d qs \<Rightarrow> FDEVENT_IN | Out d \<Rightarrow> FDEVENT_OUT)"
    "case x of Connect \<Rightarrow> c = 0 | In d qs \<Rightarrow> d = c | Out d \<Rightarrow> d = c"
    using p by (cases x) (auto simp: fdevent_of_epoll_def)
  have w: "watched (fd c) c (fdes S)" using servedD(5) [OF s ce(1)] .
  obtain F where F: "epoll_wait (Wait_ready [(fd c, e)]) (fdes S) = (Some [fd c], F)"
    by (simp add: epoll_wait_def)
  have ev: "ev_flags (ep_table F ! nat (fd c)) = fdevent_of_epoll e"
    using F w by (auto simp: epoll_wait_def watched_def)
  have s': "served contents valid fd peer room n (x # xs) (S\<lparr>fdes := F\<rparr>) E A"
    using s watched_wait [OF F w] by (simp add: served_def connected_def)
  have "\<exists>S' E'. handle_event H K process (fd c) (S\<lparr>fdes := F\<rparr>) E = Some (Done (S', E')) \<and>
    served contents valid fd peer room (connected_after n x) xs S' E' (abstract_step x A)"
    (is "\<exists>S' E'. ?handled S' E'")
  proof (cases x)
    case Connect
    with inj s' ce(4) handle_connect [of fd n xs contents valid peer room "S\<lparr>fdes := F\<rparr>" E A H K]
    show ?thesis by simp
  next
    case (In d qs)
    with inj ce ev p s' handle_in [OF pk _ alloc, of fd n xs peer room d qs "S\<lparr>fdes := F\<rparr>" E A K]
    show ?thesis by simp
  next
    case (Out d)
    with inj ce ev p s' handle_out [OF _ room, of fd n xs contents valid peer d "S\<lparr>fdes := F\<rparr>" E A H K]
    show ?thesis by simp
  qed
  then obtain S' E' where "?handled S' E'" by blast
  moreover from this ce(2) F have "serve H K process (report fd x # as) S E =
      serve H K process as S' E'" by simp
  ultimately show ?thesis by blast
qed

lemma serve_events:
  assumes pk: "packet_handler contents valid process" and alloc: "\<forall>n. can_alloc H n" and room: "8150 \<le> room"
  shows "inj_on fd {0..n + connects xs} \<Longrightarrow> served contents valid fd peer room n xs S E A \<Longrightarrow> proper n xs \<Longrightarrow>
    \<exists>S' E'. serve H K process (map (report fd) xs @ as) S E =
        serve H K process as S' E' \<and>
      served contents valid fd peer room (n + connects xs) [] S' E' (abstract_run xs A)"
proof (induction xs arbitrary: n S E A)
  case Nil
  then show ?case by (auto simp: abstract_run_def)
next
  case (Cons x xs)
  from serve_event [OF pk Cons.prems(1) alloc room Cons.prems(2,3), of K "map (report fd) xs @ as"]
  obtain S1 E1 where
    1: "serve H K process (report fd x # map (report fd) xs @ as) S E =
        serve H K process (map (report fd) xs @ as) S1 E1"
      "served contents valid fd peer room (connected_after n x) xs S1 E1 (abstract_step x A)" by blast
  have n: "connected_after n x + connects xs = n + connects (x # xs)"
    "proper (connected_after n x) xs"
    using Cons.prems(3) by (cases x; simp)+
  from Cons.IH [OF _ 1(2) n(2)] Cons.prems(1) n(1) 1(1) show ?case
    by (simp add: abstract_run_def)
qed

section \<open>What the clients see\<close>

fun all_requests :: "event list \<Rightarrow> send_message list" where
  "all_requests [] = []"
| "all_requests (Connect # xs) = all_requests xs"
| "all_requests (In c qs # xs) = qs @ all_requests xs"
| "all_requests (Out c # xs) = all_requests xs"

text \<open>The replies to one client, when the requests of all of them run on one map.\<close>

fun answers :: "nat \<Rightarrow> (string \<rightharpoonup> string) \<Rightarrow> event list \<Rightarrow> send_message list" where
  "answers c m [] = []"
| "answers c m (Connect # xs) = answers c m xs"
| "answers c m (In d qs # xs) =
     (let (m', rs) = spec_run m qs in (if c = d then rs else []) @ answers c m' xs)"
| "answers c m (Out d # xs) = answers c m xs"

lemma abstract_run_Cons [simp]: "abstract_run (x # xs) A = abstract_run xs (abstract_step x A)"
  by (simp add: abstract_run_def)

lemma abstract_run_Nil [simp]: "abstract_run [] A = A"
  by (simp add: abstract_run_def)

lemma abstract_run_map:
  "kv_map (abstract_run xs A) = fst (spec_run (kv_map A) (all_requests xs))"
proof (induction xs arbitrary: A rule: all_requests.induct)
  case (3 c qs xs)
  then show ?case by (simp add: spec_run_append split: prod.split)
next
  case (4 c xs)
  then show ?case by (cases "responses A c") simp_all
qed simp_all

lemma abstract_run_replies:
  "replied (abstract_run xs A) c @ concat (responses (abstract_run xs A) c) =
     replied A c @ concat (responses A c) @ wire (answers c (kv_map A) xs)"
proof (induction xs arbitrary: A rule: all_requests.induct)
  case (3 d qs xs)
  then show ?case by (auto split: prod.split)
next
  case (4 d xs)
  then show ?case by (cases "responses A d") auto
qed simp_all

definition abstract_new :: abstract_server where
  "abstract_new = \<lparr>kv_map = Map.empty, responses = (\<lambda>c. []), replied = (\<lambda>c. [])\<rparr>"

text \<open>The server as \<open>main\<close> makes it, with its listening socket subscribed.\<close>

lemma served_start:
  fixes K :: "'k epoll"
  assumes ck: "cuckoohash_map ck contents valid" and inj: "inj_on fd {0..connects xs}"
    and fds: "\<forall>c \<le> connects xs. 0 \<le> fd c" and L: "sock L = fd 0"
    and E: "kernel_ready fd peer room 0 xs E" "\<forall>c \<in> {1..connects xs}. sent E (fd c) = []"
  shows "\<exists>r F. epoll_set K (fd 0) FDEVENT_IN 0 (Some 0) (epoll_new K) = Done (r, F) \<and>
    served contents valid fd peer room 0 xs
      \<lparr>fdes = F, client_conn = 0, conn_count = 0, conns = [L], store = Live (ck_new ck)\<rparr> E abstract_new"
proof -
  have z: "flags_of (ep_table (epoll_new K :: (nat, 'k) epoll_fdes)) g = 0" for g
    by (simp add: epoll_new_def flags_of_def)
  have "0 \<le> fd 0" using fds by simp
  from watched_new [OF this z, of K 0 0] obtain r and F :: "(nat, 'k) epoll_fdes" where
    F: "epoll_set K (fd 0) FDEVENT_IN 0 (Some 0) (epoll_new K) = Done (r, F)" "watched (fd 0) 0 F"
      "\<And>g. g \<noteq> fd 0 \<Longrightarrow> flags_of (ep_table F) g = 0" using z by metis
  have "fd c \<noteq> fd 0" if "c \<in> {1..connects xs}" for c
    using inj that by (auto dest: inj_onD)
  moreover have "valid (ck_new ck)" "contents (ck_new ck) = Map.empty"
    using cuckoohash_map.new_doc [OF ck] by simp_all
  ultimately show ?thesis
    using F fds E by (intro exI [of _ r] exI [of _ F])
      (auto simp: served_def abstract_new_def wide_values_def)
qed

text \<open>From \<open>main\<close> to the failure of \<open>epoll_wait\<close>.\<close>

lemma server_runs_clients:
  assumes "cuckoohash_map ck contents valid" and "packet_handler contents valid process"
    and "\<forall>n. can_alloc H n" and "8150 \<le> room"
    and "Link_listen H a ''192.168.0.151'' 12345 = (Some L, closed)" and "sock L = fd 0"
    and "inj_on fd {0..connects xs}" and "\<forall>c \<le> connects xs. 0 \<le> fd c"
    and "kernel_ready fd peer room 0 xs E" and "\<forall>c \<in> {1..connects xs}. sent E (fd c) = []"
    and "proper 0 xs"
  shows "\<exists>S' E' h. server_main H K ck process a (map (report fd) xs @ [Wait_failed False]) E =
      Some (Done (0, S', E')) \<and>
    store S' = Live h \<and> contents h = fst (spec_run Map.empty (all_requests xs)) \<and>
    (\<forall>c \<in> {1..connects xs}. sent E' (fd c) @ concat (responses (abstract_run xs abstract_new) c) =
       wire (answers c Map.empty xs))"
proof -
  from served_start [OF assms(1,7,8,6,9,10), of K] obtain r F where
    F: "epoll_set K (fd 0) FDEVENT_IN 0 (Some 0) (epoll_new K) = Done (r, F)" and
    s: "served contents valid fd peer room 0 xs
      \<lparr>fdes = F, client_conn = 0, conn_count = 0, conns = [L], store = Live (ck_new ck)\<rparr> E abstract_new"
    by blast
  from serve_events [OF assms(2-4) _ s assms(11), of K "[Wait_failed False]"] assms(7) obtain S' E' where
    1: "serve H K process (map (report fd) xs @ [Wait_failed False])
        \<lparr>fdes = F, client_conn = 0, conn_count = 0, conns = [L], store = Live (ck_new ck)\<rparr> E =
      serve H K process [Wait_failed False] S' E'"
    and 2: "served contents valid fd peer room (connects xs) [] S' E' (abstract_run xs abstract_new)"
    by auto
  let ?S = "S'\<lparr>fdes := (fdes S')\<lparr>ep_ready := []\<rparr>\<rparr>"
  from servedD(1) [OF 2] obtain h where h: "store S' = Live h" "contents h = kv_map (abstract_run xs abstract_new)"
    by blast
  have "server_main H K ck process a (map (report fd) xs @ [Wait_failed False]) E =
      Some (Done (0, ?S, E'))"
    using 1 assms(5,6) F by (simp add: server_main_def NetworkServer_new_def main_loop_def epoll_wait_def)
  moreover have "sent E' (fd c) @ concat (responses (abstract_run xs abstract_new) c) =
      wire (answers c Map.empty xs)" if "c \<in> {1..connects xs}" for c
    using servedD(8) [OF 2, of c] abstract_run_replies [of xs abstract_new c] that
    by (simp add: abstract_new_def)
  ultimately show ?thesis using h
    by (intro exI [of _ ?S] exI [of _ E'] exI [of _ h])
      (simp add: abstract_run_map abstract_new_def)
qed

section \<open>Properties\<close>

text \<open>C3. The server serialises its clients, whatever function \<open>msg.cpp\<close> calls, as long as that keeps
  the promise of \<open>packet_handler\<close>. From \<open>main\<close> on, for any number of clients that connect and stay
  connected, and any order in which \<open>epoll_wait\<close> reports, one at a time, that a client connects, that
  a segment of 1 to 163 whole valid messages came in, or that there is room to send (then for a whole
  response), the event loop over the epoll back end runs through without a fault until \<open>epoll_wait\<close>
  fails; the store ends as the map on which all requests ran in the order of their arrival, and what
  every client was sent, followed by what is still queued for it, is exactly the replies of that map to
  its own requests, in order.\<close>

theorem server_serialises_clients:
  assumes "cuckoohash_map ck contents valid" and "packet_handler contents valid process"
    and "\<forall>n. can_alloc H n" and "8150 \<le> room"
    and "Link_listen H a ''192.168.0.151'' 12345 = (Some L, closed)" and "sock L = fd 0"
    and "inj_on fd {0..connects xs}" and "\<forall>c \<le> connects xs. 0 \<le> fd c"
    and "kernel_ready fd peer room 0 xs E" and "\<forall>c \<in> {1..connects xs}. sent E (fd c) = []"
    and "proper 0 xs"
  shows "\<exists>S' E' h. server_main H K ck process a (map (report fd) xs @ [Wait_failed False]) E =
      Some (Done (0, S', E')) \<and>
    store S' = Live h \<and> contents h = fst (spec_run Map.empty (all_requests xs)) \<and>
    (\<forall>c \<in> {1..connects xs}. sent E' (fd c) @ concat (responses (abstract_run xs abstract_new) c) =
       wire (answers c Map.empty xs))"
  by (rule server_runs_clients [OF assms])

text \<open>Two clients on descriptors 7 and 8: the first stores a value, the second asks for it.\<close>

definition two_fds :: "nat \<Rightarrow> int" where
  "two_fds c = (if c = 0 then 3 else if c = 1 then 7 else 8)"

definition sample_put :: send_message where
  "sample_put = \<lparr>operation = CHR 0x01, keepalive = CHR 0x01, key = replicate 16 CHR ''k'',
     msg_value = replicate 32 CHR ''v''\<rparr>"

definition sample_get :: send_message where
  "sample_get = \<lparr>operation = CHR 0x00, keepalive = CHR 0x01, key = replicate 16 CHR ''k'',
     msg_value = replicate 32 CHR 0x00\<rparr>"

definition two_events :: "event list" where
  "two_events = [Connect, In 1 [sample_put], Connect, In 2 [sample_get], Out 2, Out 1]"

definition two_env :: env where
  "two_env = \<lparr>accepts = arrivals two_fds (\<lambda>c. (''10.0.0.1'', 4000)) 0 2,
     reads = (\<lambda>d. arriving (if d = 7 then 1 else 2) two_events),
     writes = (\<lambda>d. [Accepts 8192]), sent = (\<lambda>d. [])\<rparr>"

definition two_answers :: socket_answers where
  "two_answers = \<lparr>ans_socket = 3, ans_setsockopt = True, ans_bind = True, ans_listen = True,
     ans_connect = True\<rparr>"

lemma two_operations:
  "operation_of CHR 0x01 = Some PUT" "operation_of CHR 0x00 = Some GET"
  by (simp_all add: operation_of_def schar_def code_of_def)

lemma two_ready: "kernel_ready two_fds (\<lambda>c. (''10.0.0.1'', 4000)) 8192 0 two_events two_env"
proof -
  have "\<exists>n \<ge> Suc 0. [Accepts 8192] = replicate n (Accepts 8192)"
    by (rule exI [of _ 1]) simp
  moreover have "{Suc 0..2} = {1, 2}" by auto
  ultimately show ?thesis
    by (simp add: kernel_ready_def two_env_def two_events_def two_fds_def numeral_2_eq_2)
qed

lemma server_serialises_clients_witness:
  "\<exists>S' E' h. server_main sample_heap map_epoll alist_cuckoo (library_handler alist_cuckoo) two_answers
      (map (report two_fds) two_events @ [Wait_failed False]) two_env = Some (Done (0, S', E')) \<and>
    store S' = Live h \<and> map_of h = [replicate 16 CHR ''k'' \<mapsto> replicate 32 CHR ''v''] \<and>
    sent E' 8 = encode_send (sample_get\<lparr>msg_value := replicate 32 CHR ''v''\<rparr>)"
proof -
  have p: "proper 0 two_events"
    by (simp add: two_events_def valid_request_def wf_send_def sample_put_def sample_get_def two_operations)
  have n: "connects two_events = 2" by (simp add: two_events_def)
  have i: "inj_on two_fds {0..connects two_events}"
    by (auto simp: n two_fds_def inj_on_def)
  obtain L closed where L: "Link_listen sample_heap two_answers ''192.168.0.151'' 12345 = (Some L, closed)"
    "sock L = two_fds 0"
    by (simp add: Link_listen_def two_answers_def two_fds_def)
  have v: "all_requests two_events = [sample_put, sample_get]"
    "fst (spec_run Map.empty [sample_put, sample_get]) = [replicate 16 CHR ''k'' \<mapsto> replicate 32 CHR ''v'']"
    "answers 2 Map.empty two_events = [sample_get\<lparr>msg_value := replicate 32 CHR ''v''\<rparr>]"
    "responses (abstract_run two_events abstract_new) 2 = []"
    by (simp_all add: two_events_def abstract_new_def sample_put_def sample_get_def two_operations
        spec_reply_def)
  have fds: "\<forall>c \<le> connects two_events. 0 \<le> two_fds c" by (simp add: two_fds_def)
  have "\<forall>n. can_alloc sample_heap n" "(8150 :: nat) \<le> 8192"
    "\<forall>c \<in> {1..connects two_events}. sent two_env (two_fds c) = []" by (simp_all add: two_env_def)
  from server_serialises_clients [OF ref.cuckoohash_map_axioms ref.library.packet_handler_axioms this(1,2) L i fds two_ready this(3) p, of map_epoll]
  obtain S' E' h where "server_main sample_heap map_epoll alist_cuckoo (library_handler alist_cuckoo) two_answers
      (map (report two_fds) two_events @ [Wait_failed False]) two_env = Some (Done (0, S', E'))"
    "store S' = Live h" "map_of h = fst (spec_run Map.empty (all_requests two_events))"
    "\<forall>c \<in> {1..2}. sent E' (two_fds c) @ concat (responses (abstract_run two_events abstract_new) c) =
       wire (answers c Map.empty two_events)"
    unfolding n by blast
  moreover have "sent E' 8 = encode_send (sample_get\<lparr>msg_value := replicate 32 CHR ''v''\<rparr>)"
  proof -
    have "(2 :: nat) \<in> {1..2}" "two_fds 2 = 8" by (simp_all add: two_fds_def)
    with bspec [OF calculation(4) this(1)] show ?thesis unfolding v(3,4) by simp
  qed
  ultimately show ?thesis unfolding v(1,2) by blast
qed

end
