(* ===== verification/Pipeline.thy ===== *)
theory Pipeline
  imports ServedStore RunBenchmark
begin

text \<open>
  From the generator to the store: \<open>testclient/createTest.c\<close> writes a file, \<open>testclient/main.cpp\<close>
  replays it, and the event-loop server of \<open>server-5204\<close> answers from the store of \<open>kvstorelib\<close>. A
  file of writes only (no reads, no deletes) is one that the client can parse; on a store that was
  empty its first round must succeed throughout.
\<close>

section \<open>A generator that only writes\<close>

definition text_over :: "string \<Rightarrow> nat \<Rightarrow> string \<Rightarrow> bool" where
  "text_over letters n s \<longleftrightarrow> length s = n \<and> set s \<subseteq> set letters"

lemma rand_text_over: "rand_text rnd letters n p = Done (s, q) \<Longrightarrow> text_over letters n s"
proof (induction n arbitrary: p s q)
  case (Suc n)
  then obtain s' where s: "rand_text rnd letters n (Suc p) = Done (s', q)" "letters \<noteq> []"
    "s = letters ! (rnd p mod length letters) # s'"
    by (auto split: if_splits sum.splits)
  with Suc.IH [OF s(1)] show ?case by (simp add: text_over_def)
qed (simp add: text_over_def)

text \<open>Options without reads, deletes and failures; a key begins with the starting character of \<open>-s\<close>, when
  there is one, and is random otherwise.\<close>

definition write_only :: "gen_options \<Rightarrow> bool" where
  "write_only o1 \<longleftrightarrow> readProb o1 \<le> 1 \<and> deletechance o1 < 0 \<and> failurerate o1 \<le> 0 \<and>
     (\<forall>s. startchar o1 = Some s \<longrightarrow> length s = 1)"

definition letters_of :: "gen_options \<Rightarrow> string" where
  "letters_of o1 = alphabet o1 @ (case startchar o1 of None \<Rightarrow> [] | Some s \<Rightarrow> s)"

definition key_text :: "gen_options \<Rightarrow> nat \<Rightarrow> string \<Rightarrow> bool" where
  "key_text o1 n k \<longleftrightarrow>
     text_over (letters_of o1) n k \<and> (\<forall>s. startchar o1 = Some s \<longrightarrow> 0 < n \<longrightarrow> take 1 k = s)"

lemma rand_text_letters:
  "rand_text rnd (alphabet o1) n p = Done (s, q) \<Longrightarrow> text_over (letters_of o1) n s"
  using rand_text_over [of rnd "alphabet o1" n p s q] by (auto simp: text_over_def letters_of_def)

lemma choose_key_text:
  assumes "write_only o1" and "choose_key o1 None rnd ko g = Done g'"
  shows "key_text o1 (nat ko) (keystring g')"
proof (cases "startchar o1")
  case None
  with assms(2) show ?thesis
    by (auto simp: choose_key_def key_text_def
        dest: rand_text_letters split: sum.splits prod.splits)
next
  case (Some c)
  with assms(1) have c: "length c = 1" "set c \<subseteq> set (letters_of o1)"
    by (simp_all add: write_only_def letters_of_def)
  show ?thesis
  proof (cases "ko \<le> 0")
    case True
    with Some assms(2) show ?thesis by (auto simp: choose_key_def key_text_def text_over_def)
  next
    case False
    with Some assms(2) obtain s p where
      s: "rand_text rnd (alphabet o1) (nat ko - 1) (pos g) = Done (s, p)" "keystring g' = c @ s"
      by (auto simp: choose_key_def split: sum.splits prod.splits)
    from rand_text_letters [OF s(1)] c False s(2) Some show ?thesis
      by (auto simp: key_text_def text_over_def)
  qed
qed

lemma choose_mode_writes:
  "write_only o1 \<Longrightarrow> mode (choose_mode o1 rnd g) = CHR ''w'' \<and> keymap (choose_mode o1 rnd g) = keymap g"
  using choose_mode_modes [of o1 rnd g]
  by (simp add: choose_mode_def write_only_def percent_def drawn_def Let_def)

lemma check_write_key:
  assumes "visits_all order" "distinct (keymap g)" "failurerate o1 \<le> 0"
    and "check_write o1 order rnd g = Done g'" and "mode g = CHR ''w''"
  shows "keystring g' = keystring g \<or> keystring g' \<in> set (keymap g)"
proof -
  let ?g2 = "drawn (drawn g)"
  have "0 \<le> percent rnd g" by (simp add: percent_def)
  with assms(3) have "failurerate o1 \<le> percent rnd g" by simp
  note open_write = assms(4) [unfolded check_write_def Let_def] assms(5) this
  show ?thesis
  proof (cases "keystring g \<in> set (keymap g)")
    case True
    with open_write have "g' = g\<lparr>opcode := 3\<rparr>" by simp
    then show ?thesis by simp
  next
    case F: False
    show ?thesis
    proof (cases "percent rnd (drawn g) \<le> updatechance o1 \<and> size_gt (keymap g) (writeamount o1)")
      case True
      with open_write F have "pick_key order rnd (?g2\<lparr>opcode := 3\<rparr>) = Done g'" by simp
      from pick_key_known [OF assms(1) _ this] assms(2) show ?thesis by (simp add: drawn_def)
    next
      case False
      with open_write F have "g' = add_key (?g2\<lparr>opcode := 1\<rparr>)"
        by (simp only: not_True_eq_False if_False if_True simp_thms sum.inject)
      then show ?thesis by (simp add: drawn_def add_key_def)
    qed
  qed
qed

fun write_test :: "gen_options \<Rightarrow> nat \<Rightarrow> nat \<Rightarrow> test \<Rightarrow> bool" where
  "write_test o1 n l (op, k, None) = False"
| "write_test o1 n l (op, k, Some v) \<longleftrightarrow>
     (op = 1 \<or> op = 3) \<and> key_text o1 n k \<and> text_over (letters_of o1) l v"

text \<open>A test over an alphabet.\<close>

definition spelled :: "string \<Rightarrow> test \<Rightarrow> bool" where
  "spelled letters t \<longleftrightarrow> (case t of (op, k, v) \<Rightarrow> set k \<subseteq> set letters \<and> (\<forall>x. v = Some x \<longrightarrow> set x \<subseteq> set letters))"

lemma write_test_spelled: "write_test o1 n l t \<Longrightarrow> spelled (letters_of o1) t"
  by (cases t rule: fits.cases) (auto simp: spelled_def text_over_def key_text_def)

lemma one_test_writes:
  assumes ord: "visits_all order" and o1: "write_only o1"
    and inv: "distinct (keymap g)" "\<forall>k \<in> set (keymap g). key_text o1 (nat ko) k"
    and t: "one_test o1 None order rnd ko vo g = Done (g', t)"
  shows "write_test o1 (nat ko) (nat vo) t \<and> distinct (keymap g') \<and>
    (\<forall>k \<in> set (keymap g'). key_text o1 (nat ko) k)"
proof -
  from t obtain g1 g2 g3 g4 where
    g1: "choose_key o1 None rnd ko (choose_mode o1 rnd g) = Done g1" and
    g2: "check_read o1 order rnd g1 = Done g2" and
    g3: "check_delete order rnd g2 = Done g3" and
    g4: "check_write o1 order rnd g3 = Done g4" and
    res: "mode g4 \<noteq> CHR ''w'' \<or> (\<exists>v p. rand_text rnd (alphabet o1) (nat vo) (pos g4) = Done (v, p) \<and>
      g' = g4\<lparr>pos := p\<rparr> \<and> t = (opcode g4, keystring g4, Some v))"
    by (auto simp: one_test_def split: sum.splits if_splits prod.splits)
  from choose_key_keeps [OF g1] choose_mode_writes [OF o1, of rnd g]
  have m: "keymap g1 = keymap g" "mode g1 = CHR ''w''" by simp_all
  from choose_key_text [OF o1 g1] have key: "key_text o1 (nat ko) (keystring g1)" .
  from g2 m(2) have 2: "g2 = g1" by (simp add: check_read_def)
  from g3 m(2) 2 have 3: "g3 = g1" by (simp add: check_delete_def)
  from o1 have f: "failurerate o1 \<le> 0" by (simp add: write_only_def)
  from inv(1) m(1) have d: "distinct (keymap g1)" by simp
  from check_write_known [OF ord d f g4 [unfolded 3]] m(2) have w: "mode g4 = CHR ''w''"
    "opcode g4 = 3 \<and> keymap g4 = keymap g1 \<or>
     opcode g4 = 1 \<and> keystring g4 \<notin> set (keymap g1) \<and> keymap g4 = keymap g1 @ [keystring g4]"
    by auto
  from check_write_key [OF ord d f g4 [unfolded 3] m(2)] key inv(2) m(1)
  have k: "key_text o1 (nat ko) (keystring g4)" by auto
  from res w(1) obtain v p where v: "rand_text rnd (alphabet o1) (nat vo) (pos g4) = Done (v, p)"
    "g' = g4\<lparr>pos := p\<rparr>" "t = (opcode g4, keystring g4, Some v)" by blast
  from rand_text_letters [OF v(1)] w(2) k inv m(1) v(2,3) show ?thesis by auto
qed

lemma tests_write:
  assumes "visits_all order" "write_only o1"
  shows "distinct (keymap g) \<Longrightarrow> \<forall>k \<in> set (keymap g). key_text o1 (nat ko) k \<Longrightarrow>
    tests o1 None order rnd ko vo n g = Done (g', ts) \<Longrightarrow>
    length ts = n \<and> (\<forall>t \<in> set ts. write_test o1 (nat ko) (nat vo) t)"
proof (induction n arbitrary: g g' ts)
  case (Suc n)
  from Suc.prems(3) obtain g1 t ts' where
    t: "one_test o1 None order rnd ko vo g = Done (g1, t)" and
    ts: "tests o1 None order rnd ko vo n g1 = Done (g', ts')" "ts = t # ts'"
    by (auto split: sum.splits prod.splits)
  from one_test_writes [OF assms Suc.prems(1,2) t] Suc.IH [OF _ _ ts(1)] ts(2) show ?case by auto
qed simp

section \<open>Padded keys\<close>

text \<open>A text that a field of the message holds without loss.\<close>

definition field_text :: "nat \<Rightarrow> string \<Rightarrow> bool" where
  "field_text n s \<longleftrightarrow> length s \<le> n \<and> CHR 0x00 \<notin> set s"

lemma nul_pad_inj:
  assumes "field_text n s" "field_text n t" "nul_pad n s = nul_pad n t"
  shows "s = t"
proof -
  have "takeWhile (\<lambda>c. c \<noteq> CHR 0x00) (nul_pad n u) = u" if "field_text n u" for u
    using that by (cases "n - length u") (auto simp: nul_pad_def field_text_def takeWhile_tail)
  then show ?thesis using assms by metis
qed

text \<open>The store of the server holds padded keys and values.\<close>

definition padded :: "(string \<rightharpoonup> string) \<Rightarrow> (string \<rightharpoonup> string) \<Rightarrow> bool" where
  "padded m m' \<longleftrightarrow> (\<forall>k. field_text 16 k \<longrightarrow> m' (nul_pad 16 k) = map_option (nul_pad 32) (m k))"

lemma padded_update:
  "padded m m' \<Longrightarrow> field_text 16 k \<Longrightarrow> padded (m(k \<mapsto> v)) (m'(nul_pad 16 k \<mapsto> nul_pad 32 v))"
  by (auto simp: padded_def dest: nul_pad_inj)

definition write_of :: "test \<Rightarrow> send_message \<Rightarrow> bool" where
  "write_of t q \<longleftrightarrow> q = (test_message t)\<lparr>keepalive := keepalive q\<rparr>"

definition accepted :: "send_message \<Rightarrow> send_message" where
  "accepted q = q\<lparr>operation := status_byte OK\<rparr>"

fun field_test :: "test \<Rightarrow> bool" where
  "field_test (op, k, None) = False"
| "field_test (op, k, Some v) \<longleftrightarrow> (op = 1 \<or> op = 3) \<and> field_text 16 k \<and> length v \<le> 32"

lemma write_operations:
  "operation_of (byte_of 1) = Some PUT" "operation_of (byte_of 3) = Some UPDATE"
  by code_simp+

lemma writes_accepted:
  "list_all2 write_of ts qs \<Longrightarrow> all_succeed m ts \<Longrightarrow> padded m m' \<Longrightarrow> \<forall>t \<in> set ts. field_test t \<Longrightarrow>
   snd (spec_run m' qs) = map accepted qs"
proof (induction ts qs arbitrary: m m' rule: list_all2_induct)
  case (Cons t ts q qs)
  from Cons.prems(3) obtain op k v where t: "t = (op, k, Some v)" and op: "op = 1 \<or> op = 3"
    and k: "field_text 16 k" by (cases t rule: field_test.cases) auto
  have q: "operation q = byte_of op" "key q = nul_pad 16 k" "msg_value q = nul_pad 32 v"
    using Cons.hyps(1) t by (simp_all add: write_of_def test_message_def test_value_def) (metis send_message.select_convs send_message.update_convs)+
  let ?m = "m(k \<mapsto> v)" and ?m' = "m'(nul_pad 16 k \<mapsto> nul_pad 32 v)"
  have pk: "m' (nul_pad 16 k) = None \<longleftrightarrow> m k = None"
    using Cons.prems(2) k by (simp add: padded_def)
  have "all_succeed ?m ts" and spec: "kv_spec m' (the (operation_of (operation q))) (key q) (msg_value q) =
      (True, ?m', nul_pad 32 v)"
    using op Cons.prems(1) pk
    by (auto simp: t q write_operations op_of_code_def test_value_def split: if_splits)
  moreover have "\<forall>t \<in> set ts. field_test t" using Cons.prems(3) by simp
  ultimately have "snd (spec_run ?m' qs) = map accepted qs"
    by (intro Cons.IH [OF _ padded_update [OF Cons.prems(2) k]])
  with spec q show ?case
    by (cases "spec_run ?m' qs") (simp add: spec_reply_def accepted_def)
qed simp

section \<open>The requests of one round\<close>

lemma write_of_message [simp]: "write_of t (test_message t)"
  by (simp add: write_of_def)

lemma write_of_end:
  assumes "list_all2 write_of ts qs" and "qs \<noteq> []"
  shows "list_all2 write_of ts (end_connection qs)"
proof -
  obtain ys y where q: "qs = ys @ [y]" using assms(2) by (cases qs rule: rev_cases) auto
  with assms(1) obtain us vs where "ts = us @ vs" "list_all2 write_of us ys" "list_all2 write_of vs [y]"
    by (auto simp: list_all2_append2)
  moreover from this(3) obtain t where "vs = [t]" "write_of t y" by (auto simp: list_all2_Cons2)
  moreover from this(2) have "write_of t (y\<lparr>keepalive := CHR 0x00\<rparr>)"
    by (cases y) (simp add: write_of_def test_message_def)
  ultimately show ?thesis using q by (simp add: end_connection_def list_all2_appendI)
qed

lemma nth_request_writes:
  assumes "0 < m" and "j * m + m \<le> length ts"
  shows "list_all2 write_of (map ((!) ts) [j * m..<j * m + m])
    (nth_request (map test_message ts) m num j)"
proof -
  let ?q = "map (\<lambda>x. map test_message ts ! (x mod length ts)) [j * m..<j * m + m]"
  have "list_all2 write_of (map ((!) ts) [j * m..<j * m + m]) ?q"
    using assms(2) by (simp add: list_all2_conv_all_nth)
  with assms(1) show ?thesis by (auto simp: nth_request_def Let_def intro: write_of_end)
qed

lemma nth_request_keepalive:
  assumes "ts \<noteq> []" and "q \<in> set (nth_request (map test_message ts) m num j)"
  shows "keepalive q \<in> {CHR 0x00, CHR 0x01}"
proof -
  have "keepalive (map test_message ts ! (x mod length ts)) = CHR 0x01" for x
    using assms(1) by (simp add: test_message_def split: prod.split)
  then have "\<forall>q \<in> set (map (\<lambda>x. map test_message ts ! (x mod length ts)) [j * m..<j * m + m]). keepalive q = CHR 0x01"
    by simp
  then show ?thesis
    using assms(2) unfolding nth_request_def end_connection_def Let_def
    by (auto split: if_splits simp del: set_map dest!: in_set_butlastD)
qed

lemma take_segment: "a + b \<le> length xs \<Longrightarrow> take b (drop a xs) = map ((!) xs) [a..<a + b]"
  by (rule nth_equalityI) simp_all

lemma round_writes:
  assumes "0 < m" and "k * m \<le> length ts"
  shows "list_all2 write_of (take (k * m) ts)
    (concat (map (nth_request (map test_message ts) m num) [0..<k]))"
  using assms(2)
proof (induction k)
  case (Suc k)
  have "take (Suc k * m) ts = take (k * m) ts @ map ((!) ts) [k * m..<k * m + m]"
    using Suc.prems by (simp only: mult_Suc add.commute [of m] take_add take_segment)
  with Suc nth_request_writes [OF assms(1), of k ts num] show ?case
    by (simp add: list_all2_appendI add.commute)
qed simp

lemma all_succeed_take: "all_succeed m ts \<Longrightarrow> all_succeed m (take k ts)"
  by (induction m ts arbitrary: k rule: all_succeed.induct) (auto simp: take_Cons' split: prod.splits)

lemma write_of_valid: "write_of t q \<Longrightarrow> field_test t \<Longrightarrow> valid_request q"
proof -
  assume q: "write_of t q" and t: "field_test t"
  from t obtain op k v where "t = (op, k, Some v)" "op = 1 \<or> op = 3" "length k \<le> 16" "length v \<le> 32"
    by (cases t rule: field_test.cases) (auto simp: field_text_def)
  moreover from q have "operation q = operation (test_message t)" "key q = key (test_message t)"
    "msg_value q = msg_value (test_message t)"
    by (metis write_of_def send_message.ext_inject send_message.surjective send_message.update_convs(2))+
  ultimately show ?thesis
    by (auto simp: valid_request_def wf_send_def test_message_def test_value_def nul_pad_def write_operations)
qed

lemma round_valid:
  assumes m: "0 < m" and le: "k * m \<le> length ts" and ok: "\<forall>t \<in> set ts. field_test t"
  shows "\<forall>qs \<in> set (map (nth_request (map test_message ts) m num) [0..<k]).
    length qs = m \<and> (\<forall>q \<in> set qs. valid_request q)"
proof
  fix qs assume "qs \<in> set (map (nth_request (map test_message ts) m num) [0..<k])"
  then obtain j where j: "j < k" and qs: "qs = nth_request (map test_message ts) m num j" by auto
  from mult_le_mono1 [OF Suc_leI [OF j], of m] le have le: "j * m + m \<le> length ts" by simp
  have rel: "list_all2 write_of (map ((!) ts) [j * m..<j * m + m]) qs"
    unfolding qs by (rule nth_request_writes [OF m le])
  have len: "length qs = m" using list_all2_lengthD [OF rel] by simp
  moreover have "valid_request q" if "q \<in> set qs" for q
  proof -
    from that len obtain i where i: "i < m" "q = qs ! i" by (auto simp: in_set_conv_nth)
    then have "write_of (ts ! (j * m + i)) q" using list_all2_nthD [OF rel, of i] by simp
    moreover have "j * m + i < length ts" using i(1) le by simp
    ultimately show ?thesis using ok by (auto intro: write_of_valid)
  qed
  ultimately show "length qs = m \<and> (\<forall>q \<in> set qs. valid_request q)" by blast
qed

section \<open>One client in dialogue with the server\<close>

definition dialogue :: "send_message list list \<Rightarrow> event list" where
  "dialogue reqs = Connect # concat (map (\<lambda>qs. [In 1 qs, Out 1]) reqs)"

lemma dialogue_events:
  fixes reqs
  defines "xs \<equiv> concat (map (\<lambda>qs. [In 1 qs, Out 1]) reqs)"
  shows "connects xs = 0" "all_requests xs = concat reqs"
    "answers 1 m xs = snd (spec_run m (concat reqs))"
    "responses A 1 = [] \<Longrightarrow> responses (abstract_run xs A) 1 = []"
    "\<forall>qs \<in> set reqs. 0 < length qs \<and> length qs \<le> 163 \<and> (\<forall>q \<in> set qs. valid_request q) \<Longrightarrow> proper 1 xs"
  unfolding xs_def
  by (induction reqs arbitrary: m A) (auto simp: spec_run_append split: prod.splits)

text \<open>The environment of the dialogue: one client connects, each of its requests arrives as one segment
  and each response finds room.\<close>

definition dialogue_env ::
  "(nat \<Rightarrow> int) \<Rightarrow> (nat \<Rightarrow> string \<times> int) \<Rightarrow> nat \<Rightarrow> send_message list list \<Rightarrow> env" where
  "dialogue_env fd peer room reqs =
     \<lparr>accepts = arrivals fd peer 0 1, reads = (\<lambda>d. arriving 1 (dialogue reqs)),
      writes = (\<lambda>d. replicate (outs 1 (dialogue reqs)) (Accepts room)), sent = (\<lambda>d. [])\<rparr>"

lemma dialogue_ready: "kernel_ready fd peer room 0 (dialogue reqs) (dialogue_env fd peer room reqs)"
  using dialogue_events(1) [of reqs]
  by (auto simp: kernel_ready_def dialogue_env_def dialogue_def)

lemma dialogue_served:
  assumes "cuckoohash_map ck contents valid" and "packet_handler contents valid process"
    and "\<forall>n. can_alloc H n" and "8150 \<le> room"
    and "Link_listen H a ''192.168.0.151'' 12345 = (Some L, closed)" and "sock L = fd 0"
    and "fd 0 \<noteq> fd 1" and "0 \<le> fd 0" and "0 \<le> fd 1"
    and "\<forall>qs \<in> set reqs. 0 < length qs \<and> length qs \<le> 163 \<and> (\<forall>q \<in> set qs. valid_request q)"
  shows "\<exists>S' E'. server_main H K ck process a (map (report fd) (dialogue reqs) @ [Wait_failed False])
      (dialogue_env fd peer room reqs) = Some (Done (0, S', E')) \<and>
    sent E' (fd 1) = wire (snd (spec_run Map.empty (concat reqs)))"
proof -
  note ev = dialogue_events [where reqs = reqs]
  have n: "connects (dialogue reqs) = 1" using ev(1) by (simp add: dialogue_def)
  have i: "inj_on fd {0..connects (dialogue reqs)}"
    unfolding n using assms(7) by (auto simp: inj_on_def le_Suc_eq)
  have f: "\<forall>c \<le> connects (dialogue reqs). 0 \<le> fd c"
    unfolding n using assms(8,9) by (auto simp: le_Suc_eq)
  have e: "\<forall>c \<in> {1..connects (dialogue reqs)}. sent (dialogue_env fd peer room reqs) (fd c) = []"
    by (simp add: dialogue_env_def)
  have p: "proper 0 (dialogue reqs)" using ev(5) assms(10) by (simp add: dialogue_def)
  from server_runs_clients [OF assms(1-6) i f dialogue_ready e p, of K] obtain S' E' where
    1: "server_main H K ck process a (map (report fd) (dialogue reqs) @ [Wait_failed False])
      (dialogue_env fd peer room reqs) = Some (Done (0, S', E'))"
    "sent E' (fd 1) @ concat (responses (abstract_run (dialogue reqs) abstract_new) 1) =
      wire (answers 1 Map.empty (dialogue reqs))"
    unfolding n by auto
  moreover have "responses (abstract_run (dialogue reqs) abstract_new) 1 = []"
    using ev(4) [of abstract_new] by (simp add: dialogue_def abstract_new_def)
  moreover have "answers 1 Map.empty (dialogue reqs) = snd (spec_run Map.empty (concat reqs))"
    using ev(3) by (simp add: dialogue_def)
  ultimately show ?thesis by auto
qed

section \<open>A round of the file\<close>

lemma list_all2_partner: "list_all2 P xs ys \<Longrightarrow> y \<in> set ys \<Longrightarrow> \<exists>x \<in> set xs. P x y"
  by (induction rule: list_all2_induct) auto

lemma rand_length_positive:
  assumes "rand_length len variance r = Done n" and "0 \<le> variance" and "variance < len"
  shows "0 < n"
proof -
  have "r mod nat (variance + 1) < nat (variance + 1)" using assms(2) by (intro mod_less_divisor) simp
  then have "int (r mod nat (variance + 1)) < variance + 1" using assms(2) by linarith
  with assms show ?thesis by (auto simp: rand_length_def rand_mod_def split: if_splits)
qed

text \<open>The generator and the client: what is sent in a round of the file, and how a store answers it.\<close>

definition key_starts :: "char \<Rightarrow> test \<Rightarrow> bool" where
  "key_starts c t \<longleftrightarrow> (case t of (op, k, v) \<Rightarrow> take 1 k = [c])"

lemma file_replayed:
  assumes "visits_all order" and "write_only o1" and "keyLength o1 \<le> 16" and "valueLength o1 \<le> 32"
    and "CHR '':'' \<notin> set (letters_of o1)" and "CHR 0x00 \<notin> set (letters_of o1)"
    and "0 < testcount o1" and "testcount o1 \<le> INT_MAX" and "keymap g = []"
    and "one_file o1 None order rnd g = Done (g', ts)"
    and "0 < m" and "unat num + unat m \<le> 2 ^ 32"
    and "(unat num + unat m - 1) div unat m * unat m \<le> length ts"
  shows "\<exists>reqs s.
    replay_tcp_requests (show_int (testcount o1) # map test_line ts) m num = Some (Done (reqs, s)) \<and>
    length (concat reqs) = (unat num + unat m - 1) div unat m * unat m \<and>
    list_all2 write_of (take (length (concat reqs)) ts) (concat reqs) \<and>
    all_succeed Map.empty (take (length (concat reqs)) ts) \<and>
    snd (spec_run Map.empty (concat reqs)) = map accepted (concat reqs) \<and>
    (\<forall>qs \<in> set reqs. length qs = unat m \<and>
      (\<forall>q \<in> set qs. valid_request q \<and> keepalive q \<in> {CHR 0x00, CHR 0x01})) \<and>
    (\<forall>t \<in> set ts. field_test t \<and> spelled (letters_of o1) t \<and>
      (\<forall>c. startchar o1 = Some [c] \<longrightarrow> 0 \<le> keyvariance o1 \<longrightarrow> keyvariance o1 < keyLength o1 \<longrightarrow>
         key_starts c t))"
proof -
  let ?k = "(unat num + unat m - 1) div unat m" and ?ms = "map test_message ts"
  let ?reqs = "map (nth_request ?ms (unat m) (unat num)) [0..<?k]"
  have m: "0 < unat m" using assms(11) by (simp add: unat_gt_0)
  from assms(10) obtain ko vo g1 where
    ko: "rand_length (keyLength o1) (keyvariance o1) (rnd (pos g)) = Done ko"
      "rand_length (valueLength o1) (valuevariance o1) (rnd (Suc (pos g))) = Done vo" and
    t: "tests o1 None order rnd ko vo (nat (testcount o1)) (g\<lparr>pos := pos g + 2\<rparr>) = Done (g1, ts)"
    by (auto simp: one_file_def split: sum.splits prod.splits)
  have kv: "ko \<le> 16" "vo \<le> 32"
    using ko assms(3,4) by (auto simp: rand_length_def split: if_splits sum.splits)
  from tests_write [OF assms(1,2) _ _ t] assms(9)
  have len: "length ts = nat (testcount o1)"
    and w: "\<forall>t \<in> set ts. write_test o1 (nat ko) (nat vo) t" by simp_all
  from w kv have ok: "fits t \<and> field_test t" if "t \<in> set ts" for t
    using that assms(5,6) by (cases t rule: fits.cases) (fastforce simp: text_over_def key_text_def field_text_def)+
  from w have sp: "\<forall>t \<in> set ts. spelled (letters_of o1) t" by (blast intro: write_test_spelled)
  have st: "key_starts c t"
    if "t \<in> set ts" "startchar o1 = Some [c]" "0 \<le> keyvariance o1" "keyvariance o1 < keyLength o1" for c t
  proof -
    from rand_length_positive [OF ko(1) that(3,4)] w that(1,2) show ?thesis
      by (cases t rule: fits.cases) (auto simp: key_starts_def key_text_def)
  qed
  from tests_succeed [OF assms(1) _ _ t, of Map.empty] assms(2,9)
  have succ: "all_succeed Map.empty (take (?k * unat m) ts)"
    by (simp add: write_only_def in_step_def all_succeed_take)
  have ne: "ts \<noteq> []" using len assms(7) by auto
  have header: "show_int (testcount o1) = show_int (int (length ts))" using len assms(7) by simp
  have "replay_file (show_int (testcount o1) # map test_line ts) ?ms"
    unfolding header using ne len assms(8) ok by (intro replay_file_generated) auto
  from replay_loop_requests [OF this m assms(12), of 0 0] m ne len assms(7,8) obtain s where
    rep: "replay_tcp_requests (show_int (testcount o1) # map test_line ts) m num = Some (Done (?reqs, s))"
    by (auto simp: replay_tcp_requests_def reader_at_def)
  have wr: "list_all2 write_of (take (?k * unat m) ts) (concat ?reqs)"
    by (rule round_writes [OF m assms(13)])
  have acc: "snd (spec_run Map.empty (concat ?reqs)) = map accepted (concat ?reqs)"
    using ok by (intro writes_accepted [OF wr succ]) (auto simp: padded_def dest: in_set_takeD)
  have valid: "\<forall>qs \<in> set ?reqs. length qs = unat m \<and> (\<forall>q \<in> set qs. valid_request q)"
    using ok by (intro round_valid [OF m assms(13)]) blast
  have ka: "\<forall>qs \<in> set ?reqs. \<forall>q \<in> set qs. keepalive q \<in> {CHR 0x00, CHR 0x01}"
    using nth_request_keepalive [OF ne] by auto
  have n: "length (concat ?reqs) = ?k * unat m"
    using list_all2_lengthD [OF wr] assms(13) by simp
  show ?thesis using rep n wr [folded n] succ [folded n] acc valid ka ok sp st
    by (intro exI [of _ ?reqs] exI [of _ s] conjI) (simp_all del: map_eq_conv)
qed

lemma round_served:
  assumes "visits_all order" and "write_only o1" and "keyLength o1 \<le> 16" and "valueLength o1 \<le> 32"
    and "CHR '':'' \<notin> set (letters_of o1)" and "CHR 0x00 \<notin> set (letters_of o1)"
    and "0 < testcount o1" and "testcount o1 \<le> INT_MAX" and "keymap g = []"
    and "one_file o1 None order rnd g = Done (g', ts)"
    and "0 < m" and "unat m \<le> 163" and "unat num + unat m \<le> 2 ^ 32"
    and "(unat num + unat m - 1) div unat m * unat m \<le> length ts"
    and "cuckoohash_map ck contents valid" and "packet_handler contents valid process"
    and "\<forall>n. can_alloc H n" and "8150 \<le> room"
    and "Link_listen H a ''192.168.0.151'' 12345 = (Some L, closed)" and "sock L = fd 0"
    and "fd 0 \<noteq> fd 1" and "0 \<le> fd 0" and "0 \<le> fd 1"
  shows "\<exists>reqs s S' E'.
    replay_tcp_requests (show_int (testcount o1) # map test_line ts) m num = Some (Done (reqs, s)) \<and>
    server_main H K ck process a (map (report fd) (dialogue reqs) @ [Wait_failed False])
      (dialogue_env fd peer room reqs) = Some (Done (0, S', E')) \<and>
    length (concat reqs) = (unat num + unat m - 1) div unat m * unat m \<and>
    sent E' (fd 1) = wire (map accepted (concat reqs)) \<and>
    list_all2 write_of (take (length (concat reqs)) ts) (concat reqs) \<and>
    all_succeed Map.empty (take (length (concat reqs)) ts) \<and>
    (\<forall>qs \<in> set reqs. length qs = unat m) \<and>
    (\<forall>q \<in> set (concat reqs). keepalive q \<in> {CHR 0x00, CHR 0x01}) \<and>
    (\<forall>t \<in> set ts. field_test t \<and> spelled (letters_of o1) t)"
proof -
  from file_replayed [OF assms(1-11,13,14)] obtain reqs s where
    run: "replay_tcp_requests (show_int (testcount o1) # map test_line ts) m num = Some (Done (reqs, s))"
      "length (concat reqs) = (unat num + unat m - 1) div unat m * unat m"
      "list_all2 write_of (take (length (concat reqs)) ts) (concat reqs)"
      "all_succeed Map.empty (take (length (concat reqs)) ts)"
      "snd (spec_run Map.empty (concat reqs)) = map accepted (concat reqs)"
    and valid: "\<forall>qs \<in> set reqs. length qs = unat m \<and> (\<forall>q \<in> set qs. valid_request q)"
    and ka: "\<forall>q \<in> set (concat reqs). keepalive q \<in> {CHR 0x00, CHR 0x01}"
    and ts: "\<forall>t \<in> set ts. field_test t \<and> spelled (letters_of o1) t" by auto
  have "0 < unat m" using assms(11) by (simp add: unat_gt_0)
  with valid assms(12) have
    "\<forall>qs \<in> set reqs. 0 < length qs \<and> length qs \<le> 163 \<and> (\<forall>q \<in> set qs. valid_request q)" by metis
  from dialogue_served [OF assms(15-23) this, of K peer] obtain S' E' where
    "server_main H K ck process a (map (report fd) (dialogue reqs) @ [Wait_failed False])
      (dialogue_env fd peer room reqs) = Some (Done (0, S', E'))"
    "sent E' (fd 1) = wire (snd (spec_run Map.empty (concat reqs)))" by blast
  with run valid ka ts show ?thesis
    by (intro exI [of _ reqs] exI [of _ s] exI [of _ S'] exI [of _ E'] conjI) simp_all
qed

section \<open>Properties\<close>

text \<open>From the generator through the client to the store: a file that the generator writes with
  options for writes only, keys and values that fit their fields and an alphabet without separators,
  is replayed by the client to the end; and when no more messages are sent than the file has tests,
  the server, started on an empty store of any correct hash table with any function for the requests
  that keeps the promise of \<open>packet_handler\<close>, answers every request with the request itself and the status \<open>OK\<close>.\<close>

theorem generated_writes_served:
  assumes "visits_all order" and "write_only o1" and "keyLength o1 \<le> 16" and "valueLength o1 \<le> 32"
    and "CHR '':'' \<notin> set (letters_of o1)" and "CHR 0x00 \<notin> set (letters_of o1)"
    and "0 < testcount o1" and "testcount o1 \<le> INT_MAX" and "keymap g = []"
    and "one_file o1 None order rnd g = Done (g', ts)"
    and "0 < m" and "unat m \<le> 163" and "unat num + unat m \<le> 2 ^ 32"
    and "(unat num + unat m - 1) div unat m * unat m \<le> length ts"
    and "cuckoohash_map ck contents valid" and "packet_handler contents valid process"
    and "\<forall>n. can_alloc H n" and "8150 \<le> room"
    and "Link_listen H a ''192.168.0.151'' 12345 = (Some L, closed)" and "sock L = fd 0"
    and "fd 0 \<noteq> fd 1" and "0 \<le> fd 0" and "0 \<le> fd 1"
  shows "\<exists>reqs s S' E'.
    replay_tcp_requests (show_int (testcount o1) # map test_line ts) m num = Some (Done (reqs, s)) \<and>
    server_main H K ck process a (map (report fd) (dialogue reqs) @ [Wait_failed False])
      (dialogue_env fd peer room reqs) = Some (Done (0, S', E')) \<and>
    length (concat reqs) = (unat num + unat m - 1) div unat m * unat m \<and>
    sent E' (fd 1) = wire (map accepted (concat reqs))"
proof -
  from round_served [OF assms] show ?thesis by blast
qed

definition write_options :: gen_options where
  "write_options = gen_options_new\<lparr>testcount := 2, keyLength := 1, valueLength := 1, readProb := 0,
     deletechance := -1, alphabet := ''ab''\<rparr>"

lemma write_options_file:
  "one_file write_options None (\<lambda>p. rev) (\<lambda>n. [0, 0, 0, 50, 0, 50, 50, 1, 0, 50, 0, 0] ! n)
     \<lparr>mode = CHR 0x00, opcode = 0, keystring = [], keymap = [], pos = 0\<rparr> =
   Done (\<lparr>mode = CHR ''w'', opcode = 3, keystring = ''a'', keymap = [], pos = 12\<rparr>,
     [(1, ''a'', Some ''b''), (3, ''a'', Some ''a'')])"
  by code_simp

text \<open>An insert and an update of the same key, one message per request.\<close>

lemma generated_writes_served_witness:
  "\<exists>reqs s S' E'.
    replay_tcp_requests [''2'', ''1:a:b:'', ''3:a:a:''] 1 2 = Some (Done (reqs, s)) \<and>
    server_main sample_heap map_epoll alist_cuckoo (library_handler alist_cuckoo) two_answers
      (map (report two_fds) (dialogue reqs) @ [Wait_failed False])
      (dialogue_env two_fds (\<lambda>c. (''10.0.0.1'', 4000)) 8192 reqs) = Some (Done (0, S', E')) \<and>
    length (concat reqs) = 2 \<and> sent E' 7 = wire (map accepted (concat reqs))"
proof -
  obtain L closed where L: "Link_listen sample_heap two_answers ''192.168.0.151'' 12345 = (Some L, closed)"
    "sock L = two_fds 0"
    by (simp add: Link_listen_def two_answers_def two_fds_def)
  have o1: "visits_all (\<lambda>p. rev)" "write_only write_options" "keyLength write_options \<le> 16"
    "valueLength write_options \<le> 32" "CHR '':'' \<notin> set (letters_of write_options)"
    "CHR 0x00 \<notin> set (letters_of write_options)" "0 < testcount write_options"
    "testcount write_options \<le> INT_MAX"
    by (simp_all add: visits_all_def write_only_def letters_of_def write_options_def gen_options_new_def)
  have n: "(0 :: 16 word) < 1" "unat (1 :: 16 word) \<le> 163"
    "unat (2 :: 32 word) + unat (1 :: 16 word) \<le> 2 ^ 32"
    "(unat (2 :: 32 word) + unat (1 :: 16 word) - 1) div unat (1 :: 16 word) * unat (1 :: 16 word) \<le>
       length [(1 :: int, ''a'', Some ''b''), (3, ''a'', Some ''a'')]"
    by simp_all
  have f: "\<forall>n. can_alloc sample_heap n" "(8150 :: nat) \<le> 8192" "two_fds 0 \<noteq> two_fds 1"
    "0 \<le> two_fds 0" "0 \<le> two_fds 1" "two_fds 1 = 7" by (simp_all add: two_fds_def)
  have lines: "show_int (testcount write_options) #
      map test_line [(1, ''a'', Some ''b''), (3, ''a'', Some ''a'')] = [''2'', ''1:a:b:'', ''3:a:a:'']"
    by code_simp
  from generated_writes_served [OF o1 _ write_options_file n ref.cuckoohash_map_axioms ref.library.packet_handler_axioms f(1,2) L f(3-5),
      of map_epoll "\<lambda>c. (''10.0.0.1'', 4000)", unfolded lines f(6)]
  show ?thesis by simp
qed

end
