(* ===== verification/WholeRun.thy ===== *)
theory WholeRun
  imports Pipeline CheckOutput
begin

text \<open>
  The four programs around the store in a row: \<open>testclient/createTest.c\<close> writes a file,
  \<open>testclient/main.cpp\<close> replays it one message per call, the event-loop server of \<open>server-5204\<close>
  answers, and \<open>testclient/checkoutput.c\<close> judges the trace of the client's calls (not split, that is,
  as \<open>testclient/redooutput.c\<close> leaves it).
\<close>

section \<open>Generated messages in a trace\<close>

text \<open>Letters that a trace shows as they are, that no escape can swallow and that do not end a word.\<close>

definition plain_letters :: "string \<Rightarrow> bool" where
  "plain_letters s \<longleftrightarrow>
     (\<forall>c \<in> set s. 32 < code_of c \<and> code_of c < 127 \<and> c \<notin> {CHR 0x22, CHR 0x5C, CHR ''?''} \<and> \<not> is_digit c)"

lemma plain_not_nul: "plain_letters s \<Longrightarrow> CHR 0x00 \<notin> set s"
proof
  assume "plain_letters s" "CHR 0x00 \<in> set s"
  then have "32 < code_of (CHR 0x00)" unfolding plain_letters_def by blast
  then show False by (simp add: code_of_def)
qed

lemma traceable_plain:
  "plain_letters s \<Longrightarrow> traceable t \<Longrightarrow> traceable (s @ t)"
proof (induction s)
  case (Cons c s)
  then have "plain_letters s" "c \<noteq> CHR 0x22" "c \<noteq> CHR 0x5C" "c \<noteq> CHR ''?''" "c \<noteq> CHR 0x00"
    "32 < code_of c" "code_of c < 127"
    using plain_not_nul [OF Cons.prems(1)] by (auto simp: plain_letters_def)
  with Cons show ?case by simp
qed simp

lemma traceable_nuls:
  "traceable t \<Longrightarrow> no_digit_first t \<Longrightarrow> traceable (replicate n CHR 0x00 @ t)"
proof (induction n)
  case (Suc n)
  then have "traceable (replicate n CHR 0x00 @ t)" by simp
  moreover have "\<not> is_digit (hd (replicate n CHR 0x00 @ t))" if "replicate n CHR 0x00 @ t \<noteq> []"
    using that Suc.prems(2)
    by (cases n) (auto simp: no_digit_first_def is_digit_def code_of_def)
  ultimately show ?case by simp
qed simp

lemma traceable_fields:
  assumes "plain_letters k" and "plain_letters v"
  shows "traceable (nul_pad n k @ nul_pad l v)"
proof -
  have v: "traceable (nul_pad l v)"
    unfolding nul_pad_def by (rule traceable_plain [OF assms(2) traceable_replicate(2)])
  have "no_digit_first (nul_pad l v)"
    using assms(2) by (cases v; cases "l - length v")
      (auto simp: no_digit_first_def nul_pad_def plain_letters_def is_digit_def code_of_def)
  with v have "traceable (replicate (n - length k) CHR 0x00 @ nul_pad l v)" by (rule traceable_nuls)
  from traceable_plain [OF assms(1) this] show ?thesis by (simp add: nul_pad_def)
qed

lemma write_fields:
  assumes "write_of t q" and "t = (op, k, Some v)"
  shows "operation q = byte_of op" "key q = nul_pad 16 k" "msg_value q = nul_pad 32 v"
  using assms by (simp_all add: write_of_def test_message_def test_value_def)
    (metis send_message.select_convs send_message.update_convs)+

lemma write_traceable:
  assumes "write_of t q" "field_test t" "spelled letters t" "plain_letters letters"
    and "keepalive q \<in> {CHR 0x00, CHR 0x01}"
  shows "traceable_request q"
proof -
  from assms(2) obtain op k v where t: "t = (op, k, Some v)" by (cases t rule: field_test.cases) auto
  have "plain_letters k" "plain_letters v"
    using assms(3,4) t by (auto simp: spelled_def plain_letters_def)
  moreover have "no_digit_first (nul_pad 16 k)"
    using \<open>plain_letters k\<close> by (cases k) (auto simp: no_digit_first_def nul_pad_def plain_letters_def is_digit_def code_of_def)
  moreover have "code_of (keepalive q) < 8" using assms(5) by (auto simp: code_of_def)
  ultimately show ?thesis
    using traceable_fields write_fields [OF assms(1) t] write_of_valid [OF assms(1,2)]
    by (simp add: traceable_request_def)
qed

text \<open>Requests that all succeed are ones that the checker foresees.\<close>

lemma writes_predictable:
  "list_all2 write_of ts qs \<Longrightarrow> all_succeed m ts \<Longrightarrow> padded m m' \<Longrightarrow> \<forall>t \<in> set ts. field_test t \<Longrightarrow>
   predictable_run m' qs"
proof (induction ts qs arbitrary: m m' rule: list_all2_induct)
  case (Cons t ts q qs)
  from Cons.prems(3) obtain op k v where t: "t = (op, k, Some v)" and op: "op = 1 \<or> op = 3"
    and k: "field_text 16 k" by (cases t rule: field_test.cases) auto
  note q = write_fields [OF Cons.hyps(1) t]
  have pk: "m' (nul_pad 16 k) = None \<longleftrightarrow> m k = None"
    using Cons.prems(2) k by (simp add: padded_def)
  have "all_succeed (m(k \<mapsto> v)) ts"
    using op Cons.prems(1) by (auto simp: t op_of_code_def test_value_def split: if_splits)
  moreover have "\<forall>t \<in> set ts. field_test t" using Cons.prems(3) by simp
  ultimately have "predictable_run (m'(nul_pad 16 k \<mapsto> nul_pad 32 v)) qs"
    by (intro Cons.IH [OF _ padded_update [OF Cons.prems(2) k]])
  with op Cons.prems(1) pk show ?case
    by (auto simp: t q write_operations op_of_code_def test_value_def split: if_splits)
qed simp

text \<open>The checker at its start.\<close>

definition checker_new :: checker where
  "checker_new = \<lparr>cpid = [], ctoken = [], hashmap = Map.empty, checkmap = Map.empty, correctcount = 0, totalcount = 0\<rparr>"

lemma unat_lt: "unat (w :: 32 word) < 2 ^ 32"
  using unsigned_less [of w] by simp

section \<open>Properties\<close>

text \<open>C1. A whole test run against a correct server is judged correct. A file of writes only, over
  letters that a trace prints plainly (printable, no digits, quotes, backslashes or question marks), is
  replayed one message per call, at most to its end; the event-loop server, started on an empty store of
  any correct hash table with any handler that keeps the promise of \<open>packet_handler\<close>, told of one event
  at a time and with room for every reply, answers every call; and the checker, given the lines of the
  trace of the calls and the answers, counts every one of the \<open>num\<close> answers as correct.\<close>

theorem whole_run_judged_correct:
  assumes pid: "is_word pid" and "visits_all order" and "write_only o1" and "keyLength o1 \<le> 16" and "valueLength o1 \<le> 32"
    and "CHR '':'' \<notin> set (letters_of o1)" and "plain_letters (letters_of o1)"
    and "0 < testcount o1" and "testcount o1 \<le> INT_MAX" and "keymap g = []"
    and "one_file o1 None order rnd g = Done (g', ts)" and "unat num \<le> length ts"
    and "cuckoohash_map ck contents valid" and "packet_handler contents valid process"
    and "\<forall>n. can_alloc H n" and "8150 \<le> room"
    and "Link_listen H a ''192.168.0.151'' 12345 = (Some L, closed)" and "sock L = fd 0"
    and "fd 0 \<noteq> fd 1" and "0 \<le> fd 0" and "0 \<le> fd 1"
  shows "\<exists>reqs s S' E' answers C.
    replay_tcp_requests (show_int (testcount o1) # map test_line ts) 1 num = Some (Done (reqs, s)) \<and>
    (\<forall>qs \<in> set reqs. length qs = 1) \<and>
    server_main H K ck process a (map (report fd) (dialogue reqs) @ [Wait_failed False])
      (dialogue_env fd peer room reqs) = Some (Done (0, S', E')) \<and>
    env.sent E' (fd 1) = wire answers \<and> length answers = length (concat reqs) \<and>
    check_trace checker_new (session pid (concat reqs) answers) = Done C \<and>
    correctcount C = unat num \<and> totalcount C = unat num"
proof -
  note nul = plain_not_nul [OF assms(7)]
  have "unat num < 2 ^ 32" by (rule unat_lt)
  then have n: "(0 :: 16 word) < 1" "unat (1 :: 16 word) \<le> 163" "unat num + unat (1 :: 16 word) \<le> 2 ^ 32"
    "(unat num + unat (1 :: 16 word) - 1) div unat (1 :: 16 word) * unat (1 :: 16 word) \<le> length ts"
    using assms(12) by simp_all
  from round_served [OF assms(2-6) nul assms(8-11) n assms(13-21), of K peer] obtain reqs s S' E' where
    run: "replay_tcp_requests (show_int (testcount o1) # map test_line ts) 1 num = Some (Done (reqs, s))"
      "server_main H K ck process a (map (report fd) (dialogue reqs) @ [Wait_failed False])
         (dialogue_env fd peer room reqs) = Some (Done (0, S', E'))"
      "env.sent E' (fd 1) = wire (map accepted (concat reqs))" "\<forall>qs \<in> set reqs. length qs = 1"
    and len: "length (concat reqs) = unat num"
    and rel: "list_all2 write_of (take (length (concat reqs)) ts) (concat reqs)"
    and succ: "all_succeed Map.empty (take (length (concat reqs)) ts)"
    and ka: "\<forall>q \<in> set (concat reqs). keepalive q \<in> {CHR 0x00, CHR 0x01}"
    and ts: "\<forall>t \<in> set ts. field_test t \<and> spelled (letters_of o1) t" by auto
  have pad: "padded Map.empty Map.empty" by (simp add: padded_def)
  have tk: "\<forall>t \<in> set (take (length (concat reqs)) ts). field_test t" using ts by (auto dest: in_set_takeD)
  have "\<forall>q \<in> set (concat reqs). traceable_request q"
  proof
    fix q assume "q \<in> set (concat reqs)"
    with list_all2_partner [OF rel] obtain t where
      "t \<in> set (take (length (concat reqs)) ts)" "write_of t q" by blast
    with ts ka \<open>q \<in> set (concat reqs)\<close> show "traceable_request q"
      by (blast intro: write_traceable [OF _ _ _ assms(7)] dest: in_set_takeD)
  qed
  moreover have "predictable_run (hashmap checker_new) (concat reqs)"
    using writes_predictable [OF rel succ pad tk] by (simp add: checker_new_def)
  ultimately obtain C where
    "check_trace checker_new (session pid (concat reqs) (snd (spec_run (hashmap checker_new) (concat reqs)))) = Done C"
    "correctcount C = correctcount checker_new + length (concat reqs)"
    "totalcount C = totalcount checker_new + length (concat reqs)"
    using session_predicted [OF pid, of checker_new "concat reqs"]
    by (auto simp: checker_new_def traceable_store_def)
  then have C: "check_trace checker_new (session pid (concat reqs) (map accepted (concat reqs))) = Done C"
    "correctcount C = unat num" "totalcount C = unat num"
    using writes_accepted [OF rel succ pad tk] len by (simp_all add: checker_new_def)
  show ?thesis
    using run C by (intro exI [of _ reqs] exI [of _ s] exI [of _ S'] exI [of _ E']
        exI [of _ "map accepted (concat reqs)"] exI [of _ C]) simp
qed

lemma whole_run_judged_correct_witness:
  "\<exists>reqs s S' E' answers C.
    replay_tcp_requests [''2'', ''1:a:b:'', ''3:a:a:''] 1 2 = Some (Done (reqs, s)) \<and>
    server_main sample_heap map_epoll alist_cuckoo (library_handler alist_cuckoo) two_answers
      (map (report two_fds) (dialogue reqs) @ [Wait_failed False])
      (dialogue_env two_fds (\<lambda>c. (''10.0.0.1'', 4000)) 8192 reqs) = Some (Done (0, S', E')) \<and>
    env.sent E' 7 = wire answers \<and>
    check_trace checker_new (session ''42'' (concat reqs) answers) = Done C \<and>
    correctcount C = 2 \<and> totalcount C = 2"
proof -
  obtain L closed where L: "Link_listen sample_heap two_answers ''192.168.0.151'' 12345 = (Some L, closed)"
    "sock L = two_fds 0"
    by (simp add: Link_listen_def two_answers_def two_fds_def)
  have w: "is_word ''42''" by (simp add: is_word_def isspace_def code_of_def)
  have o1: "visits_all (\<lambda>p. rev)" "write_only write_options" "keyLength write_options \<le> 16"
    "valueLength write_options \<le> 32" "CHR '':'' \<notin> set (letters_of write_options)"
    "plain_letters (letters_of write_options)" "0 < testcount write_options"
    "testcount write_options \<le> INT_MAX"
    by (simp_all add: visits_all_def write_only_def letters_of_def write_options_def gen_options_new_def
        plain_letters_def is_digit_def code_of_def)
  have n: "unat (2 :: 32 word) \<le> length [(1 :: int, ''a'', Some ''b''), (3, ''a'', Some ''a'')]" by simp
  have f: "\<forall>n. can_alloc sample_heap n" "(8150 :: nat) \<le> 8192" "two_fds 0 \<noteq> two_fds 1"
    "0 \<le> two_fds 0" "0 \<le> two_fds 1" "two_fds 1 = 7" "unat (2 :: 32 word) = 2" by (simp_all add: two_fds_def)
  have lines: "show_int (testcount write_options) #
      map test_line [(1, ''a'', Some ''b''), (3, ''a'', Some ''a'')] = [''2'', ''1:a:b:'', ''3:a:a:'']"
    by code_simp
  from whole_run_judged_correct [OF w o1 _ write_options_file n ref.cuckoohash_map_axioms ref.library.packet_handler_axioms f(1,2) L f(3-5),
      of map_epoll "\<lambda>c. (''10.0.0.1'', 4000)", unfolded lines f(6,7)]
  show ?thesis by simp blast
qed

end
