(* ===== verification/Isolation.thy ===== *)
theory Isolation
  imports Pipeline MtcpCores "HOL-Library.Sublist"
begin

text \<open>
  Several clients of \<open>testclient/main.cpp\<close> at once. The option \<open>-s\<close> of \<open>testclient/createTest.c\<close> gives
  every key of a file the same first character. Clients whose files begin their keys differently use
  different parts of the store, and none of them can tell that the others are there: neither at the
  event-loop server of \<open>server-5204\<close> nor among the threads of \<open>mtcp_kvstore\<close>.
\<close>

section \<open>Requests on keys of one's own\<close>

text \<open>Two stores look the same to somebody who only asks for keys of \<open>K\<close>.\<close>

definition agree :: "string set \<Rightarrow> (string \<rightharpoonup> string) \<Rightarrow> (string \<rightharpoonup> string) \<Rightarrow> bool" where
  "agree K m m' \<longleftrightarrow> (\<forall>k \<in> K. m k = m' k)"

lemma agree_refl [simp]: "agree K m m"
  by (simp add: agree_def)

lemma kv_spec_agree:
  assumes "agree K m m'" and "k \<in> K" and "kv_spec m cmd k v = (ok, m1, w)"
  obtains m1' where "kv_spec m' cmd k v = (ok, m1', w)" "agree K m1 m1'"
proof -
  have "m k = m' k" using assms(1,2) by (simp add: agree_def)
  with assms that show thesis
    by (cases cmd) (auto simp: agree_def split: option.splits if_splits)
qed

lemma kv_spec_apart:
  assumes "agree K m m'" and "k \<notin> K" and "kv_spec m cmd k v = (ok, m1, w)"
  shows "agree K m1 m'"
  using assms by (cases cmd) (auto simp: agree_def split: option.splits if_splits)

text \<open>A log in which exactly one client asks for keys of \<open>K\<close>: purged of the requests of all others it
  gives that client the same replies.\<close>

lemma replies_purged:
  assumes "agree K m m'" and "\<forall>(d, q) \<in> set log. key q \<in> K \<longleftrightarrow> d = c"
  shows "replies_to c m log = snd (spec_run m' (requests_of c log))"
  using assms
proof (induction log arbitrary: m m')
  case Nil
  then show ?case by (simp add: requests_of_def)
next
  case (Cons e log)
  obtain d q where e: "e = (d, q)" by (cases e)
  obtain ok m1 w where s: "kv_spec m (the (operation_of (operation q))) (key q) (msg_value q) = (ok, m1, w)"
    by (cases "kv_spec m (the (operation_of (operation q))) (key q) (msg_value q)")
  have own: "\<forall>(d, q) \<in> set log. key q \<in> K \<longleftrightarrow> d = c" using Cons.prems(2) by simp
  show ?case
  proof (cases "d = c")
    case True
    then have "key q \<in> K" using Cons.prems(2) e by simp
    from kv_spec_agree [OF Cons.prems(1) this s] obtain m1' where
      m1': "kv_spec m' (the (operation_of (operation q))) (key q) (msg_value q) = (ok, m1', w)"
        "agree K m1 m1'" .
    from Cons.IH [OF m1'(2) own] True e s m1'(1) show ?thesis
      by (simp add: requests_of_def split: prod.split)
  next
    case False
    then have "key q \<notin> K" using Cons.prems(2) e by simp
    from Cons.IH [OF kv_spec_apart [OF Cons.prems(1) this s] own] False e s show ?thesis
      by (simp add: requests_of_def)
  qed
qed

lemma replies_to_none: "requests_of c log = [] \<Longrightarrow> replies_to c m log = []"
proof (induction log arbitrary: m)
  case (Cons e log)
  then show ?case by (cases e) (auto simp: requests_of_def split: if_splits prod.split)
qed simp

section \<open>The events of the event loop as a log\<close>

fun log_of :: "event list \<Rightarrow> (nat \<times> send_message) list" where
  "log_of [] = []"
| "log_of (Connect # xs) = log_of xs"
| "log_of (In c qs # xs) = map (Pair c) qs @ log_of xs"
| "log_of (Out c # xs) = log_of xs"

fun sends :: "nat \<Rightarrow> event list \<Rightarrow> send_message list list" where
  "sends c [] = []"
| "sends c (Connect # xs) = sends c xs"
| "sends c (In d qs # xs) = (if d = c then qs # sends c xs else sends c xs)"
| "sends c (Out d # xs) = sends c xs"

lemma replies_to_request:
  "replies_to c m (map (Pair d) qs @ log) =
     (if d = c then snd (spec_run m qs) else []) @ replies_to c (fst (spec_run m qs)) log"
  by (induction qs arbitrary: m) (auto split: prod.split)

lemma answers_log: "answers c m xs = replies_to c m (log_of xs)"
  by (induction xs arbitrary: m rule: log_of.induct) (auto simp: replies_to_request split: prod.split)

lemma requests_of_append: "requests_of c (xs @ ys) = requests_of c xs @ requests_of c ys"
  by (simp add: requests_of_def)

lemma requests_of_pairs: "requests_of c (map (Pair d) qs) = (if d = c then qs else [])"
  by (simp add: requests_of_def filter_map comp_def)

lemma requests_log: "requests_of c (log_of xs) = concat (sends c xs)"
  by (induction xs rule: log_of.induct) (simp_all add: requests_of_append requests_of_pairs, simp_all add: requests_of_def)

text \<open>Clients act once they are connected; \<open>n\<close> are at first.\<close>

fun timely :: "nat \<Rightarrow> event list \<Rightarrow> bool" where
  "timely n [] = True"
| "timely n (Connect # xs) = timely (Suc n) xs"
| "timely n (In c qs # xs) \<longleftrightarrow> c \<in> {1..n} \<and> timely n xs"
| "timely n (Out c # xs) \<longleftrightarrow> c \<in> {1..n} \<and> timely n xs"

lemma timely_proper:
  assumes "timely n xs" and "\<forall>c \<in> {1..n + connects xs}. \<forall>qs \<in> set (sends c xs).
      0 < length qs \<and> length qs \<le> 163 \<and> (\<forall>q \<in> set qs. valid_request q)"
  shows "proper n xs"
  using assms
proof (induction n xs rule: timely.induct)
  case (3 n c qs xs)
  have "\<forall>d \<in> {1..n + connects xs}. \<forall>qs \<in> set (sends d xs).
      0 < length qs \<and> length qs \<le> 163 \<and> (\<forall>q \<in> set qs. valid_request q)"
    using 3(3) by (auto split: if_splits)
  moreover have "0 < length qs \<and> length qs \<le> 163 \<and> (\<forall>q \<in> set qs. valid_request q)"
    using 3(2) bspec [OF 3(3), of c] by simp
  ultimately show ?case using 3 by simp
qed simp_all

lemma timely_log: "timely n xs \<Longrightarrow> (d, q) \<in> set (log_of xs) \<Longrightarrow> d \<in> {1..n + connects xs}"
  by (induction n xs rule: timely.induct) auto

section \<open>Clients that write under their own letter\<close>

text \<open>Options of \<open>createTest\<close> for a client whose keys all begin with \<open>c\<close>, and a client that replays
  the file which the generator writes for them, \<open>m\<close> messages per request and no more messages than
  the file has tests.\<close>

definition writer :: "char \<Rightarrow> gen_options \<Rightarrow> bool" where
  "writer c o1 \<longleftrightarrow> write_only o1 \<and> startchar o1 = Some [c] \<and> keyLength o1 \<le> 16 \<and> valueLength o1 \<le> 32 \<and>
     0 \<le> keyvariance o1 \<and> keyvariance o1 < keyLength o1 \<and>
     CHR '':'' \<notin> set (letters_of o1) \<and> CHR 0x00 \<notin> set (letters_of o1) \<and>
     0 < testcount o1 \<and> testcount o1 \<le> INT_MAX"

definition replays ::
  "gen_options \<Rightarrow> 16 word \<Rightarrow> 32 word \<Rightarrow> send_message list list \<Rightarrow> bool" where
  "replays o1 m num reqs \<longleftrightarrow>
     (\<exists>order rnd g g' ts s. visits_all order \<and> keymap g = [] \<and> one_file o1 None order rnd g = Done (g', ts) \<and>
        0 < m \<and> unat num + unat m \<le> 2 ^ 32 \<and>
        (unat num + unat m - 1) div unat m * unat m \<le> length ts \<and>
        replay_tcp_requests (show_int (testcount o1) # map test_line ts) m num = Some (Done (reqs, s)))"

text \<open>A client of its own: its option letter, its options, what it sends until the end of its file.\<close>

definition own_client :: "char \<Rightarrow> gen_options \<Rightarrow> 16 word \<Rightarrow> 32 word \<Rightarrow> send_message list list \<Rightarrow> bool" where
  "own_client c o1 m num reqs \<longleftrightarrow> writer c o1 \<and> replays o1 m num reqs"

definition own_keys :: "char \<Rightarrow> string set" where
  "own_keys c = {k. take 1 k = [c]}"

lemma write_own_key:
  assumes "write_of t q" and "field_test t" and "key_starts c t"
  shows "key q \<in> own_keys c"
proof -
  from assms(2,3) obtain op k v where t: "t = (op, k, v)" and k: "take 1 k = [c]"
    by (cases t) (auto simp: key_starts_def)
  from assms(1) have "key q = key (test_message t)"
    by (metis write_of_def send_message.select_convs(3) send_message.surjective send_message.update_convs(2))
  with t k show ?thesis by (cases k) (simp_all add: own_keys_def test_message_def nul_pad_def)
qed

lemma own_client_requests:
  assumes "own_client c o1 m num reqs"
  shows "0 < unat m" "\<forall>qs \<in> set reqs. length qs = unat m" "\<forall>q \<in> set (concat reqs). valid_request q"
    "\<forall>q \<in> set (concat reqs). key q \<in> own_keys c"
    "snd (spec_run Map.empty (concat reqs)) = map accepted (concat reqs)"
proof -
  note w = assms [unfolded own_client_def writer_def]
  from w obtain order rnd g g' ts s where r: "visits_all order" "keymap g = []"
    "one_file o1 None order rnd g = Done (g', ts)" "0 < m" "unat num + unat m \<le> 2 ^ 32"
    "(unat num + unat m - 1) div unat m * unat m \<le> length ts"
    "replay_tcp_requests (show_int (testcount o1) # map test_line ts) m num = Some (Done (reqs, s))"
    by (auto simp: replays_def)
  from w have o1: "write_only o1" "keyLength o1 \<le> 16" "valueLength o1 \<le> 32" "CHR '':'' \<notin> set (letters_of o1)"
    "CHR 0x00 \<notin> set (letters_of o1)" "0 < testcount o1" "testcount o1 \<le> INT_MAX"
    "startchar o1 = Some [c]" "0 \<le> keyvariance o1" "keyvariance o1 < keyLength o1" by simp_all
  from file_replayed [OF r(1) o1(1-7) r(2-6)] r(7) o1(8-10) have
    rel: "list_all2 write_of (take (length (concat reqs)) ts) (concat reqs)" and
    acc: "snd (spec_run Map.empty (concat reqs)) = map accepted (concat reqs)" and
    valid: "\<forall>qs \<in> set reqs. length qs = unat m \<and> (\<forall>q \<in> set qs. valid_request q)" and
    ts: "\<forall>t \<in> set ts. field_test t \<and> key_starts c t"
    by auto
  show "0 < unat m" using r(4) by (simp add: unat_gt_0)
  show "\<forall>qs \<in> set reqs. length qs = unat m" using valid by simp
  show "\<forall>q \<in> set (concat reqs). valid_request q" using valid by auto
  show "\<forall>q \<in> set (concat reqs). key q \<in> own_keys c"
  proof
    fix q assume "q \<in> set (concat reqs)"
    with list_all2_partner [OF rel] obtain t where
      "t \<in> set (take (length (concat reqs)) ts)" "write_of t q" by blast
    with ts show "key q \<in> own_keys c" by (blast intro: write_own_key dest: in_set_takeD)
  qed
  show "snd (spec_run Map.empty (concat reqs)) = map accepted (concat reqs)" by (rule acc)
qed

text \<open>So far as it has come, a run of requests is answered as the whole run is.\<close>

lemma accepted_so_far:
  assumes "snd (spec_run m (xs @ ys)) = map accepted (xs @ ys)"
  shows "snd (spec_run m xs) = map accepted xs"
proof -
  have len: "length (snd (spec_run m zs)) = length zs" for m zs
    by (induction zs arbitrary: m) (simp_all add: split_beta)
  from assms have "snd (spec_run m xs) @ snd (spec_run (fst (spec_run m xs)) ys) =
      map accepted xs @ map accepted ys"
    by (simp add: spec_run_append split: prod.splits)
  then show ?thesis by (simp add: len)
qed

section \<open>Whole messages in a stream\<close>

lemma wire_prefix:
  assumes "wire xs @ rest = wire ys" and "\<forall>q \<in> set xs. wf_send q" and "\<forall>q \<in> set ys. wf_send q"
  shows "\<exists>n. xs = take n ys \<and> rest = wire (drop n ys)"
  using assms
proof (induction xs arbitrary: ys)
  case Nil
  then show ?case by (intro exI [of _ 0]) simp
next
  case (Cons x xs)
  then have "encode_send x \<noteq> []" by (metis length_encode_send list.set_intros(1) list.size(3) zero_neq_numeral)
  with Cons.prems(1) obtain y ys' where ys: "ys = y # ys'" by (cases ys) auto
  with Cons.prems have eq: "encode_send x @ wire xs @ rest = encode_send y @ wire ys'"
    "wf_send x" "wf_send y" by simp_all
  then have "encode_send x = encode_send y" "wire xs @ rest = wire ys'" by (auto simp: append_eq_append_conv)
  moreover from this(1) eq(2,3) have "x = y"
    using decode_encode_send [of x "[]"] decode_encode_send [of y "[]"] by simp
  moreover obtain n where "xs = take n ys'" "rest = wire (drop n ys')"
    using Cons.IH [of ys'] calculation(2) Cons.prems(2,3) ys by auto
  ultimately show ?case using ys by (intro exI [of _ "Suc n"]) simp
qed

text \<open>The requests that the store of the mTCP process has seen from a client are the first ones it sent.\<close>

lemma requests_read:
  assumes "serialised contents valid core_limit cs log P"
    and "steady (rx (locals (cs (fst x))) (snd x)) \<and> data_of (rx (locals (cs (fst x))) (snd x)) = wire qs"
    and "\<forall>q \<in> set qs. wf_send q"
  shows "\<exists>n. requests_of x log = take n qs \<and>
    in_hand (position (cores P (fst x))) (snd x) @ data_of (rx (locals (cores P (fst x))) (snd x)) =
      wire (drop n qs)"
proof -
  have "core_follows (cs (fst x)) (cores P (fst x)) (\<lambda>s. wire (requests_of (fst x, s) log))
      (\<lambda>s. map encode_send (replies_to (fst x, s) Map.empty log))"
    using assms(1) by (simp add: serialised_def)
  with assms(2) have "data_of (rx (locals (cs (fst x))) (snd x)) = wire (requests_of (fst x, snd x) log) @
      in_hand (position (cores P (fst x))) (snd x) @ data_of (rx (locals (cores P (fst x))) (snd x))"
    unfolding core_follows_def by blast
  then have "wire (requests_of x log) @ in_hand (position (cores P (fst x))) (snd x) @
      data_of (rx (locals (cores P (fst x))) (snd x)) = wire qs"
    using assms(2) by simp
  moreover have "\<forall>q \<in> set (requests_of x log). wf_send q"
    using assms(1) by (auto simp: serialised_def requests_of_def valid_request_def)
  ultimately show ?thesis using assms(3) by (rule wire_prefix)
qed

text \<open>Requests under one's own letter, all of which an empty store accepts.\<close>

definition own_requests :: "char \<Rightarrow> send_message list \<Rightarrow> bool" where
  "own_requests c qs \<longleftrightarrow> (\<forall>q \<in> set qs. valid_request q) \<and> (\<forall>q \<in> set qs. key q \<in> own_keys c) \<and>
     snd (spec_run Map.empty qs) = map accepted qs"

lemma own_requests_take: "own_requests c qs \<Longrightarrow> own_requests c (take n qs)"
  using accepted_so_far [of Map.empty "take n qs" "drop n qs"]
  by (auto simp: own_requests_def dest: in_set_takeD)

lemma own_requests_accepted:
  assumes "\<And>d q. (d, q) \<in> set log \<Longrightarrow> own_requests (letter d) (requests_of d log) \<and> (letter d = letter c \<longleftrightarrow> d = c)"
  shows "replies_to c Map.empty log = map accepted (requests_of c log)"
proof (cases "requests_of c log = []")
  case True
  then show ?thesis by (simp add: replies_to_none)
next
  case False
  then obtain q where "(c, q) \<in> set log" by (auto simp: requests_of_def filter_empty_conv)
  with assms have "snd (spec_run Map.empty (requests_of c log)) = map accepted (requests_of c log)"
    by (auto simp: own_requests_def)
  moreover have "key q \<in> own_keys (letter c) \<longleftrightarrow> d = c" if "(d, q) \<in> set log" for d q
  proof -
    have "q \<in> set (requests_of d log)" using that by (force simp: requests_of_def)
    with assms [OF that] have "key q \<in> own_keys (letter d)" "letter d = letter c \<longleftrightarrow> d = c"
      by (auto simp: own_requests_def)
    then show ?thesis by (auto simp: own_keys_def)
  qed
  then have "\<forall>(d, q) \<in> set log. key q \<in> own_keys (letter c) \<longleftrightarrow> d = c" by auto
  from replies_purged [OF agree_refl this] have
    "replies_to c Map.empty log = snd (spec_run Map.empty (requests_of c log))" .
  ultimately show ?thesis by simp
qed

text \<open>Without letters of their own the clients of one run of \<open>createTest\<close> do disturb each other: the map
  of known keys is emptied between their files, so that two files may insert the same key, and of
  two clients that run at once the second is refused.\<close>

definition shared_message :: send_message where
  "shared_message = \<lparr>operation = CHR 0x01, keepalive = CHR 0x00, key = CHR ''x'' # replicate 15 CHR 0x00,
     msg_value = CHR ''x'' # replicate 31 CHR 0x00\<rparr>"

lemma clients_of_one_run_collide:
  "createTest [(CHR ''c'', ''2''), (CHR ''n'', ''1''), (CHR ''k'', ''1''), (CHR ''v'', ''1''), (CHR ''p'', ''0''),
     (CHR ''d'', ''-1''), (CHR ''a'', ''x'')] (\<lambda>n. []) (\<lambda>p. rev) (\<lambda>n. if n mod 8 = 3 then 50 else n) =
   Done [(''test0.txt'', [''1'', ''1:x:x:'']), (''test1.txt'', [''1'', ''1:x:x:''])]"
  "parseLine ''1:x:x:'' = Done (shared_message\<lparr>keepalive := CHR 0x01\<rparr>)"
  "answers 1 Map.empty [Connect, Connect, In 1 [shared_message], In 2 [shared_message]] = [accepted shared_message]"
  "answers 2 Map.empty [Connect, Connect, In 1 [shared_message], In 2 [shared_message]] =
     [shared_message\<lparr>operation := status_byte ERROR\<rparr>]"
proof -
  show "parseLine ''1:x:x:'' = Done (shared_message\<lparr>keepalive := CHR 0x01\<rparr>)" by code_simp
  have op: "operation_of (operation shared_message) = Some PUT"
    by (simp add: shared_message_def operation_of_def schar_def code_of_def)
  show "answers 1 Map.empty [Connect, Connect, In 1 [shared_message], In 2 [shared_message]] = [accepted shared_message]"
    "answers 2 Map.empty [Connect, Connect, In 1 [shared_message], In 2 [shared_message]] =
     [shared_message\<lparr>operation := status_byte ERROR\<rparr>]"
    by (simp_all add: op spec_reply_def accepted_def)
qed code_simp

section \<open>Properties\<close>

text \<open>C2. Clients whose keys begin differently do not disturb each other at the event-loop server,
  whatever function it calls for a request, as long as that keeps the promise of \<open>packet_handler\<close>. Any
  number of clients replay files of writes, each generated with a starting character of its own and
  with at least as many tests as its client sends messages, so that no file is read again from its
  start. Each call to \<open>send\<close> (of at most 163 messages) arrives as one segment, \<open>epoll_wait\<close> reports one
  event at a time, a chance to send has room for a whole response, and nobody disconnects. However the
  connections, the requests and the chances to send are interleaved under these conditions, and
  however far each client has come, the server, started on an empty store of any correct hash table, has
  answered every request of every client, or has the answer queued for it, with the request itself and
  the status \<open>OK\<close>.\<close>

theorem writers_kept_apart:
  assumes "cuckoohash_map ck contents valid" and "packet_handler contents valid process"
    and "\<forall>n. can_alloc H n" and "8150 \<le> room"
    and "Link_listen H a ''192.168.0.151'' 12345 = (Some L, closed)" and "sock L = fd 0"
    and "inj_on fd {0..connects xs}" and "\<forall>c \<le> connects xs. 0 \<le> fd c"
    and "kernel_ready fd peer room 0 xs E" and "\<forall>c \<in> {1..connects xs}. sent E (fd c) = []"
    and "timely 0 xs" and "inj_on letter {1..connects xs}"
    and "\<forall>c \<in> {1..connects xs}. unat (m c) \<le> 163 \<and>
      (\<exists>reqs. own_client (letter c) (opts c) (m c) (num c) reqs \<and> prefix (sends c xs) reqs)"
  shows "\<exists>S' E'. server_main H K ck process a (map (report fd) xs @ [Wait_failed False]) E =
      Some (Done (0, S', E')) \<and>
    (\<forall>c \<in> {1..connects xs}. sent E' (fd c) @ concat (responses (abstract_run xs abstract_new) c) =
       wire (map accepted (concat (sends c xs))))"
proof -
  have own: "own_requests (letter c) (concat (sends c xs)) \<and> (\<forall>qs \<in> set (sends c xs).
      0 < length qs \<and> length qs \<le> 163)" if "c \<in> {1..connects xs}" for c
  proof -
    from bspec [OF assms(13) that] obtain reqs where m: "unat (m c) \<le> 163"
      and c: "own_client (letter c) (opts c) (m c) (num c) reqs" and "prefix (sends c xs) reqs" by blast
    from this(3) obtain rest where p: "reqs = sends c xs @ rest" by (auto simp: prefix_def)
    note sent = own_client_requests [OF c]
    have "own_requests (letter c) (take (length (concat (sends c xs))) (concat reqs))"
      using sent(3-5) by (intro own_requests_take) (simp add: own_requests_def)
    with sent(1,2) m p show ?thesis by simp
  qed
  have "proper 0 xs" using own by (intro timely_proper [OF assms(11)]) (auto simp: own_requests_def)
  from server_runs_clients [OF assms(1-10) this, of K] obtain S' E' where
    run: "server_main H K ck process a (map (report fd) xs @ [Wait_failed False]) E =
      Some (Done (0, S', E'))" and
    ans: "\<forall>c \<in> {1..connects xs}. sent E' (fd c) @ concat (responses (abstract_run xs abstract_new) c) =
       wire (answers c Map.empty xs)" by blast
  have "answers c Map.empty xs = map accepted (concat (sends c xs))" if c: "c \<in> {1..connects xs}" for c
    unfolding answers_log requests_log [symmetric]
  proof (rule own_requests_accepted [where letter = letter])
    fix d q assume "(d, q) \<in> set (log_of xs)"
    then have d: "d \<in> {1..connects xs}" using timely_log [OF assms(11)] by simp
    with c assms(12) have "letter d = letter c \<longleftrightarrow> d = c" by (auto dest: inj_onD)
    with own [OF d] show "own_requests (letter d) (requests_of d (log_of xs)) \<and> (letter d = letter c \<longleftrightarrow> d = c)"
      by (simp add: requests_log)
  qed
  with run ans show ?thesis by auto
qed

text \<open>A file with one test for each of two letters.\<close>

definition letter_options :: "char \<Rightarrow> gen_options" where
  "letter_options c = gen_options_new\<lparr>testcount := 1, keyLength := 2, valueLength := 1, readProb := 0,
     deletechance := -1, alphabet := ''x'', startchar := Some [c]\<rparr>"

definition letter_message :: "char \<Rightarrow> send_message" where
  "letter_message c = \<lparr>operation = CHR 0x01, keepalive = CHR 0x00, key = [c, CHR ''x''] @ replicate 14 CHR 0x00,
     msg_value = CHR ''x'' # replicate 31 CHR 0x00\<rparr>"

lemma letter_file:
  assumes "c \<in> {CHR ''a'', CHR ''b''}"
  shows "\<exists>g'. one_file (letter_options c) None (\<lambda>p. rev) (\<lambda>n. [0, 0, 0, 50, 0, 0, 0, 50, 50, 0] ! n)
      \<lparr>mode = CHR 0x00, opcode = 0, keystring = [], keymap = [], pos = 0\<rparr> = Done (g', [(1, [c, CHR ''x''], Some ''x'')])"
    and "show_int 1 # map test_line [(1, [c, CHR ''x''], Some ''x'')] = [''1'', [CHR ''1'', CHR '':'', c] @ ''x:x:'']"
    and "parseLine ([CHR ''1'', CHR '':'', c] @ ''x:x:'') = Done ((letter_message c)\<lparr>keepalive := CHR 0x01\<rparr>)"
proof -
  have "one_file (letter_options CHR ''a'') None (\<lambda>p. rev) (\<lambda>n. [0, 0, 0, 50, 0, 0, 0, 50, 50, 0] ! n)
      \<lparr>mode = CHR 0x00, opcode = 0, keystring = [], keymap = [], pos = 0\<rparr> =
      Done (\<lparr>mode = CHR ''w'', opcode = 1, keystring = ''ax'', keymap = [], pos = 8\<rparr>, [(1, ''ax'', Some ''x'')])"
    by code_simp
  moreover have "one_file (letter_options CHR ''b'') None (\<lambda>p. rev) (\<lambda>n. [0, 0, 0, 50, 0, 0, 0, 50, 50, 0] ! n)
      \<lparr>mode = CHR 0x00, opcode = 0, keystring = [], keymap = [], pos = 0\<rparr> =
      Done (\<lparr>mode = CHR ''w'', opcode = 1, keystring = ''bx'', keymap = [], pos = 8\<rparr>, [(1, ''bx'', Some ''x'')])"
    by code_simp
  ultimately show "\<exists>g'. one_file (letter_options c) None (\<lambda>p. rev) (\<lambda>n. [0, 0, 0, 50, 0, 0, 0, 50, 50, 0] ! n)
      \<lparr>mode = CHR 0x00, opcode = 0, keystring = [], keymap = [], pos = 0\<rparr> = Done (g', [(1, [c, CHR ''x''], Some ''x'')])"
    using assms by blast
  have "show_int 1 = ''1''" by code_simp
  then show "show_int 1 # map test_line [(1, [c, CHR ''x''], Some ''x'')] = [''1'', [CHR ''1'', CHR '':'', c] @ ''x:x:'']"
    by (simp add: test_line_def)
  have "parseLine ''1:ax:x:'' = Done ((letter_message CHR ''a'')\<lparr>keepalive := CHR 0x01\<rparr>)"
    "parseLine ''1:bx:x:'' = Done ((letter_message CHR ''b'')\<lparr>keepalive := CHR 0x01\<rparr>)" by code_simp+
  with assms show "parseLine ([CHR ''1'', CHR '':'', c] @ ''x:x:'') = Done ((letter_message c)\<lparr>keepalive := CHR 0x01\<rparr>)"
    by auto
qed

lemma letter_client:
  assumes "c \<in> {CHR ''a'', CHR ''b''}"
  shows "own_client c (letter_options c) 1 1 [[letter_message c]]"
proof -
  let ?line = "[CHR ''1'', CHR '':'', c] @ ''x:x:''"
  have end1: "end_connection [(letter_message c)\<lparr>keepalive := CHR 0x01\<rparr>] = [letter_message c]"
    by (simp add: end_connection_def letter_message_def)
  have len: "stoi ''1'' = Done 1" by code_simp
  have "replay_loop [''1'', ?line] 1 1 1 1 ([], 1) = Some (Done ([], 1))"
    by (subst replay_loop.simps) simp
  then have "replay_loop [''1'', ?line] 1 1 1 0 ([?line], 0) = Some (Done ([[letter_message c]], 1))"
    using letter_file(3) [OF assms] end1 by (subst replay_loop.simps) (simp add: next_line_def)
  then have "replay_tcp_requests [''1'', ?line] 1 1 = Some (Done ([[letter_message c]], 1))"
    by (simp add: replay_tcp_requests_def len)
  moreover have "testcount (letter_options c) = 1" by (simp add: letter_options_def)
  moreover obtain g' where
    "one_file (letter_options c) None (\<lambda>p. rev) (\<lambda>n. [0, 0, 0, 50, 0, 0, 0, 50, 50, 0] ! n)
      \<lparr>mode = CHR 0x00, opcode = 0, keystring = [], keymap = [], pos = 0\<rparr> = Done (g', [(1, [c, CHR ''x''], Some ''x'')])"
    using letter_file(1) [OF assms] by blast
  ultimately have "replays (letter_options c) 1 1 [[letter_message c]]"
    unfolding replays_def using letter_file(2) [OF assms]
    by (intro exI [of _ "\<lambda>p. rev"] exI [of _ "\<lambda>n. [0, 0, 0, 50, 0, 0, 0, 50, 50, 0] ! n"]
        exI [of _ "\<lparr>mode = CHR 0x00, opcode = 0, keystring = [], keymap = [], pos = 0\<rparr>"]
        exI [of _ g'] exI [of _ "[(1, [c, CHR ''x''], Some ''x'')]"] exI [of _ 1])
      (auto simp: visits_all_def)
  with assms show ?thesis
    by (auto simp: own_client_def writer_def write_only_def letters_of_def letter_options_def gen_options_new_def)
qed

definition letter_of :: "nat \<Rightarrow> char" where
  "letter_of c = (if c = 1 then CHR ''a'' else CHR ''b'')"

definition letter_events :: "event list" where
  "letter_events = [Connect, Connect, In 2 [letter_message CHR ''b''], In 1 [letter_message CHR ''a''], Out 1, Out 2]"

definition letter_env :: env where
  "letter_env = \<lparr>accepts = arrivals two_fds (\<lambda>c. (''10.0.0.1'', 4000)) 0 2,
     reads = (\<lambda>d. arriving (if d = 7 then 1 else 2) letter_events),
     writes = (\<lambda>d. [Accepts 8192]), sent = (\<lambda>d. [])\<rparr>"

lemma letter_ready: "kernel_ready two_fds (\<lambda>c. (''10.0.0.1'', 4000)) 8192 0 letter_events letter_env"
proof -
  have "\<exists>n \<ge> Suc 0. [Accepts 8192] = replicate n (Accepts 8192)"
    by (rule exI [of _ 1]) simp
  moreover have "{Suc 0..2} = {1, 2}" by auto
  ultimately show ?thesis
    by (simp add: kernel_ready_def letter_env_def letter_events_def two_fds_def numeral_2_eq_2)
qed

lemma writers_kept_apart_witness:
  "\<exists>S' E'. server_main sample_heap map_epoll alist_cuckoo (library_handler alist_cuckoo) two_answers
      (map (report two_fds) letter_events @ [Wait_failed False]) letter_env = Some (Done (0, S', E')) \<and>
    sent E' 8 = encode_send (accepted (letter_message CHR ''b''))"
proof -
  have n: "connects letter_events = 2" by (simp add: letter_events_def)
  have two: "{1..2 :: nat} = {1, 2}" by auto
  have i: "inj_on two_fds {0..connects letter_events}" "inj_on letter_of {1..connects letter_events}"
    by (auto simp: n two_fds_def letter_of_def inj_on_def)
  obtain L closed where L: "Link_listen sample_heap two_answers ''192.168.0.151'' 12345 = (Some L, closed)"
    "sock L = two_fds 0"
    by (simp add: Link_listen_def two_answers_def two_fds_def)
  have fds: "\<forall>c \<le> connects letter_events. 0 \<le> two_fds c" by (simp add: two_fds_def)
  have t: "timely 0 letter_events" by (simp add: letter_events_def)
  have s: "sends 1 letter_events = [[letter_message CHR ''a'']]" "sends 2 letter_events = [[letter_message CHR ''b'']]"
    "responses (abstract_run letter_events abstract_new) 2 = []"
    by (simp_all add: letter_events_def abstract_new_def split: prod.split)
  have "unat (1 :: 16 word) \<le> 163 \<and> (\<exists>reqs. own_client (letter_of c) (letter_options (letter_of c)) 1 1 reqs \<and>
      prefix (sends c letter_events) reqs)" if "c \<in> {1, 2}" for c
    using that s letter_client [of "letter_of c"]
    by (intro conjI exI [of _ "[[letter_message (letter_of c)]]"]) (auto simp: letter_of_def)
  then have o: "\<forall>c \<in> {1..connects letter_events}. unat (1 :: 16 word) \<le> 163 \<and>
      (\<exists>reqs. own_client (letter_of c) (letter_options (letter_of c)) 1 1 reqs \<and> prefix (sends c letter_events) reqs)"
    unfolding n two by blast
  have f: "\<forall>n. can_alloc sample_heap n" "(8150 :: nat) \<le> 8192"
    "\<forall>c \<in> {1..connects letter_events}. sent letter_env (two_fds c) = []" by (simp_all add: letter_env_def)
  from writers_kept_apart [OF ref.cuckoohash_map_axioms ref.library.packet_handler_axioms f(1,2) L i(1) fds letter_ready f(3) t i(2) o, of map_epoll]
  obtain S' E' where
    "server_main sample_heap map_epoll alist_cuckoo (library_handler alist_cuckoo) two_answers
      (map (report two_fds) letter_events @ [Wait_failed False]) letter_env = Some (Done (0, S', E'))"
    and ans: "\<forall>c \<in> {1, 2}. sent E' (two_fds c) @ concat (responses (abstract_run letter_events abstract_new) c) =
       wire (map accepted (concat (sends c letter_events)))"
    unfolding n two by blast
  moreover have "(2 :: nat) \<in> {1, 2}" "two_fds 2 = 8" by (simp_all add: two_fds_def)
  with bspec [OF ans this(1)] s have "sent E' 8 = encode_send (accepted (letter_message CHR ''b''))" by simp
  ultimately show ?thesis by blast
qed

text \<open>C5. Nor do they at the server with threads. Each socket of each thread has a client that neither
  closes nor fails in reading: one that replays a file of writes, generated with a starting character
  that no other client has and with at least as many tests as it sends messages (so that no file is
  read again from its start), or one that sends nothing. In every reachable state of the process the
  store has taken the first \<open>n\<close> requests of a client, the others are still unread or have just been read,
  and what the client was sent, with the reply about to be written, is these requests with the status
  \<open>OK\<close>, one after the other: exactly, when no write to this client fails with \<open>ENOTCONN\<close>, whatever happens to
  the others, and otherwise each at least in part.\<close>

theorem threads_keep_writers_apart:
  assumes "cuckoohash_map ck contents valid"
    and "process_reachable ck core_limit (process_new ck cs) P"
    and "\<forall>i s. position (cs i) = Set_up \<and> out (locals (cs i)) s = []"
    and "\<forall>i s. steady (rx (locals (cs i)) s) \<and> data_of (rx (locals (cs i)) s) = wire (concat (reqs (i, s)))"
    and "\<forall>x. reqs x = [] \<or> own_client (letter x) (opts x) (m x) (num x) (reqs x)"
    and "inj_on letter {x. reqs x \<noteq> []}"
  shows "\<exists>n ps. out (locals (cores P i)) s @ unsent (position (cores P i)) s = concat ps \<and>
    list_all2 prefix ps (map (encode_send \<circ> accepted) (take n (concat (reqs (i, s))))) \<and>
    (MWrite_err ENOTCONN \<notin> set (tx (locals (cs i)) s) \<longrightarrow>
       concat ps = wire (map accepted (take n (concat (reqs (i, s)))))) \<and>
    in_hand (position (cores P i)) s @ data_of (rx (locals (cores P i)) s) =
      wire (drop n (concat (reqs (i, s))))"
proof -
  from cuckoohash_map.serialised_reachable [OF assms(1-3)] obtain log where
    log: "serialised contents valid core_limit cs log P" by blast
  from serialised_sent [OF this, of i s] have
    reps: "\<exists>ps. out (locals (cores P i)) s @ unsent (position (cores P i)) s = concat ps \<and>
      list_all2 prefix ps (map encode_send (replies_to (i, s) Map.empty log)) \<and>
      (MWrite_err ENOTCONN \<notin> set (tx (locals (cs i)) s) \<longrightarrow>
         concat ps = wire (replies_to (i, s) Map.empty log))"
    by (auto simp: delivered_def lossless_def)
  have own: "own_requests (letter x) (concat (reqs x))" for x
  proof (cases "reqs x = []")
    case False
    with assms(5) have "own_client (letter x) (opts x) (m x) (num x) (reqs x)" by blast
    from own_client_requests [OF this] show ?thesis by (simp add: own_requests_def)
  qed (simp add: own_requests_def)
  have pre: "\<exists>n. requests_of x log = take n (concat (reqs x)) \<and>
      in_hand (position (cores P (fst x))) (snd x) @ data_of (rx (locals (cores P (fst x))) (snd x)) =
        wire (drop n (concat (reqs x)))" for x
    using own [of x] assms(4)
    by (intro requests_read [OF log]) (auto simp: own_requests_def valid_request_def)
  then obtain n where n: "requests_of (i, s) log = take n (concat (reqs (i, s)))"
    "in_hand (position (cores P i)) s @ data_of (rx (locals (cores P i)) s) = wire (drop n (concat (reqs (i, s))))"
    by (metis fst_conv snd_conv)
  have "replies_to (i, s) Map.empty log = map accepted (requests_of (i, s) log)"
  proof (cases "reqs (i, s) = []")
    case True
    with n(1) show ?thesis by (simp add: replies_to_none)
  next
    case False
    show ?thesis
    proof (rule own_requests_accepted [where letter = letter])
      fix d q assume "(d, q) \<in> set log"
      then have ne: "requests_of d log \<noteq> []" by (force simp: requests_of_def filter_empty_conv)
      obtain l where l: "requests_of d log = take l (concat (reqs d))" using pre by blast
      then have "reqs d \<noteq> []" using ne by auto
      with False assms(6) have "letter d = letter (i, s) \<longleftrightarrow> d = (i, s)" by (auto dest: inj_onD)
      with own_requests_take [OF own [of d], of l] l
      show "own_requests (letter d) (requests_of d log) \<and> (letter d = letter (i, s) \<longleftrightarrow> d = (i, s))" by simp
    qed
  qed
  with n reps show ?thesis by (intro exI [of _ n]) simp
qed

text \<open>One thread for each of two letters; the first has served its client.\<close>

definition letter_cores :: "nat \<Rightarrow> (string \<times> string) list core" where
  "letter_cores i =
     (let C = sample_core (letter_message (if i = 0 then CHR ''a'' else CHR ''b'')) in
      if i < 2 then C else C\<lparr>locals := (locals C)\<lparr>rx := (\<lambda>s. [])\<rparr>\<rparr>)"

definition letter_requests :: "nat \<times> int \<Rightarrow> send_message list list" where
  "letter_requests x =
     (if x = (0, 5) then [[letter_message CHR ''a'']] else if x = (1, 5) then [[letter_message CHR ''b'']] else [])"

lemma letter_message_valid:
  "wf_send (letter_message c)" "operation_of (operation (letter_message c)) = Some PUT"
  "schar (keepalive (letter_message c)) = 0"
  by (simp_all add: letter_message_def wf_send_def operation_of_def schar_def code_of_def)

lemma letter_cores_start:
  "\<forall>i s. position (letter_cores i) = Set_up \<and> out (locals (letter_cores i)) s = []"
  "MWrite_err ENOTCONN \<notin> set (tx (locals (letter_cores i)) s)"
  "\<forall>i s. steady (rx (locals (letter_cores i)) s) \<and>
     data_of (rx (locals (letter_cores i)) s) = wire (concat (letter_requests (i, s)))"
  by (auto simp: encode_send_def letter_cores_def sample_core_def letter_requests_def Let_def less_2_cases_iff)

lemma threads_keep_writers_apart_witness:
  "\<exists>P n. process_reachable alist_cuckoo 2 (process_new alist_cuckoo letter_cores) P \<and>
     position (cores P 0) = Stopped \<and> 0 < n \<and>
     out (locals (cores P 0)) 5 @ unsent (position (cores P 0)) 5 =
       wire (map accepted (take n [letter_message CHR ''a'']))"
proof -
  let ?P0 = "(process_new alist_cuckoo letter_cores)\<lparr>started := 2\<rparr>"
  let ?q = "letter_message CHR ''a''"
  have s0: "shared_state.store (shared ?P0) = Live []" by (simp add: process_new_def alist_cuckoo_def)
  have spec: "kv_spec (map_of []) PUT (key ?q) (msg_value ?q) = (True, [key ?q \<mapsto> msg_value ?q], msg_value ?q)"
    by simp
  have "\<exists>G C h. core_result alist_cuckoo (shared ?P0) (sample_core ?q) (Done (G, C)) \<and>
      shared_state.store G = Live h \<and> alist_distinct h \<and> map_of h = [key ?q \<mapsto> msg_value ?q] \<and>
      position C = Stopped \<and> out (locals C) 5 = encode_send (spec_reply True (msg_value ?q) ?q)"
    by (rule sample_core_alone [OF letter_message_valid(1,2) _ _ spec _ s0])
      (simp_all add: letter_message_valid alist_distinct_def wide_values_def)
  then obtain G C where C: "core_result alist_cuckoo (shared ?P0) (sample_core ?q) (Done (G, C))"
    "position C = Stopped" "out (locals C) 5 \<noteq> []" by (auto simp: encode_send_def)
  let ?P1 = "?P0\<lparr>shared := G, cores := (cores ?P0)(0 := C)\<rparr>"
  have "process_reachable alist_cuckoo 2 ?P0 ?P1"
    by (rule process_runs_core [OF C(1) refl]) (simp_all add: process_new_def letter_cores_def)
  from process_reachable_trans [OF this both_started]
  have P: "process_reachable alist_cuckoo 2 (process_new alist_cuckoo letter_cores) ?P1" .
  let ?l = "\<lambda>x :: nat \<times> int. letter_of (Suc (fst x))"
  have own: "\<forall>x. letter_requests x = [] \<or>
      own_client (?l x) (letter_options (?l x)) 1 1 (letter_requests x)"
    using letter_client by (auto simp: letter_requests_def letter_of_def)
  have inj: "inj_on ?l {x. letter_requests x \<noteq> []}"
    by (auto simp: inj_on_def letter_requests_def letter_of_def split: if_splits)
  from threads_keep_writers_apart [OF ref.cuckoohash_map_axioms P letter_cores_start(1,3) own inj, of 0 5]
    letter_cores_start(2) [of 0 5] obtain n where
    n: "out (locals (cores ?P1 0)) 5 @ unsent (position (cores ?P1 0)) 5 =
      wire (map accepted (take n (concat (letter_requests (0, 5)))))" by metis
  then have "0 < n" using C(3) by (cases n) simp_all
  moreover have "concat (letter_requests (0, 5)) = [?q]" by (simp add: letter_requests_def)
  ultimately show ?thesis using P C(2) n by (intro exI [of _ ?P1] exI [of _ n]) simp
qed

end
