(* ===== verification/MtcpRun.thy ===== *)
theory MtcpRun
  imports MtcpServer Pipeline
begin

text \<open>
  A client's whole conversation with one thread of \<open>mtcp_kvstore/kvstore.c\<close>: from the set-up of the
  thread through a round of its loop for every request to its end. The requests arrive in any pieces
  and the replies leave in any pieces, with retries wherever the stack asks for one.
\<close>

section \<open>Replies in pieces\<close>

text \<open>Results of \<open>mtcp_write\<close> of which the last one takes the last of \<open>n\<close> bytes.\<close>

fun takes_just :: "mwrite list \<Rightarrow> nat \<Rightarrow> bool" where
  "takes_just [] n \<longleftrightarrow> n = 0"
| "takes_just (MAccept k # evs) n \<longleftrightarrow> 0 < n \<and> takes_just evs (n - k)"
| "takes_just (MWrite_err e # evs) n \<longleftrightarrow> 0 < n \<and> e = EAGAIN \<and> takes_just evs n"

lemma write_reply_just:
  "takes_just evs (length bs) \<Longrightarrow> \<exists>e. write_reply (evs @ rest) bs err = Some (Done (True, bs, rest, e))"
proof (induction evs "length bs" arbitrary: bs err rule: takes_just.induct)
  case (2 k evs)
  then obtain b bs' where bs: "bs = b # bs'" by (cases bs) auto
  from 2 obtain e where "write_reply (evs @ rest) (drop k bs) err = Some (Done (True, drop k bs, rest, e))"
    by fastforce
  then show ?case using append_take_drop_id [of k bs] by (auto simp: bs)
next
  case (3 e evs)
  then obtain b bs' where bs: "bs = b # bs'" by (cases bs) auto
  with 3 show ?case by simp
qed simp

lemma delivers_retries:
  "set retries \<subseteq> {MRead_err EAGAIN} \<Longrightarrow> delivers evs s \<Longrightarrow> delivers (retries @ evs) s"
  by (induction retries) auto

section \<open>One round of the loop\<close>

definition readable :: "int \<Rightarrow> mtcp_event" where
  "readable s = \<lparr>ev_sock = s, ev_in = True, ev_err = False\<rparr>"

text \<open>What the stack is told after a reply: the socket is watched for the next request, or closed; the
  event loop closes it a second time.\<close>

definition after_reply :: "int \<Rightarrow> send_message \<Rightarrow> mtcp_call list" where
  "after_reply s q =
     Ctl_mod s # (if schar (keepalive q) = 0 then [Ctl_del s, Close_sock s, Ctl_del s, Close_sock s] else [])"

lemma round_of_loop:
  assumes ck: "cuckoohash_map ck contents valid" and T: "valid h" "kv T = Live h" "wide_values (contents h)"
    and q: "valid_request q" "0 \<le> schar (keepalive q)"
    and io: "rx T s = evs @ rest" "delivers evs (encode_send q)" "tx T s = ws @ wrest"
      "takes_just ws KVSTORE_CONTENT_LEN"
    and s: "s \<noteq> listener"
  shows "\<exists>h' T' retries. handle_one ck listener (readable s) a T = Some (Done (a, T')) \<and>
    kv T' = Live h' \<and> valid h' \<and> contents h' = fst (spec_run (contents h) [q]) \<and>
    out T' s = out T s @ wire (snd (spec_run (contents h) [q])) \<and>
    rx T' s = retries @ rest \<and> set retries \<subseteq> {MRead_err EAGAIN} \<and> tx T' s = wrest \<and>
    calls T' = calls T @ after_reply s q"
proof -
  from q(1) obtain cmd where wf: "wf_send q" and cmd: "operation_of (operation q) = Some cmd"
    by (auto simp: valid_request_def)
  obtain ok m' v where spec: "kv_spec (contents h) cmd (key q) (msg_value q) = (ok, m', v)"
    by (cases "kv_spec (contents h) cmd (key q) (msg_value q)")
  from cuckoohash_map.packet_refines [OF ck T(1) wf cmd spec] obtain h' where
    p: "kvstore_process_packet ck (Live h) (encode_send q) =
        Done (if ok then 1 else 0, Live h', encode_send (spec_reply ok v q))"
    and h': "valid h'" "contents h' = m'" by blast
  have "length (encode_send q) = KVSTORE_CONTENT_LEN" using wf by simp
  with read_request_pieces [OF io(2), of "[]" rest "errno T"] obtain left e retries where
    r: "read_request (evs @ rest) [] (errno T) = Some (Done (Request (encode_send q), left, e))"
      "left = retries @ rest" "set retries \<subseteq> {MRead_err EAGAIN}" by auto
  have "length v = 32"
    using length_spec_value [OF T(3), of "msg_value q" cmd "key q"] wf spec by (simp add: wf_send_def)
  then have "length (encode_send (spec_reply ok v q)) = KVSTORE_CONTENT_LEN"
    using wf by (simp add: wf_send_def spec_reply_def encode_send_def)
  with write_reply_just [of ws "encode_send (spec_reply ok v q)" wrest e] io(4) obtain e2 where
    w: "write_reply (ws @ wrest) (encode_send (spec_reply ok v q)) e =
      Some (Done (True, encode_send (spec_reply ok v q), wrest, e2))" by auto
  have k: "encode_send q ! Suc 0 = keepalive q" by (simp add: encode_send_def)
  show ?thesis
    using r p w h' T(2) io(1,3) s spec cmd q(2)
    by (simp add: handle_one_def readable_def after_reply_def HandleReadEvent_def Let_def k call_def
        CloseConnection_def)
qed

text \<open>Rounds of the loop, one for each request.\<close>

lemma rounds_of_loop:
  assumes ck: "cuckoohash_map ck contents valid" and s: "s \<noteq> listener"
  shows "valid h \<Longrightarrow> kv T = Live h \<Longrightarrow> wide_values (contents h) \<Longrightarrow>
    \<forall>q \<in> set qs. valid_request q \<and> 0 \<le> schar (keepalive q) \<Longrightarrow>
    rx T s = retries @ concat evss @ rest \<Longrightarrow> set retries \<subseteq> {MRead_err EAGAIN} \<Longrightarrow>
    list_all2 (\<lambda>evs q. delivers evs (encode_send q)) evss qs \<Longrightarrow>
    tx T s = concat wss @ wrest \<Longrightarrow> length wss = length qs \<Longrightarrow>
    \<forall>ws \<in> set wss. takes_just ws KVSTORE_CONTENT_LEN \<Longrightarrow>
    \<exists>h' T'. server_loop ck listener (map (\<lambda>q. (False, MEvents [readable s])) qs @ rounds) T =
        server_loop ck listener rounds T' \<and>
      kv T' = Live h' \<and> valid h' \<and> contents h' = fst (spec_run (contents h) qs) \<and>
      out T' s = out T s @ wire (snd (spec_run (contents h) qs)) \<and>
      calls T' = calls T @ concat (map (after_reply s) qs)"
proof (induction qs arbitrary: h T retries evss wss)
  case Nil
  then show ?case by auto
next
  case (Cons q qs)
  from Cons.prems(7) obtain evs evss' where evss: "evss = evs # evss'" "delivers evs (encode_send q)"
    "list_all2 (\<lambda>evs q. delivers evs (encode_send q)) evss' qs" by (auto simp: list_all2_Cons2)
  from Cons.prems(9) obtain ws wss' where wss: "wss = ws # wss'" by (cases wss) auto
  have q: "valid_request q" "0 \<le> schar (keepalive q)" using Cons.prems(4) by simp_all
  have io: "rx T s = (retries @ evs) @ concat evss' @ rest" "delivers (retries @ evs) (encode_send q)"
    "tx T s = ws @ concat wss' @ wrest" "takes_just ws KVSTORE_CONTENT_LEN"
    using Cons.prems(5,6,8,10) evss wss delivers_retries by auto
  from round_of_loop [OF ck Cons.prems(1-3) q io s, of False] obtain h1 T1 retries' where
    1: "handle_one ck listener (readable s) False T = Some (Done (False, T1))"
      "kv T1 = Live h1" "valid h1" "contents h1 = fst (spec_run (contents h) [q])"
      "out T1 s = out T s @ wire (snd (spec_run (contents h) [q]))"
      "rx T1 s = retries' @ concat evss' @ rest" "set retries' \<subseteq> {MRead_err EAGAIN}"
      "tx T1 s = concat wss' @ wrest" "calls T1 = calls T @ after_reply s q" by blast
  have "wide_values (contents h1)"
    using spec_run_wide [of "contents h" "[q]"] Cons.prems(3) q(1) 1(4) by simp
  from Cons.IH [OF 1(3,2) this _ 1(6,7) evss(3) 1(8)] Cons.prems(4,9,10) wss obtain h' T' where
    "server_loop ck listener (map (\<lambda>q. (False, MEvents [readable s])) qs @ rounds) T1 =
        server_loop ck listener rounds T'"
    "kv T' = Live h'" "valid h'" "contents h' = fst (spec_run (contents h1) qs)"
    "out T' s = out T1 s @ wire (snd (spec_run (contents h1) qs))"
    "calls T' = calls T1 @ concat (map (after_reply s) qs)" by auto
  with 1 spec_run_append [of "contents h" "[q]" qs] show ?case
    by (intro exI [of _ h'] exI [of _ T']) (simp add: split_beta Let_def del: spec_run.simps)
qed

section \<open>From the set-up to the end\<close>

text \<open>A set-up in which every call succeeds.\<close>

definition set_up_ok :: "stack_setup \<Rightarrow> bool" where
  "set_up_ok st \<longleftrightarrow> InitializeServerThread st \<and> has_events st \<and> 0 \<le> listen_sock st \<and>
     0 \<le> nonblock_ret st \<and> 0 \<le> bind_ret st \<and> 0 \<le> listen_ret st"

lemma thread_serves:
  assumes "cuckoohash_map ck contents valid" and "valid h" and "kv T = Live h" and "wide_values (contents h)"
    and "\<forall>q \<in> set qs. valid_request q \<and> 0 \<le> schar (keepalive q)"
    and "rx T s = concat evss @ rest" and "list_all2 (\<lambda>evs q. delivers evs (encode_send q)) evss qs"
    and "tx T s = concat wss @ wrest" and "length wss = length qs"
    and "\<forall>ws \<in> set wss. takes_just ws KVSTORE_CONTENT_LEN"
    and "set_up_ok st" and "s \<noteq> listen_sock st"
  shows "\<exists>h' T'. RunServerThread ck st (map (\<lambda>q. (False, MEvents [readable s])) qs @ (True, w) # rounds) T =
      Some (Done T') \<and>
    kv T' = Live h' \<and> contents h' = fst (spec_run (contents h) qs) \<and>
    out T' s = out T s @ wire (snd (spec_run (contents h) qs)) \<and>
    calls T' = calls T @ [Nonblock (listen_sock st), Ctl_add (listen_sock st)] @ concat (map (after_reply s) qs)"
proof -
  let ?l = "listen_sock st"
  let ?T = "call [Nonblock ?l, Ctl_add ?l] T"
  have set_up: "CreateListeningSocket st T = (?l, ?T)" "InitializeServerThread st" "has_events st" "\<not> ?l < 0"
    using assms(11) by (simp_all add: set_up_ok_def CreateListeningSocket_def call_def Let_def)
  have T: "kv ?T = Live h" "rx ?T s = [] @ concat evss @ rest" "tx ?T s = concat wss @ wrest"
    using assms(3,6,8) by (simp_all add: call_def)
  from rounds_of_loop [OF assms(1,12,2) T(1) assms(4,5) T(2) _ assms(7) T(3) assms(9,10), of "(True, w) # rounds"]
  obtain h' T' where
    1: "server_loop ck ?l (map (\<lambda>q. (False, MEvents [readable s])) qs @ (True, w) # rounds) ?T =
        server_loop ck ?l ((True, w) # rounds) T'"
    and 2: "kv T' = Live h'" "contents h' = fst (spec_run (contents h) qs)"
      "out T' s = out ?T s @ wire (snd (spec_run (contents h) qs))"
      "calls T' = calls ?T @ concat (map (after_reply s) qs)" by auto
  from 1 have "RunServerThread ck st (map (\<lambda>q. (False, MEvents [readable s])) qs @ (True, w) # rounds) T =
      Some (Done T')"
    using set_up by (simp add: RunServerThread_def)
  with 2 show ?thesis by (intro exI [of _ h'] exI [of _ T']) (simp add: call_def)
qed

text \<open>The file of a generator of writes, replayed against a thread on an empty store: every message is
  answered with itself and the status \<open>OK\<close>.\<close>

lemma replayed_file_served:
  assumes "visits_all order" and "write_only o1" and "keyLength o1 \<le> 16" and "valueLength o1 \<le> 32"
    and "CHR '':'' \<notin> set (letters_of o1)" and "CHR 0x00 \<notin> set (letters_of o1)"
    and "0 < testcount o1" and "testcount o1 \<le> INT_MAX" and "keymap g = []"
    and "one_file o1 None order rnd g = Done (g', ts)"
    and "0 < m" and "unat num + unat m \<le> 2 ^ 32"
    and "(unat num + unat m - 1) div unat m * unat m \<le> length ts"
    and ck: "cuckoohash_map ck contents valid" and st: "set_up_ok st" "s \<noteq> listen_sock st"
  shows "\<exists>reqs n. replay_tcp_requests (show_int (testcount o1) # map test_line ts) m num = Some (Done (reqs, n)) \<and>
    (\<forall>T evss rest wss wrest w rounds. kv T = Live (ck_new ck) \<longrightarrow> rx T s = concat evss @ rest \<longrightarrow>
       list_all2 (\<lambda>evs q. delivers evs (encode_send q)) evss (concat reqs) \<longrightarrow>
       tx T s = concat wss @ wrest \<longrightarrow> length wss = length (concat reqs) \<longrightarrow>
       (\<forall>ws \<in> set wss. takes_just ws KVSTORE_CONTENT_LEN) \<longrightarrow>
       (\<exists>T'. RunServerThread ck st
           (map (\<lambda>q. (False, MEvents [readable s])) (concat reqs) @ (True, w) # rounds) T = Some (Done T') \<and>
         out T' s = out T s @ wire (map accepted (concat reqs))))"
proof -
  from file_replayed [OF assms(1-13)] obtain reqs n where
    run: "replay_tcp_requests (show_int (testcount o1) # map test_line ts) m num = Some (Done (reqs, n))"
    and acc: "snd (spec_run Map.empty (concat reqs)) = map accepted (concat reqs)"
    and valid: "\<forall>qs \<in> set reqs. length qs = unat m \<and> (\<forall>q \<in> set qs. valid_request q \<and>
      keepalive q \<in> {CHR 0x00, CHR 0x01})" by blast
  have "schar CHR 0x00 = 0" "schar CHR 0x01 = 1" by (simp_all add: schar_def code_of_def)
  with valid have q: "\<forall>q \<in> set (concat reqs). valid_request q \<and> 0 \<le> schar (keepalive q)" by fastforce
  have new: "valid (ck_new ck)" "contents (ck_new ck) = Map.empty" "wide_values (contents (ck_new ck))"
    using cuckoohash_map.new_doc [OF ck] by (simp_all add: wide_values_def)
  show ?thesis
    using run thread_serves [OF ck new(1) _ new(3) q _ _ _ _ _ st] acc
    by (intro exI [of _ reqs] exI [of _ n]) (simp add: new(2), blast)
qed

section \<open>Properties\<close>

text \<open>C21. A thread of the mTCP server serves a client's whole conversation. Started with any correct
  hash table behind it, and with one event for each of the client's requests, which arrive in any
  pieces while the replies leave in any pieces, the thread runs to its end: the store is the map on
  which the requests ran, the client was sent exactly that map's replies, and its socket was set to
  wait for the next request after each reply and closed after the one that does not keep it alive.\<close>

theorem thread_serves_conversation:
  assumes "cuckoohash_map ck contents valid" and "valid h" and "kv T = Live h" and "wide_values (contents h)"
    and "\<forall>q \<in> set qs. valid_request q \<and> 0 \<le> schar (keepalive q)"
    and "rx T s = concat evss @ rest" and "list_all2 (\<lambda>evs q. delivers evs (encode_send q)) evss qs"
    and "tx T s = concat wss @ wrest" and "length wss = length qs"
    and "\<forall>ws \<in> set wss. takes_just ws KVSTORE_CONTENT_LEN"
    and "set_up_ok st" and "s \<noteq> listen_sock st"
  shows "\<exists>h' T'. RunServerThread ck st (map (\<lambda>q. (False, MEvents [readable s])) qs @ (True, w) # rounds) T =
      Some (Done T') \<and>
    kv T' = Live h' \<and> contents h' = fst (spec_run (contents h) qs) \<and>
    out T' s = out T s @ wire (snd (spec_run (contents h) qs)) \<and>
    calls T' = calls T @ [Nonblock (listen_sock st), Ctl_add (listen_sock st)] @ concat (map (after_reply s) qs)"
  by (rule thread_serves [OF assms])

text \<open>A value is stored and asked for; the first request arrives in two pieces, its reply leaves in two.\<close>

definition conversation :: "send_message list" where
  "conversation = [sample_put, sample_get\<lparr>keepalive := CHR 0x00\<rparr>]"

definition conversation_thread :: "(string \<times> string) list thread" where
  "conversation_thread =
     \<lparr>errno = 0, kv = Live [], num_pkts_recvd = 0, num_pkts_writ = 0,
      rx = (\<lambda>s. [MData (take 20 (encode_send sample_put)), MRead_err EAGAIN, MData (drop 20 (encode_send sample_put)),
        MData (encode_send (sample_get\<lparr>keepalive := CHR 0x00\<rparr>))]),
      tx = (\<lambda>s. [MAccept 7, MWrite_err EAGAIN, MAccept 50, MAccept 50]), acc = [], out = (\<lambda>s. []), calls = []\<rparr>"

lemma thread_serves_conversation_witness:
  "\<exists>h' T'. RunServerThread alist_cuckoo
      \<lparr>has_ctx = True, has_mctx = True, ep_desc = 1, listen_sock = 3, nonblock_ret = 0, bind_ret = 0,
       listen_ret = 0, has_events = True\<rparr>
      [(False, MEvents [readable 5]), (False, MEvents [readable 5]), (True, MEvents [])] conversation_thread =
      Some (Done T') \<and> kv T' = Live h' \<and>
    out T' 5 = encode_send (sample_put\<lparr>operation := status_byte OK\<rparr>) @
      encode_send (sample_get\<lparr>msg_value := replicate 32 CHR ''v'', keepalive := CHR 0x00\<rparr>) \<and>
    calls T' = [Nonblock 3, Ctl_add 3, Ctl_mod 5, Ctl_mod 5, Ctl_del 5, Close_sock 5, Ctl_del 5, Close_sock 5]"
proof -
  let ?st = "\<lparr>has_ctx = True, has_mctx = True, ep_desc = 1, listen_sock = 3, nonblock_ret = 0, bind_ret = 0,
       listen_ret = 0, has_events = True\<rparr>"
  let ?put = "encode_send sample_put" and ?get = "encode_send (sample_get\<lparr>keepalive := CHR 0x00\<rparr>)"
  let ?evss = "[[MData (take 20 ?put), MRead_err EAGAIN, MData (drop 20 ?put)], [MData ?get]]"
  let ?wss = "[[MAccept 7, MWrite_err EAGAIN, MAccept 50], [MAccept 50]]"
  have k: "schar CHR 0x00 = 0" "schar CHR 0x01 = 1" by (simp_all add: schar_def code_of_def)
  have wf: "wf_send sample_put" "wf_send (sample_get\<lparr>keepalive := CHR 0x00\<rparr>)"
    by (simp_all add: wf_send_def sample_put_def sample_get_def)
  have q: "\<forall>q \<in> set conversation. valid_request q \<and> 0 \<le> schar (keepalive q)"
    using wf by (simp add: conversation_def valid_request_def sample_put_def sample_get_def two_operations k)
  have ne: "?get \<noteq> []" "?put \<noteq> []" by (simp_all add: encode_send_def)
  have d: "list_all2 (\<lambda>evs q. delivers evs (encode_send q)) ?evss conversation"
    using wf ne by (simp add: conversation_def)
  have w: "\<forall>ws \<in> set ?wss. takes_just ws KVSTORE_CONTENT_LEN" by simp
  have io: "kv conversation_thread = Live []" "rx conversation_thread 5 = concat ?evss @ []"
    "tx conversation_thread 5 = concat ?wss @ []" "length ?wss = length conversation"
    by (simp_all add: conversation_thread_def conversation_def)
  have st: "set_up_ok ?st" "5 \<noteq> listen_sock ?st" by (simp_all add: set_up_ok_def InitializeServerThread_def)
  have h: "alist_distinct []" "wide_values (map_of [])" by (simp_all add: alist_distinct_def wide_values_def)
  have run: "snd (spec_run (map_of []) conversation) =
      [sample_put\<lparr>operation := status_byte OK\<rparr>, sample_get\<lparr>msg_value := replicate 32 CHR ''v'', keepalive := CHR 0x00\<rparr>]"
    "concat (map (after_reply 5) conversation) = [Ctl_mod 5, Ctl_mod 5, Ctl_del 5, Close_sock 5, Ctl_del 5, Close_sock 5]"
    by (simp_all add: conversation_def sample_put_def sample_get_def two_operations spec_reply_def
        after_reply_def k)
  have events: "map (\<lambda>q. (False, MEvents [readable 5])) conversation @ (True, MEvents []) # [] =
      [(False, MEvents [readable 5]), (False, MEvents [readable 5]), (True, MEvents [])]"
    by (simp add: conversation_def)
  have start: "out conversation_thread 5 = []" "calls conversation_thread = []" "listen_sock ?st = 3"
    by (simp_all add: conversation_thread_def)
  from thread_serves_conversation [OF ref.cuckoohash_map_axioms h(1) io(1) h(2) q io(2) d io(3,4) w st,
      of "MEvents []" "[]", unfolded events run start]
  show ?thesis by auto
qed

end
