(* ===== verification/ClientUtils.thy ===== *)
theory ClientUtils
  imports WholeRun
begin

text \<open>
  What the two clients share in \<open>client/utils.cpp\<close> and its copy \<open>testclient/utils.cpp\<close>: opening a
  connection, printing a message (the verbose mode of the replaying client), comparing and copying
  times. The results of \<open>socket\<close> and \<open>connect\<close> are arguments, \<open>connect\<close> as a function of the
  descriptor and the address.
\<close>

section \<open>Opening a connection\<close>

text \<open>The address as it is handed over: IP address and port in network byte order.\<close>

type_synonym sockaddr_in = "32 word \<times> 16 word"

definition init_tcp_connection ::
  "int \<Rightarrow> (int \<Rightarrow> sockaddr_in \<Rightarrow> int) \<Rightarrow> 32 word \<Rightarrow> 16 word \<Rightarrow> int outcome" where
  "init_tcp_connection socket_desc connect ip p =
     (if socket_desc = -1 then Fault (Exit (-1))
      else if connect socket_desc (ip, p) < 0 then Fault (Exit (-1))
      else Done socket_desc)"

definition init_udp_connection :: "int \<Rightarrow> 32 word \<Rightarrow> 16 word \<Rightarrow> int outcome" where
  "init_udp_connection socket_desc ip p = (if socket_desc = -1 then Fault (Exit (-1)) else Done socket_desc)"

text \<open>The copies of \<open>testclient/utils.cpp\<close>, and the third one in \<open>testclient/main.cpp\<close>.\<close>

definition test_init_tcp_connection ::
  "int \<Rightarrow> (int \<Rightarrow> sockaddr_in \<Rightarrow> int) \<Rightarrow> 32 word \<Rightarrow> 16 word \<Rightarrow> int outcome" where
  "test_init_tcp_connection socket_desc connect ip p =
     (if socket_desc = -1 then Fault (Exit (-1))
      else if connect socket_desc (ip, p) < 0 then Fault (Exit (-1))
      else Done socket_desc)"

definition test_init_udp_connection :: "int \<Rightarrow> 32 word \<Rightarrow> 16 word \<Rightarrow> int outcome" where
  "test_init_udp_connection socket_desc ip p =
     (if socket_desc = -1 then Fault (Exit (-1)) else Done socket_desc)"

definition init_connection ::
  "int \<Rightarrow> (int \<Rightarrow> sockaddr_in \<Rightarrow> int) \<Rightarrow> 32 word \<Rightarrow> 16 word \<Rightarrow> int outcome" where
  "init_connection socket_desc connect ip p =
     (if socket_desc = -1 then Fault (Exit (-1))
      else if connect socket_desc (ip, p) < 0 then Fault (Exit (-1))
      else Done socket_desc)"

text \<open>All of them agree: a connection is a descriptor that \<open>connect\<close> accepted, or the process has ended.\<close>

lemma connections_agree:
  "test_init_tcp_connection = init_tcp_connection" "init_connection = init_tcp_connection"
  "test_init_udp_connection = init_udp_connection"
  by (simp_all add: fun_eq_iff test_init_tcp_connection_def init_connection_def init_tcp_connection_def
      test_init_udp_connection_def init_udp_connection_def)

lemma connection_open:
  "init_tcp_connection d connect ip p = Done s \<longleftrightarrow> s = d \<and> d \<noteq> -1 \<and> 0 \<le> connect d (ip, p)"
  by (auto simp: init_tcp_connection_def)

section \<open>Times\<close>

text \<open>Two assignments; the pointers may be equal.\<close>

definition copy_timespec :: "timespec \<Rightarrow> timespec \<Rightarrow> timespec" where
  "copy_timespec dest src = (let dest' = (fst dest, snd src) in (fst src, snd dest'))"

definition test_min_timespec :: "timespec \<Rightarrow> timespec \<Rightarrow> timespec" where
  "test_min_timespec t1 t2 =
     (if fst t1 = fst t2 then (if snd t1 < snd t2 then t1 else t2)
      else (if fst t1 < fst t2 then t1 else t2))"

definition test_max_timespec :: "timespec \<Rightarrow> timespec \<Rightarrow> timespec" where
  "test_max_timespec t1 t2 =
     (if fst t1 = fst t2 then (if snd t2 < snd t1 then t1 else t2)
      else (if fst t2 < fst t1 then t1 else t2))"

definition test_copy_timespec :: "timespec \<Rightarrow> timespec \<Rightarrow> timespec" where
  "test_copy_timespec dest src = (let dest' = (fst dest, snd src) in (fst src, snd dest'))"

lemma copy_timespec_src [simp]: "copy_timespec dest src = src" "test_copy_timespec dest src = src"
  by (simp_all add: copy_timespec_def test_copy_timespec_def)

lemma test_timespec [simp]: "test_min_timespec = min_timespec" "test_max_timespec = max_timespec"
  by (auto simp: fun_eq_iff test_min_timespec_def min_timespec_def test_max_timespec_def max_timespec_def before_def)

section \<open>Printing a message\<close>

text \<open>Status, key and value of a response, whose status byte is the operation of the frame.\<close>

definition print_response_message :: "send_message \<Rightarrow> (string \<times> string \<times> string) outcome" where
  "print_response_message resp =
     (case hex_into 33 [] (key resp) of
        Fault f \<Rightarrow> Fault f
      | Done k \<Rightarrow>
          (case hex_into 65 [] (msg_value resp) of
             Fault f \<Rightarrow> Fault f
           | Done v \<Rightarrow> Done (show_hex (nat (schar (operation resp) mod 2 ^ 32)), k, v)))"

text \<open>The copies of \<open>testclient/utils.cpp\<close> set the last byte of each array to NUL first, where \<open>sprintf\<close>
  puts its own; of a request only the key is printed.\<close>

definition test_print_response_message :: "send_message \<Rightarrow> (string \<times> string \<times> string) outcome" where
  "test_print_response_message resp =
     (case hex_into 33 [] (key resp) of
        Fault f \<Rightarrow> Fault f
      | Done k \<Rightarrow>
          (case hex_into 65 [] (msg_value resp) of
             Fault f \<Rightarrow> Fault f
           | Done v \<Rightarrow> Done (show_hex (nat (schar (operation resp) mod 2 ^ 32)), k, v)))"

definition test_print_send_message :: "send_message \<Rightarrow> (string \<times> string) outcome" where
  "test_print_send_message m =
     (case hex_into 33 [] (key m) of
        Fault f \<Rightarrow> Fault f
      | Done k \<Rightarrow> Done (show_hex (nat (schar (operation m) mod 2 ^ 32)), k))"

text \<open>The verbose mode of the replaying client prints the responses of a request one after the other.\<close>

fun print_responses :: "send_message list \<Rightarrow> (string \<times> string \<times> string) list outcome" where
  "print_responses [] = Done []"
| "print_responses (r # rs) =
     (case test_print_response_message r of
        Fault f \<Rightarrow> Fault f
      | Done t \<Rightarrow> (case print_responses rs of Fault f \<Rightarrow> Fault f | Done ts \<Rightarrow> Done (t # ts)))"

text \<open>A byte prints as two digits below 0x80 and as eight from there on.\<close>

definition ascii :: "string \<Rightarrow> bool" where
  "ascii s \<longleftrightarrow> (\<forall>c \<in> set s. code_of c < 128)"

lemma length_show_hex: "16 ^ k \<le> n \<Longrightarrow> n < 16 ^ Suc k \<Longrightarrow> length (show_hex n) = Suc k"
proof (induction k arbitrary: n)
  case 0
  then show ?case by (simp add: show_hex.simps [of n])
next
  case (Suc k)
  then have "16 ^ k \<le> n div 16" "n div 16 < 16 ^ Suc k" by (simp_all add: less_mult_imp_div_less less_eq_div_iff_mult_less_eq)
  moreover have "1 \<le> (16 :: nat) ^ k" by simp
  with Suc.prems(1) have "16 \<le> n" unfolding power_Suc by linarith
  ultimately show ?case using Suc.IH [of "n div 16"] by (simp add: show_hex.simps [of n])
qed

lemma length_hex_char: "length (hex_char c) = (if code_of c < 128 then 2 else 8)"
proof (cases "code_of c < 128")
  case True
  then have s: "nat (schar c mod 4294967296) = code_of c" by (simp add: schar_def)
  consider "code_of c < 1" | "1 \<le> code_of c" "code_of c < 16" | "16 \<le> code_of c" by linarith
  then show ?thesis
  proof cases
    case 1
    then show ?thesis by (simp add: hex_char_def s show_hex.simps [of 0])
  next
    case 2
    with length_show_hex [of 0 "code_of c"] show ?thesis by (simp add: hex_char_def s)
  next
    case 3
    with True length_show_hex [of 1 "code_of c"] show ?thesis by (simp add: hex_char_def s)
  qed
next
  case False
  have "code_of c < 256" by (simp add: code_of_def)
  have "schar c mod 4294967296 = (schar c + 4294967296) mod 4294967296" by simp
  also have "\<dots> = schar c + 4294967296"
    using schar_bounds [of c] False by (intro mod_pos_pos_trivial) (simp_all add: schar_def)
  finally have "nat (schar c mod 4294967296) = 4294967040 + code_of c" using False by (simp add: schar_def)
  with False \<open>code_of c < 256\<close> length_show_hex [of 7 "4294967040 + code_of c"] show ?thesis
    by (simp add: hex_char_def)
qed

text \<open>The printing of \<open>n\<close> bytes into \<open>2 n + 1\<close> stays in its array just when all of them are below 0x80.\<close>

lemma hex_into_ascii:
  "ascii s \<Longrightarrow> length out + 2 * length s < room \<Longrightarrow> hex_into room out s = Done (out @ concat (map hex_char s))"
  by (induction s arbitrary: out) (auto simp: ascii_def length_hex_char Let_def)

lemma hex_into_overruns:
  "s \<noteq> [] \<Longrightarrow> room \<le> length out + length (concat (map hex_char s)) \<Longrightarrow> hex_into room out s = Fault Out_of_bounds"
proof (induction s arbitrary: out)
  case (Cons c s)
  then show ?case using Cons.IH [of "out @ hex_char c"] by (cases "s = []") (simp_all add: Let_def)
qed simp

lemma hex_text_long: "2 * length s \<le> length (concat (map hex_char s))"
  "\<not> ascii s \<Longrightarrow> s \<noteq> [] \<and> 2 * length s + 1 \<le> length (concat (map hex_char s))"
proof -
  show le: "2 * length s \<le> length (concat (map hex_char s))" for s
    by (induction s) (auto simp: length_hex_char)
  show "\<not> ascii s \<Longrightarrow> s \<noteq> [] \<and> 2 * length s + 1 \<le> length (concat (map hex_char s))"
  proof (induction s)
    case (Cons c s)
    then show ?case using le [of s] by (cases "code_of c < 128") (auto simp: ascii_def length_hex_char)
  qed (simp add: ascii_def)
qed

lemma hex_into_exact:
  "hex_into (2 * length s + 1) [] s =
     (if ascii s then Done (concat (map hex_char s)) else Fault Out_of_bounds)"
  using hex_text_long(2) [of s] by (simp add: hex_into_ascii hex_into_overruns)

text \<open>A message of the right size is printed if its key and its value are ASCII; every other one is
  written past the end of an array.\<close>

lemma print_response_iff:
  assumes "wf_send r"
  shows "print_response_message r =
    (if ascii (key r) \<and> ascii (msg_value r)
     then Done (show_hex (nat (schar (operation r) mod 2 ^ 32)), concat (map hex_char (key r)),
       concat (map hex_char (msg_value r)))
     else Fault Out_of_bounds)"
  using hex_into_exact [of "key r"] hex_into_exact [of "msg_value r"] assms
  by (simp add: print_response_message_def wf_send_def)

lemma test_print_same: "test_print_response_message = print_response_message"
  by (simp add: fun_eq_iff test_print_response_message_def print_response_message_def)

lemma print_responses_iff:
  "\<forall>r \<in> set rs. wf_send r \<Longrightarrow>
   (\<exists>ts. print_responses rs = Done ts) \<longleftrightarrow> (\<forall>r \<in> set rs. ascii (key r) \<and> ascii (msg_value r))"
  by (induction rs) (auto simp: test_print_same print_response_iff split: sum.splits)

text \<open>In verbose mode the replaying client prints all answers to a round of generated writes over ASCII
  letters: they are the requests themselves, whose fields are letters and padding.\<close>

lemma verbose_replay_prints:
  assumes "list_all2 write_of ts qs" and "\<forall>t \<in> set ts. field_test t \<and> spelled letters t" and "ascii letters"
  shows "\<exists>texts. print_responses (map accepted qs) = Done texts"
proof -
  have "wf_send (accepted q) \<and> ascii (key (accepted q)) \<and> ascii (msg_value (accepted q))" if "q \<in> set qs" for q
  proof -
    from list_all2_partner [OF assms(1) that] assms(2) obtain t where
      t: "write_of t q" "field_test t" "spelled letters t" by blast
    then obtain op k v where f: "t = (op, k, Some v)" by (cases t rule: field_test.cases) auto
    with t(3) assms(3) have "ascii k" "ascii v" by (auto simp: spelled_def ascii_def)
    then have "ascii (nul_pad 16 k)" "ascii (nul_pad 32 v)" by (auto simp: ascii_def nul_pad_def code_of_def)
    with write_fields [OF t(1) f] write_of_valid [OF t(1,2)] show ?thesis
      by (simp add: accepted_def valid_request_def wf_send_def)
  qed
  then show ?thesis by (subst print_responses_iff) auto
qed

end
